(* ===== verification/Prelude.thy ===== *)
theory Prelude
  imports Main "HOL-Library.Word"
begin

text \<open>
  Shared vocabulary of the development: the outcome of running C code (a value, a fault or
  the process leaving, or no return at all), array accesses with their bounds, the C
  \<open>int\<close> range, and the byte order of the wire. Every component builds on these definitions,
  and their simplification rules carry the component proofs.
\<close>

named_theorems run_simps \<open>sequencing of runs\<close>
named_theorems wire_simps \<open>byte encodings\<close>

section \<open>Outcomes of running C code\<close>

text \<open>
  \<open>Exit n\<close> is the code calling \<open>exit(n)\<close>. The other faults are the undefined behaviours
  the code can reach: an access outside an array, a null pointer given to a string function,
  a read of memory nobody wrote, a signed overflow. A run is \<open>None\<close> when the code never
  returns, \<open>Some (Inl f)\<close> when it stops with a fault, and \<open>Some (Inr x)\<close> when it returns \<open>x\<close>.
\<close>

datatype fault = Exit int | OutOfBounds | NullDeref | Uninitialised | Overflow

type_synonym 'a run = "(fault + 'a) option"

abbreviation ret :: "'a \<Rightarrow> 'a run" where "ret x \<equiv> Some (Inr x)"
abbreviation halt :: "fault \<Rightarrow> 'a run" where "halt f \<equiv> Some (Inl f)"

definition andthen :: "'a run \<Rightarrow> ('a \<Rightarrow> 'b run) \<Rightarrow> 'b run" where
  "andthen m k = (case m of None \<Rightarrow> None | Some r \<Rightarrow> (case r of Inl f \<Rightarrow> halt f | Inr x \<Rightarrow> k x))"

lemma andthen_simps [simp, run_simps]:
  "andthen (ret x) k = k x"
  "andthen (halt f) k = halt f"
  "andthen None k = None"
  by (simp_all add: andthen_def)

lemma andthen_ret_iff [run_simps]:
  "andthen m k = ret y \<longleftrightarrow> (\<exists>x. m = ret x \<and> k x = ret y)"
  by (simp add: andthen_def split: option.splits sum.splits)

lemma andthen_halt_iff:
  "andthen m k = halt f \<longleftrightarrow> m = halt f \<or> (\<exists>x. m = ret x \<and> k x = halt f)"
  by (auto simp add: andthen_def split: option.splits sum.splits)

lemma andthen_retE [elim!]:
  assumes "andthen m k = ret y"
  obtains x where "m = ret x" "k x = ret y"
  using assms by (auto simp: andthen_ret_iff)

lemma andthen_assoc: "andthen (andthen m k) h = andthen m (\<lambda>x. andthen (k x) h)"
  by (simp add: andthen_def split: option.splits sum.splits)

lemma andthen_ret_right [simp]: "andthen m Some_Inr = m" if "Some_Inr = (\<lambda>x. ret x)"
  using that by (simp add: andthen_def split: option.splits sum.splits)

lemma run_cases [case_names diverges faults returns]:
  fixes m :: "'a run"
  obtains "m = None" | f where "m = halt f" | x where "m = ret x"
  by (metis not_None_eq sum.exhaust)

section \<open>C integers\<close>

abbreviation int_max :: int where "int_max \<equiv> 2147483647"
abbreviation int_min :: int where "int_min \<equiv> - 2147483648"

text \<open>The result of a signed \<open>int\<close> operation: a value of the type, or signed overflow.\<close>

definition cint :: "int \<Rightarrow> int run" where
  "cint i = (if int_min \<le> i \<and> i \<le> int_max then ret i else halt Overflow)"

lemma cint_in_range [simp]: "int_min \<le> i \<Longrightarrow> i \<le> int_max \<Longrightarrow> cint i = ret i"
  by (simp add: cint_def)

lemma cint_ret [run_simps]: "cint i = ret j \<longleftrightarrow> j = i \<and> int_min \<le> i \<and> i \<le> int_max"
  by (auto simp: cint_def)

section \<open>Arrays\<close>

text \<open>Reading and writing an array at a C index: outside its bounds the behaviour is undefined.\<close>

definition aget :: "'a list \<Rightarrow> int \<Rightarrow> 'a run" where
  "aget xs i = (if 0 \<le> i \<and> i < int (length xs) then ret (xs ! nat i) else halt OutOfBounds)"

definition aset :: "'a list \<Rightarrow> int \<Rightarrow> 'a \<Rightarrow> 'a list run" where
  "aset xs i v = (if 0 \<le> i \<and> i < int (length xs) then ret (xs[nat i := v]) else halt OutOfBounds)"

lemma aget_nat [simp]: "i < length xs \<Longrightarrow> aget xs (int i) = ret (xs ! i)"
  by (simp add: aget_def)

lemma aset_nat [simp]: "i < length xs \<Longrightarrow> aset xs (int i) v = ret (xs[i := v])"
  by (simp add: aset_def)

lemma aget_ret [run_simps]:
  "aget xs i = ret x \<longleftrightarrow> 0 \<le> i \<and> i < int (length xs) \<and> x = xs ! nat i"
  by (auto simp: aget_def)

lemma aset_ret [run_simps]:
  "aset xs i v = ret ys \<longleftrightarrow> 0 \<le> i \<and> i < int (length xs) \<and> ys = xs[nat i := v]"
  by (auto simp: aset_def)

text \<open>Copying a block of bytes into a buffer at an offset (the effect of \<open>memcpy\<close>, \<open>memset\<close>
  and of the kernel filling a receive buffer), and reading a block out of it.\<close>

definition blit :: "'a list \<Rightarrow> nat \<Rightarrow> 'a list \<Rightarrow> 'a list run" where
  "blit buf off bs =
     (if off + length bs \<le> length buf
      then ret (take off buf @ bs @ drop (off + length bs) buf) else halt OutOfBounds)"

definition slice :: "'a list \<Rightarrow> nat \<Rightarrow> nat \<Rightarrow> 'a list run" where
  "slice buf off n = (if off + n \<le> length buf then ret (take n (drop off buf)) else halt OutOfBounds)"

lemma take_split: "k \<le> n \<Longrightarrow> take n xs = take k xs @ take (n - k) (drop k xs)"
  by (metis take_add le_add_diff_inverse)

lemma blit_ret [run_simps]:
  "blit buf off bs = ret b \<longleftrightarrow>
     off + length bs \<le> length buf \<and> b = take off buf @ bs @ drop (off + length bs) buf"
  by (auto simp: blit_def)

lemma slice_ret [run_simps]:
  "slice buf off n = ret b \<longleftrightarrow> off + n \<le> length buf \<and> b = take n (drop off buf)"
  by (auto simp: slice_def)

lemma length_blit: "blit buf off bs = ret b \<Longrightarrow> length b = length buf"
  by (auto simp: blit_ret)

section \<open>Bytes and network byte order\<close>

unbundle bit_operations_syntax

type_synonym byte = "8 word"

text \<open>
  The four bytes of a 32-bit word, most significant first (network order) and least significant
  first (the memory order of the little-endian hosts the Makefiles build for).
\<close>

definition be32 :: "32 word \<Rightarrow> byte list" where
  "be32 w = [ucast (drop_bit 24 w), ucast (drop_bit 16 w), ucast (drop_bit 8 w), ucast w]"

definition le32 :: "32 word \<Rightarrow> byte list" where
  "le32 w = rev (be32 w)"

fun of_be32 :: "byte list \<Rightarrow> 32 word" where
  "of_be32 [a, b, c, d] =
     push_bit 24 (ucast a) OR push_bit 16 (ucast b) OR push_bit 8 (ucast c) OR ucast d"
| "of_be32 _ = 0"

definition of_le32 :: "byte list \<Rightarrow> 32 word" where
  "of_le32 bs = of_be32 (rev bs)"

text \<open>\<open>htonl\<close> and \<open>ntohl\<close>: the word whose memory bytes are the argument's bytes in network order.\<close>

definition htonl :: "32 word \<Rightarrow> 32 word" where
  "htonl w = of_le32 (be32 w)"

definition ntohl :: "32 word \<Rightarrow> 32 word" where
  "ntohl w = of_be32 (le32 w)"

lemma length_be32 [simp, wire_simps]: "length (be32 w) = 4"
  by (simp add: be32_def)

lemma length_le32 [simp, wire_simps]: "length (le32 w) = 4"
  by (simp add: le32_def)

lemma of_be32_be32 [simp, wire_simps]: "of_be32 (be32 w) = w"
proof (rule bit_word_eqI)
  fix n assume "n < LENGTH(32)"
  then show "bit (of_be32 (be32 w)) n \<longleftrightarrow> bit w n"
    by (cases "n < 8"; cases "n < 16"; cases "n < 24")
      (auto simp: be32_def bit_simps not_less)
qed

lemma be32_of_be32 [simp, wire_simps]:
  assumes "length bs = 4"
  shows "be32 (of_be32 bs) = bs"
proof -
  from assms obtain a b c d where bs: "bs = [a, b, c, d]"
    by (auto simp: numeral_eq_Suc length_Suc_conv)
  show ?thesis
    unfolding bs of_be32.simps be32_def list.inject
    by (intro conjI refl; rule bit_word_eqI; auto simp: bit_simps dest: bit_imp_le_length)
qed

lemma of_le32_le32 [simp, wire_simps]: "of_le32 (le32 w) = w"
  by (simp add: of_le32_def le32_def)

lemma le32_of_le32 [simp, wire_simps]: "length bs = 4 \<Longrightarrow> le32 (of_le32 bs) = bs"
  by (simp add: of_le32_def le32_def)

lemma le32_htonl [simp, wire_simps]: "le32 (htonl w) = be32 w"
  by (simp add: htonl_def)

lemma be32_htonl [simp, wire_simps]: "be32 (htonl w) = rev (be32 w)"
  using le32_htonl [of w] by (metis le32_def rev_rev_ident)

lemma ntohl_htonl [simp, wire_simps]: "ntohl (htonl w) = w"
  by (simp add: ntohl_def)

lemma ntohl_of_le32 [wire_simps]: "length bs = 4 \<Longrightarrow> ntohl (of_le32 bs) = of_be32 bs"
  by (simp add: ntohl_def)

text \<open>A C \<open>int\<close> and the 32-bit word that holds it.\<close>

lemma sint_word_of_int [simp, wire_simps]:
  "int_min \<le> i \<Longrightarrow> i \<le> int_max \<Longrightarrow> sint (word_of_int i :: 32 word) = i"
  by (simp add: signed_of_int signed_take_bit_int_eq_self)

lemma sint_32_range: "int_min \<le> sint (w :: 32 word)" "sint (w :: 32 word) \<le> int_max"
  using sint_ge [of w] sint_lt [of w] by simp_all

lemma word_of_int_sint_32 [simp]: "word_of_int (sint (w :: 32 word)) = w"
  by simp

section \<open>Transition systems\<close>

text \<open>A property that every step keeps holds in every state that steps lead to.\<close>

locale invariant_system =
  fixes step :: "'s \<Rightarrow> 's \<Rightarrow> bool"
    and inv :: "'s \<Rightarrow> bool"
  assumes step_inv: "step s s' \<Longrightarrow> inv s \<Longrightarrow> inv s'"
begin

lemma reach_inv: "step\<^sup>*\<^sup>* s s' \<Longrightarrow> inv s \<Longrightarrow> inv s'"
  by (induction rule: rtranclp_induct) (auto intro: step_inv)

end

end
