(* ===== verification/DistanceVector.thy ===== *)
theory DistanceVector
  imports Prelude
begin

text \<open>
  The distance table and the routing table of the router (\<open>router/router.c\<close>): the global state of
  the process, the lookups between router ids and indices, the minimum over the neighbours and
  the recomputation of the router's own row. The specification is the Bellman-Ford equation:
  the cost to a destination is the least of link cost plus the neighbour's announced cost.
\<close>

section \<open>State\<close>

text \<open>A socket descriptor is \<open>None\<close> until the connection code has stored one (the array comes
  from \<open>malloc\<close>); so is a routing entry.\<close>

record Router =
  ip :: "32 word"
  port :: "32 word"
  router_sd :: "int option"
  RID :: int
  linkCost :: int

record Entry =
  dest_RID :: int
  nextHop_RID :: int
  pathCost :: int

record rstate =
  ownRID :: int
  ownIndex :: int
  numRouter :: int
  numDV :: int
  connected :: "int list"
  router_set :: "Router list"
  DVTable :: "int list list"
  rt_available :: "int list"
  routing_table :: "Entry option list"

section \<open>Lookups and table updates\<close>

fun RID_scan :: "Router list \<Rightarrow> int \<Rightarrow> int \<Rightarrow> int" where
  "RID_scan [] rid i = -1"
| "RID_scan (r # rs) rid i = (if RID r = rid then i else RID_scan rs rid (i + 1))"

definition RID_to_Index :: "rstate \<Rightarrow> int \<Rightarrow> int" where
  "RID_to_Index s rid = RID_scan (take (nat (numRouter s)) (router_set s)) rid 0"

definition index_to_RID :: "rstate \<Rightarrow> int \<Rightarrow> int run" where
  "index_to_RID s i =
     (if i < numRouter s \<and> i \<ge> 0 then andthen (aget (router_set s) i) (\<lambda>r. ret (RID r))
      else ret (-1))"

definition dv_get :: "rstate \<Rightarrow> int \<Rightarrow> int \<Rightarrow> int run" where
  "dv_get s i j = andthen (aget (DVTable s) i) (\<lambda>row. aget row j)"

definition dv_set :: "rstate \<Rightarrow> int \<Rightarrow> int \<Rightarrow> int \<Rightarrow> rstate run" where
  "dv_set s i j v =
     andthen (aget (DVTable s) i) (\<lambda>row.
     andthen (aset row j v) (\<lambda>row'.
     andthen (aset (DVTable s) i row') (\<lambda>t. ret (s\<lparr>DVTable := t\<rparr>))))"

definition setNextHop :: "rstate \<Rightarrow> int \<Rightarrow> int \<Rightarrow> int \<Rightarrow> rstate run" where
  "setNextHop s d_index nextHop_index cost =
     andthen (aset (rt_available s) d_index 1) (\<lambda>av.
     andthen (index_to_RID s d_index) (\<lambda>dr.
     andthen (index_to_RID s nextHop_index) (\<lambda>nr.
     andthen (aset (routing_table s) d_index
               (Some \<lparr>dest_RID = dr, nextHop_RID = nr, pathCost = cost\<rparr>)) (\<lambda>rt.
     ret (s\<lparr>rt_available := av, routing_table := rt\<rparr>)))))"

section \<open>The minimum over the neighbours\<close>

text \<open>The loop of \<open>min_DV\<close>: the accumulator holds \<open>once\<close>, \<open>*min\<close> and \<open>NH\<close>. The sum of two
  \<open>int\<close>s may overflow, since a neighbour can announce any value.\<close>

fun min_DV_loop :: "rstate \<Rightarrow> int \<Rightarrow> nat list \<Rightarrow> bool \<times> int \<times> int \<Rightarrow> (bool \<times> int \<times> int) run" where
  "min_DV_loop s d_index [] acc = ret acc"
| "min_DV_loop s d_index (k # ks) (once, mn, NH) =
     (if int k \<noteq> ownIndex s then
        andthen (aget (router_set s) (int k)) (\<lambda>r.
        if linkCost r \<noteq> -1 then
          andthen (dv_get s (int k) d_index) (\<lambda>v.
          if v \<noteq> -1 then
            andthen (cint (linkCost r + v)) (\<lambda>cost.
            if \<not> once then min_DV_loop s d_index ks (True, cost, int k)
            else if cost < mn then min_DV_loop s d_index ks (once, cost, int k)
            else min_DV_loop s d_index ks (once, mn, NH))
          else min_DV_loop s d_index ks (once, mn, NH))
        else min_DV_loop s d_index ks (once, mn, NH))
      else min_DV_loop s d_index ks (once, mn, NH))"

text \<open>The result is the next hop returned and the cost stored through \<open>min\<close>.\<close>

definition min_DV :: "rstate \<Rightarrow> int \<Rightarrow> (int \<times> int) run" where
  "min_DV s d_index =
     andthen (min_DV_loop s d_index [0..<nat (numRouter s)] (False, -1, -1)) (\<lambda>(once, mn, NH).
     let mn = (if mn \<ge> 1000 * 10 then -1 else mn)
     in if mn \<noteq> -1 then ret (NH, mn) else ret (-1, mn))"

section \<open>Recomputing the router's own row\<close>

fun recompute_loop :: "nat list \<Rightarrow> rstate \<Rightarrow> bool \<Rightarrow> (bool \<times> rstate) run" where
  "recompute_loop [] s ischange = ret (ischange, s)"
| "recompute_loop (d # ds) s ischange =
     (if int d \<noteq> ownIndex s then
        andthen (min_DV s (int d)) (\<lambda>(nextHop, mn).
        andthen (dv_get s (ownIndex s) (int d)) (\<lambda>old.
        if mn \<noteq> old then
          andthen (dv_set s (ownIndex s) (int d) mn) (\<lambda>s.
          andthen (if nextHop \<noteq> -1 then setNextHop s (int d) nextHop mn else ret s) (\<lambda>s.
          recompute_loop ds s True))
        else recompute_loop ds s ischange))
      else recompute_loop ds s ischange)"

definition recompute :: "rstate \<Rightarrow> (bool \<times> rstate) run" where
  "recompute s = recompute_loop [0..<nat (numRouter s)] s False"

definition update_func :: "rstate \<Rightarrow> int \<Rightarrow> int \<Rightarrow> int \<Rightarrow> rstate run" where
  "update_func s s_id d_id wgt =
     (let wgt = (if wgt = 1000 then -1 else wgt);
          i = RID_to_Index s d_id
      in andthen (aget (router_set s) i) (\<lambda>r.
         andthen (aset (router_set s) i (r\<lparr>linkCost := wgt\<rparr>)) (\<lambda>rs.
         andthen (recompute (s\<lparr>router_set := rs\<rparr>)) (\<lambda>(ch, s). ret s))))"

definition reset_func :: "rstate \<Rightarrow> rstate" where
  "reset_func s = s\<lparr>numDV := 0\<rparr>"

section \<open>Well-formed tables\<close>

abbreviation nR :: "rstate \<Rightarrow> nat" where "nR s \<equiv> nat (numRouter s)"
abbreviation own :: "rstate \<Rightarrow> nat" where "own s \<equiv> nat (ownIndex s)"
abbreviation lc :: "rstate \<Rightarrow> nat \<Rightarrow> int" where "lc s k \<equiv> linkCost (router_set s ! k)"
abbreviation dv :: "rstate \<Rightarrow> nat \<Rightarrow> nat \<Rightarrow> int" where "dv s i j \<equiv> DVTable s ! i ! j"

text \<open>Every array has one cell per router and the router itself is one of them.\<close>

definition router_wf :: "rstate \<Rightarrow> bool" where
  "router_wf s \<longleftrightarrow> 0 \<le> ownIndex s \<and> ownIndex s < numRouter s \<and>
     length (connected s) = nR s \<and> length (router_set s) = nR s \<and>
     length (DVTable s) = nR s \<and> list_all (\<lambda>row. length row = nR s) (DVTable s) \<and>
     length (rt_available s) = nR s \<and> length (routing_table s) = nR s"

text \<open>Costs small enough for their sums to be \<open>int\<close>s: what the neighbours announced and the
  link costs lie between \<open>-1\<close> (no path, no link) and a billion.\<close>

definition costs_bounded :: "rstate \<Rightarrow> bool" where
  "costs_bounded s \<longleftrightarrow> (\<forall>k < nR s. -1 \<le> lc s k \<and> lc s k \<le> 1000000000 \<and>
     (k \<noteq> own s \<longrightarrow> (\<forall>d < nR s. -1 \<le> dv s k d \<and> dv s k d \<le> 1000000000)))"

lemma router_wfD:
  assumes "router_wf s"
  shows "int (own s) = ownIndex s" "own s < nR s" "int (nR s) = numRouter s"
    "length (connected s) = nR s" "length (router_set s) = nR s" "length (DVTable s) = nR s"
    "length (rt_available s) = nR s" "length (routing_table s) = nR s"
    "k < nR s \<Longrightarrow> length (DVTable s ! k) = nR s" "0 < numRouter s"
  using assms by (auto simp: router_wf_def list_all_length)

lemma dv_get_wf: "router_wf s \<Longrightarrow> i < nR s \<Longrightarrow> j < nR s \<Longrightarrow> dv_get s (int i) (int j) = ret (dv s i j)"
  by (simp add: dv_get_def router_wfD)

lemma dv_set_wf:
  "router_wf s \<Longrightarrow> i < nR s \<Longrightarrow> j < nR s \<Longrightarrow>
   dv_set s (int i) (int j) v = ret (s\<lparr>DVTable := (DVTable s)[i := (DVTable s ! i)[j := v]]\<rparr>)"
  by (simp add: dv_set_def router_wfD)

lemma index_to_RID_wf: "router_wf s \<Longrightarrow> i < nR s \<Longrightarrow> index_to_RID s (int i) = ret (RID (router_set s ! i))"
  by (auto simp: index_to_RID_def router_wf_def)

lemma RID_scan_cases:
  "0 \<le> i \<Longrightarrow> (RID_scan rs rid i = -1 \<and> (\<forall>r \<in> set rs. RID r \<noteq> rid)) \<or>
     (\<exists>k < length rs. RID_scan rs rid i = i + int k \<and> RID (rs ! k) = rid \<and> (\<forall>j < k. RID (rs ! j) \<noteq> rid))"
proof (induction rs arbitrary: i)
  case (Cons r rs)
  show ?case
  proof (cases "RID r = rid")
    case True
    then show ?thesis by (intro disjI2 exI [of _ 0]) simp
  next
    case False
    from Cons.prems have "0 \<le> i + 1" by simp
    from Cons.IH [OF this] show ?thesis
    proof
      assume "\<exists>k<length rs. RID_scan rs rid (i + 1) = i + 1 + int k \<and> RID (rs ! k) = rid \<and> (\<forall>j<k. RID (rs ! j) \<noteq> rid)"
      then obtain k where "k < length rs" "RID_scan rs rid (i + 1) = i + 1 + int k" "RID (rs ! k) = rid"
        "\<forall>j<k. RID (rs ! j) \<noteq> rid" by blast
      with False show ?thesis
        by (intro disjI2 exI [of _ "Suc k"]) (auto simp: less_Suc_eq_0_disj)
    qed (use False in auto)
  qed
qed simp

text \<open>The lookup returns the first index with the id, or \<open>-1\<close> when no router has it.\<close>

lemma RID_to_Index_cases [consumes 1, case_names missing found]:
  assumes "router_wf s"
  obtains "RID_to_Index s rid = -1" "\<forall>k < nR s. RID (router_set s ! k) \<noteq> rid"
  | k where "k < nR s" "RID_to_Index s rid = int k" "RID (router_set s ! k) = rid"
      "\<forall>j < k. RID (router_set s ! j) \<noteq> rid"
  using RID_scan_cases [of 0 "router_set s" rid] assms
  by (auto simp: RID_to_Index_def router_wf_def all_set_conv_all_nth)

lemma RID_to_Index_own_id:
  assumes "router_wf s" "k < nR s" "distinct (map RID (router_set s))"
  shows "RID_to_Index s (RID (router_set s ! k)) = int k"
  using assms(1)
proof (cases rule: RID_to_Index_cases [where rid = "RID (router_set s ! k)"])
  case missing
  with assms(2) show ?thesis by blast
next
  case (found j)
  then have "map RID (router_set s) ! j = map RID (router_set s) ! k"
    using assms router_wfD(5) [OF assms(1)] by simp
  then have "j = k"
    using assms found(1) router_wfD(5) [OF assms(1)] by (simp only: nth_eq_iff_index_eq length_map)
  with found show ?thesis by simp
qed


section \<open>What the minimum is\<close>

text \<open>A next hop is eligible for a destination when it is another router, a neighbour, and has
  announced a path. The specification takes the first eligible one of least cost.\<close>

definition eligible :: "rstate \<Rightarrow> nat \<Rightarrow> nat \<Rightarrow> bool" where
  "eligible s d k \<longleftrightarrow> k < nR s \<and> k \<noteq> own s \<and> lc s k \<noteq> -1 \<and> dv s k d \<noteq> -1"

definition via_cost :: "rstate \<Rightarrow> nat \<Rightarrow> nat \<Rightarrow> int" where
  "via_cost s d k = lc s k + dv s k d"

definition min_step :: "rstate \<Rightarrow> nat \<Rightarrow> nat \<Rightarrow> bool \<times> int \<times> int \<Rightarrow> bool \<times> int \<times> int" where
  "min_step s d k = (\<lambda>(once, mn, NH).
     if eligible s d k \<and> (once \<longrightarrow> via_cost s d k < mn) then (True, via_cost s d k, int k)
     else (once, mn, NH))"

definition best :: "rstate \<Rightarrow> nat \<Rightarrow> int \<times> int" where
  "best s d = (case fold (min_step s d) [0..<nR s] (False, -1, -1) of (once, mn, NH) \<Rightarrow>
     let mn = (if mn \<ge> 1000 * 10 then -1 else mn) in if mn \<noteq> -1 then (NH, mn) else (-1, mn))"

lemma costs_boundedD:
  assumes "costs_bounded s" "k < nR s"
  shows "-1 \<le> lc s k" "lc s k \<le> 1000000000"
    "k \<noteq> own s \<Longrightarrow> d < nR s \<Longrightarrow> -1 \<le> dv s k d"
    "k \<noteq> own s \<Longrightarrow> d < nR s \<Longrightarrow> dv s k d \<le> 1000000000"
  using assms by (auto simp: costs_bounded_def)

lemma min_DV_loop_fold:
  assumes "router_wf s" "costs_bounded s" "d < nR s" "\<forall>k \<in> set ks. k < nR s"
  shows "min_DV_loop s (int d) ks acc = ret (fold (min_step s d) ks acc)"
  using assms(4)
proof (induction ks arbitrary: acc)
  case (Cons k ks)
  obtain once mn NH where acc: "acc = (once, mn, NH)" by (cases acc)
  have k: "k < nR s" and IH: "\<And>acc. min_DV_loop s (int d) ks acc = ret (fold (min_step s d) ks acc)"
    using Cons by auto
  have own: "int k = ownIndex s \<longleftrightarrow> k = own s"
    using assms(1) by (auto simp: router_wf_def)
  have r: "aget (router_set s) (int k) = ret (router_set s ! k)"
    using k router_wfD(5) [OF assms(1)] by simp
  have v: "dv_get s (int k) (int d) = ret (dv s k d)"
    using dv_get_wf [OF assms(1) k assms(3)] .
  have c: "k \<noteq> own s \<Longrightarrow> cint (lc s k + dv s k d) = ret (lc s k + dv s k d)"
    using costs_boundedD(1,2) [OF assms(2) k] costs_boundedD(3,4) [OF assms(2) k _ assms(3)]
    by simp
  have st: "min_step s d k (once, mn, NH) =
     (if k \<noteq> own s \<and> lc s k \<noteq> -1 \<and> dv s k d \<noteq> -1 \<and> (once \<longrightarrow> lc s k + dv s k d < mn)
      then (True, lc s k + dv s k d, int k) else (once, mn, NH))"
    using k by (simp add: min_step_def eligible_def via_cost_def)
  show ?case
    by (auto simp: acc own r v c IH st)
qed simp

lemma min_DV_best:
  assumes "router_wf s" "costs_bounded s" "d < nR s"
  shows "min_DV s (int d) = ret (best s d)"
proof -
  have *: "min_DV_loop s (int d) [0..<nR s] (False, -1, -1)
      = ret (fold (min_step s d) [0..<nR s] (False, -1, -1))"
    by (rule min_DV_loop_fold [OF assms]) simp
  show ?thesis
    unfolding min_DV_def * best_def by (auto simp: Let_def split: prod.splits)
qed

text \<open>Without the bound on the costs the minimum is the same, or the sum overflows.\<close>

lemma min_DV_loop_ret:
  assumes "router_wf s" "d < nR s" "\<forall>k \<in> set ks. k < nR s"
    and "min_DV_loop s (int d) ks acc = ret res"
  shows "res = fold (min_step s d) ks acc"
  using assms(3,4)
proof (induction ks arbitrary: acc)
  case (Cons k ks)
  obtain once mn NH where acc: "acc = (once, mn, NH)" by (cases acc)
  have k: "k < nR s" using Cons.prems by simp
  have IH: "\<And>acc. min_DV_loop s (int d) ks acc = ret res \<Longrightarrow> res = fold (min_step s d) ks acc"
    using Cons by auto
  have own: "int k = ownIndex s \<longleftrightarrow> k = own s"
    using assms(1) by (auto simp: router_wf_def)
  have r: "aget (router_set s) (int k) = ret (router_set s ! k)"
    using k router_wfD(5) [OF assms(1)] by simp
  have v: "dv_get s (int k) (int d) = ret (dv s k d)"
    using dv_get_wf [OF assms(1) k assms(2)] .
  have st: "min_step s d k (once, mn, NH) =
     (if k \<noteq> own s \<and> lc s k \<noteq> -1 \<and> dv s k d \<noteq> -1 \<and> (once \<longrightarrow> lc s k + dv s k d < mn)
      then (True, lc s k + dv s k d, int k) else (once, mn, NH))"
    using k by (simp add: min_step_def eligible_def via_cost_def)
  from Cons.prems(2) show ?case
    by (auto simp: acc own r v st cint_def dest!: IH split: if_splits)
qed simp

lemma min_DV_ret:
  assumes "router_wf s" "d < nR s" "min_DV s (int d) = ret r"
  shows "r = best s d"
proof -
  from assms(3) obtain once mn NH where
    l: "min_DV_loop s (int d) [0..<nR s] (False, -1, -1) = ret (once, mn, NH)"
    unfolding min_DV_def by (auto simp: andthen_ret_iff)
  have f: "fold (min_step s d) [0..<nR s] (False, -1, -1) = (once, mn, NH)"
    using min_DV_loop_ret [OF assms(1,2) _ l] by simp
  show ?thesis using assms(3) unfolding min_DV_def l best_def f by (auto simp: Let_def split: if_splits)
qed

text \<open>The invariant of the loop after the first \<open>m\<close> routers.\<close>

definition min_inv :: "rstate \<Rightarrow> nat \<Rightarrow> nat \<Rightarrow> bool \<times> int \<times> int \<Rightarrow> bool" where
  "min_inv s d m = (\<lambda>(once, mn, NH).
     (once \<longleftrightarrow> (\<exists>k < m. eligible s d k)) \<and>
     (\<not> once \<longrightarrow> mn = -1 \<and> NH = -1) \<and>
     (once \<longrightarrow> (\<exists>k < m. NH = int k \<and> eligible s d k \<and> mn = via_cost s d k \<and>
        (\<forall>j < m. eligible s d j \<longrightarrow> mn \<le> via_cost s d j \<and> (j < k \<longrightarrow> mn < via_cost s d j)))))"

lemma min_inv_step: "min_inv s d m acc \<Longrightarrow> min_inv s d (Suc m) (min_step s d m acc)"
  by (cases acc) (auto simp: min_inv_def min_step_def less_Suc_eq split: if_splits; force)

lemma min_inv_fold: "min_inv s d m (fold (min_step s d) [0..<m] (False, -1, -1))"
  by (induction m) (simp add: min_inv_def, simp add: min_inv_step)

text \<open>The two outcomes of \<open>min_DV\<close>: a next hop of least cost, or no path.\<close>

lemma best_cases:
  assumes "best s d = (NH, mn)"
  obtains (none) "NH = -1" "mn = -1" "\<forall>k. eligible s d k \<longrightarrow> via_cost s d k \<ge> 10000 \<or> 
              (\<exists>j. eligible s d j \<and> via_cost s d j = -1)"
  | (hop) k where "NH = int k" "eligible s d k" "mn = via_cost s d k" "mn < 10000" "mn \<noteq> -1"
      "\<forall>j. eligible s d j \<longrightarrow> mn \<le> via_cost s d j \<and> (j < k \<longrightarrow> mn < via_cost s d j)"
proof -
  obtain once m0 N0 where f: "fold (min_step s d) [0..<nR s] (False, -1, -1) = (once, m0, N0)"
    by (metis prod_cases3)
  have inv: "min_inv s d (nR s) (once, m0, N0)"
    using min_inv_fold [of s d "nR s"] f by simp
  have el: "\<And>j. eligible s d j \<Longrightarrow> j < nR s" by (simp add: eligible_def)
  show thesis
  proof (cases once)
    case False
    with inv el have "\<forall>k. \<not> eligible s d k" "m0 = -1" by (auto simp: min_inv_def)
    with assms f none show thesis by (simp add: best_def Let_def)
  next
    case True
    with inv obtain k where k: "N0 = int k" "eligible s d k" "m0 = via_cost s d k"
      and least: "\<forall>j. eligible s d j \<longrightarrow> m0 \<le> via_cost s d j \<and> (j < k \<longrightarrow> m0 < via_cost s d j)"
      using el by (auto simp: min_inv_def)
    show thesis
    proof (cases "m0 < 10000 \<and> m0 \<noteq> -1")
      case True
      with assms f k least show thesis
        by (intro hop [of k]) (simp_all add: best_def Let_def)
    next
      case False
      with assms f have "NH = -1" "mn = -1" by (auto simp: best_def Let_def split: if_splits)
      then show thesis
        using False k least by (intro none) (auto intro: order_trans)
    qed
  qed
qed

section \<open>What a recomputation does\<close>

text \<open>The part of the state no recomputation writes.\<close>

definition same_links :: "rstate \<Rightarrow> rstate \<Rightarrow> bool" where
  "same_links s s' \<longleftrightarrow> ownRID s' = ownRID s \<and> ownIndex s' = ownIndex s \<and>
     numRouter s' = numRouter s \<and> numDV s' = numDV s \<and> connected s' = connected s \<and>
     router_set s' = router_set s \<and>
     (\<forall>k < nR s. k \<noteq> own s \<longrightarrow> DVTable s' ! k = DVTable s ! k)"

text \<open>The entry a changed destination gets.\<close>

definition best_entry :: "rstate \<Rightarrow> nat \<Rightarrow> Entry" where
  "best_entry s d = \<lparr>dest_RID = RID (router_set s ! d),
     nextHop_RID = RID (router_set s ! nat (fst (best s d))), pathCost = snd (best s d)\<rparr>"

text \<open>\<open>s'\<close> is \<open>s\<close> after the destinations in \<open>D\<close> have been recomputed.\<close>

definition recomputed :: "rstate \<Rightarrow> nat set \<Rightarrow> rstate \<Rightarrow> bool" where
  "recomputed s D s' \<longleftrightarrow> router_wf s' \<and> same_links s s' \<and>
     (\<forall>d < nR s. dv s' (own s) d =
        (if d \<in> D \<and> d \<noteq> own s then snd (best s d) else dv s (own s) d)) \<and>
     (\<forall>d < nR s. if d \<in> D \<and> d \<noteq> own s \<and> snd (best s d) \<noteq> dv s (own s) d \<and> fst (best s d) \<noteq> -1
        then rt_available s' ! d = 1 \<and> routing_table s' ! d = Some (best_entry s d)
        else rt_available s' ! d = rt_available s ! d \<and> routing_table s' ! d = routing_table s ! d)"

lemma same_linksD:
  assumes "same_links s s'"
  shows "ownRID s' = ownRID s" "ownIndex s' = ownIndex s" "numRouter s' = numRouter s"
    "numDV s' = numDV s" "connected s' = connected s" "router_set s' = router_set s"
    "k < nR s \<Longrightarrow> k \<noteq> own s \<Longrightarrow> DVTable s' ! k = DVTable s ! k"
  using assms by (auto simp: same_links_def)

lemma best_same_links:
  assumes "same_links s s'"
  shows "best s' d = best s d"
proof -
  have "min_step s' d k acc = min_step s d k acc" for k acc
    using same_linksD [OF assms] 
    by (cases acc) (auto simp: min_step_def eligible_def via_cost_def)
  then have "min_step s' d = min_step s d" by (intro ext)
  then show ?thesis using same_linksD [OF assms] by (simp add: best_def)
qed

lemma costs_bounded_same_links: "same_links s s' \<Longrightarrow> costs_bounded s \<Longrightarrow> costs_bounded s'"
  unfolding costs_bounded_def same_links_def by auto

text \<open>One destination after a recomputation: its cost and its entry.\<close>

lemma recomputed_cost:
  assumes "recomputed s {0..<nR s} s'" "d < nR s"
  shows "dv s' (own s) d = (if d \<noteq> own s then snd (best s d) else dv s (own s) d)"
proof -
  have "dv s' (own s) d = (if d \<in> {0..<nR s} \<and> d \<noteq> own s then snd (best s d) else dv s (own s) d)"
    using assms unfolding recomputed_def by blast
  with assms(2) show ?thesis by simp
qed

lemma recomputed_entry:
  assumes "recomputed s D s'" "d < nR s"
  shows "if d \<in> D \<and> d \<noteq> own s \<and> snd (best s d) \<noteq> dv s (own s) d \<and> fst (best s d) \<noteq> -1
        then rt_available s' ! d = 1 \<and> routing_table s' ! d = Some (best_entry s d)
        else rt_available s' ! d = rt_available s ! d \<and> routing_table s' ! d = routing_table s ! d"
  using assms unfolding recomputed_def by blast

lemma recomputed_refl: "router_wf s \<Longrightarrow> recomputed s {} s"
  by (simp add: recomputed_def same_links_def)

lemma recomputed_trans:
  assumes "recomputed s D s'" "recomputed s' E s''" "D \<inter> E = {}"
  shows "recomputed s (D \<union> E) s''"
proof -
  have l: "same_links s s'" "same_links s' s''"
    using assms by (auto simp: recomputed_def)
  then have l': "same_links s s''" by (auto simp: same_links_def)
  have b: "best s' = best s" "best_entry s' = best_entry s"
    using best_same_links [OF l(1)] same_linksD [OF l(1)]
    by (auto simp: best_entry_def)
  have f: "own s' = own s" "nR s' = nR s" using same_linksD [OF l(1)] by auto
  have "dv s'' (own s) d = (if d \<in> D \<union> E \<and> d \<noteq> own s then snd (best s d) else dv s (own s) d)"
    if "d < nR s" for d
    using assms that unfolding recomputed_def f b by auto
  moreover have "if d \<in> D \<union> E \<and> d \<noteq> own s \<and> snd (best s d) \<noteq> dv s (own s) d \<and> fst (best s d) \<noteq> -1
        then rt_available s'' ! d = 1 \<and> routing_table s'' ! d = Some (best_entry s d)
        else rt_available s'' ! d = rt_available s ! d \<and> routing_table s'' ! d = routing_table s ! d"
    if "d < nR s" for d
  proof -
    have 1: "dv s' (own s) d = (if d \<in> D \<and> d \<noteq> own s then snd (best s d) else dv s (own s) d)"
      and 2: "if d \<in> D \<and> d \<noteq> own s \<and> snd (best s d) \<noteq> dv s (own s) d \<and> fst (best s d) \<noteq> -1
        then rt_available s' ! d = 1 \<and> routing_table s' ! d = Some (best_entry s d)
        else rt_available s' ! d = rt_available s ! d \<and> routing_table s' ! d = routing_table s ! d"
      using assms(1) that unfolding recomputed_def by blast+
    have 3: "if d \<in> E \<and> d \<noteq> own s \<and> snd (best s d) \<noteq> dv s' (own s) d \<and> fst (best s d) \<noteq> -1
        then rt_available s'' ! d = 1 \<and> routing_table s'' ! d = Some (best_entry s d)
        else rt_available s'' ! d = rt_available s' ! d \<and> routing_table s'' ! d = routing_table s' ! d"
      using assms(2) that unfolding recomputed_def f b by blast
    have "d \<in> D \<Longrightarrow> d \<notin> E" using assms(3) by blast
    with 1 2 3 show ?thesis by (auto split: if_splits)
  qed
  ultimately show ?thesis using assms(2) l' by (simp add: recomputed_def)
qed

text \<open>One iteration of the loop.\<close>

lemma recompute_step:
  assumes "router_wf s" "min_DV s (int d) = ret (best s d)" "d < nR s" "d \<noteq> own s"
  shows "\<exists>s'. recompute_loop (d # ds) s ch =
           recompute_loop ds s' (ch \<or> snd (best s d) \<noteq> dv s (own s) d) \<and> recomputed s {d} s'"
proof -
  obtain NH mn where b: "best s d = (NH, mn)" by (cases "best s d")
  note wf = router_wfD [OF assms(1)]
  have own: "int d \<noteq> ownIndex s" "ownIndex s = int (own s)" using wf(1) assms(4) by auto
  have m: "min_DV s (int d) = ret (NH, mn)" using assms(2) b by simp
  have g: "dv_get s (int (own s)) (int d) = ret (dv s (own s) d)"
    using dv_get_wf [OF assms(1) wf(2) assms(3)] .
  let ?s1 = "s\<lparr>DVTable := (DVTable s)[own s := (DVTable s ! own s)[d := mn]]\<rparr>"
  have st: "dv_set s (int (own s)) (int d) mn = ret ?s1"
    using dv_set_wf [OF assms(1) wf(2) assms(3)] .
  have wf1: "router_wf ?s1"
    using assms(1) wf(2,6,9) assms(3) by (auto simp: router_wf_def list_all_length nth_list_update)
  show ?thesis
  proof (cases "mn = dv s (own s) d")
    case True
    then have "recomputed s {d} s"
      using assms(1) b by (auto simp: recomputed_def same_links_def)
    with True own m g b show ?thesis by (intro exI [of _ s]) auto
  next
    case False
    show ?thesis
    proof (cases "NH = -1")
      case True
      have "recomputed s {d} ?s1"
        using assms wf wf1 b True by (auto simp: recomputed_def same_links_def nth_list_update)
      with False True own m g st b show ?thesis by (intro exI [of _ ?s1]) auto
    next
      case NH: False
      from b NH obtain k where k: "NH = int k" "k < nR s"
        by (cases rule: best_cases) (auto simp: eligible_def)
      let ?s2 = "?s1\<lparr>rt_available := (rt_available s)[d := 1],
        routing_table := (routing_table s)[d := Some (best_entry s d)]\<rparr>"
      have "setNextHop ?s1 (int d) NH mn = ret ?s2"
        using index_to_RID_wf [OF wf1] k assms(3) wf b
        by (simp add: setNextHop_def best_entry_def)
      moreover have "router_wf ?s2" using wf1 by (simp add: router_wf_def)
      moreover then have "recomputed s {d} ?s2"
        using assms wf b False NH by (auto simp: recomputed_def same_links_def nth_list_update)
      ultimately show ?thesis
        using False NH own m g st b by (intro exI [of _ ?s2]) auto
    qed
  qed
qed

lemma recompute_loop_spec:
  assumes "router_wf s" "costs_bounded s" "distinct ds" "\<forall>d \<in> set ds. d < nR s"
  shows "\<exists>s'. recompute_loop ds s ch =
      ret (ch \<or> (\<exists>d \<in> set ds. d \<noteq> own s \<and> snd (best s d) \<noteq> dv s (own s) d), s') \<and>
      recomputed s (set ds) s'"
  using assms
proof (induction ds arbitrary: s ch)
  case Nil
  then show ?case by (simp add: recomputed_refl)
next
  case (Cons d ds)
  show ?case
  proof (cases "d = own s")
    case True
    then have o: "recompute_loop (d # ds) s ch = recompute_loop ds s ch"
      using router_wfD(1) [OF Cons.prems(1)] by simp
    from Cons.IH [of s ch] Cons.prems obtain s' where
      "recompute_loop ds s ch = ret (ch \<or> (\<exists>d \<in> set ds. d \<noteq> own s \<and> snd (best s d) \<noteq> dv s (own s) d), s')"
      "recomputed s (set ds) s'" by auto
    with o True show ?thesis by (auto simp: recomputed_def)
  next
    case False
    with recompute_step [of s d ds ch] min_DV_best [of s d] Cons.prems obtain s1 where
      s1: "recompute_loop (d # ds) s ch = recompute_loop ds s1 (ch \<or> snd (best s d) \<noteq> dv s (own s) d)"
      "recomputed s {d} s1" by auto
    then have l: "same_links s s1" and wf: "router_wf s1" by (auto simp: recomputed_def)
    then have e: "own s1 = own s" "nR s1 = nR s" by (auto simp: same_links_def)
    have bd: "costs_bounded s1" using costs_bounded_same_links [OF l] Cons.prems(2) .
    from Cons.IH [of s1 "ch \<or> snd (best s d) \<noteq> dv s (own s) d"] Cons.prems wf bd e obtain s2 where
      s2: "recompute_loop ds s1 (ch \<or> snd (best s d) \<noteq> dv s (own s) d) =
        ret ((ch \<or> snd (best s d) \<noteq> dv s (own s) d) \<or>
          (\<exists>d \<in> set ds. d \<noteq> own s1 \<and> snd (best s1 d) \<noteq> dv s1 (own s1) d), s2)"
      "recomputed s1 (set ds) s2" by auto
    have "recomputed s ({d} \<union> set ds) s2"
      by (rule recomputed_trans [OF s1(2) s2(2)]) (use Cons.prems(3) in auto)
    moreover have "dv s1 (own s) x = dv s (own s) x" if "x \<in> set ds" for x
      using s1(2) that Cons.prems(3,4) by (auto simp: recomputed_def)
    ultimately show ?thesis
      using s1(1) s2(1) False e best_same_links [OF l] by auto
  qed
qed

text \<open>The whole recomputation: the router's row becomes the Bellman-Ford row, everything else
  of the distance table stays, and the result says whether the row changed.\<close>

lemma recompute_spec:
  assumes "router_wf s" "costs_bounded s"
  obtains s' where
    "recompute s = ret (\<exists>d < nR s. d \<noteq> own s \<and> snd (best s d) \<noteq> dv s (own s) d, s')"
    "recomputed s {0..<nR s} s'"
  using recompute_loop_spec [OF assms, of "[0..<nR s]" False]
  by (auto simp: recompute_def Bex_def)

lemma recompute_loop_ret:
  assumes "router_wf s" "distinct ds" "\<forall>d \<in> set ds. d < nR s"
    and "recompute_loop ds s ch = ret (ch', s')"
  shows "ch' = (ch \<or> (\<exists>d \<in> set ds. d \<noteq> own s \<and> snd (best s d) \<noteq> dv s (own s) d)) \<and>
         recomputed s (set ds) s'"
  using assms
proof (induction ds arbitrary: s ch)
  case Nil
  then show ?case by (simp add: recomputed_refl)
next
  case (Cons d ds)
  show ?case
  proof (cases "d = own s")
    case True
    then have "recompute_loop ds s ch = ret (ch', s')"
      using router_wfD(1) [OF Cons.prems(1)] Cons.prems(4) by simp
    with Cons.IH [of s ch] Cons.prems True show ?thesis by (auto simp: recomputed_def)
  next
    case False
    then have "int d \<noteq> ownIndex s" using Cons.prems(1) by (auto simp: router_wf_def)
    with Cons.prems(4) obtain r where "min_DV s (int d) = ret r" by auto
    then have "min_DV s (int d) = ret (best s d)"
      using min_DV_ret [of s d r] Cons.prems(1,3) by simp
    with False recompute_step [of s d ds ch] Cons.prems obtain s1 where
      s1: "recompute_loop (d # ds) s ch = recompute_loop ds s1 (ch \<or> snd (best s d) \<noteq> dv s (own s) d)"
      "recomputed s {d} s1" by auto
    then have l: "same_links s s1" and wf: "router_wf s1" by (auto simp: recomputed_def)
    then have e: "own s1 = own s" "nR s1 = nR s" by (auto simp: same_links_def)
    have s2: "ch' = ((ch \<or> snd (best s d) \<noteq> dv s (own s) d) \<or>
          (\<exists>d \<in> set ds. d \<noteq> own s1 \<and> snd (best s1 d) \<noteq> dv s1 (own s1) d)) \<and>
      recomputed s1 (set ds) s'"
      using Cons.prems wf e s1(1) by (intro Cons.IH) auto
    have "recomputed s ({d} \<union> set ds) s'"
      by (rule recomputed_trans [OF s1(2)]) (use Cons.prems(2) s2 in auto)
    moreover have "dv s1 (own s) x = dv s (own s) x" if "x \<in> set ds" for x
      using s1(2) that Cons.prems(2,3) by (auto simp: recomputed_def)
    ultimately show ?thesis
      using s2 False e best_same_links [OF l] by auto
  qed
qed

lemma recompute_ret:
  assumes "router_wf s" "recompute s = ret (ch, s')"
  shows "ch = (\<exists>d < nR s. d \<noteq> own s \<and> snd (best s d) \<noteq> dv s (own s) d)"
    and "recomputed s {0..<nR s} s'"
  using recompute_loop_ret [OF assms(1), of "[0..<nR s]" False ch s'] assms(2)
  by (auto simp: recompute_def Bex_def)

text \<open>When no cost changes, nothing of the state does.\<close>

lemma recomputed_unchanged:
  assumes "router_wf s" "recomputed s {0..<nR s} s'"
    and "\<not> (\<exists>d < nR s. d \<noteq> own s \<and> snd (best s d) \<noteq> dv s (own s) d)"
  shows "s' = s"
proof -
  have l: "same_links s s'" and wf': "router_wf s'" using assms(2) by (auto simp: recomputed_def)
  have n: "nR s' = nR s" using same_linksD [OF l] by simp
  note wf = router_wfD [OF assms(1)] and wf' = router_wfD [OF wf']
  have row: "DVTable s' ! k = DVTable s ! k" if "k < nR s" for k
  proof (cases "k = own s")
    case True
    have "dv s' (own s) d = dv s (own s) d" if "d < nR s" for d
    proof -
      have "dv s' (own s) d = (if d \<in> {0..<nR s} \<and> d \<noteq> own s then snd (best s d) else dv s (own s) d)"
        using assms(2) that unfolding recomputed_def by blast
      with assms(3) that show ?thesis by (auto split: if_splits)
    qed
    with True that n wf(9) wf'(9) show ?thesis by (intro nth_equalityI) auto
  qed (use same_linksD(7) [OF l that] in simp)
  have e: "rt_available s' ! d = rt_available s ! d" "routing_table s' ! d = routing_table s ! d"
    if "d < nR s" for d
  proof -
    have "\<not> (d \<in> {0..<nR s} \<and> d \<noteq> own s \<and> snd (best s d) \<noteq> dv s (own s) d \<and> fst (best s d) \<noteq> -1)"
      using assms(3) that by blast
    moreover have "if d \<in> {0..<nR s} \<and> d \<noteq> own s \<and> snd (best s d) \<noteq> dv s (own s) d \<and> fst (best s d) \<noteq> -1
        then rt_available s' ! d = 1 \<and> routing_table s' ! d = Some (best_entry s d)
        else rt_available s' ! d = rt_available s ! d \<and> routing_table s' ! d = routing_table s ! d"
      using assms(2) that unfolding recomputed_def by blast
    ultimately show "rt_available s' ! d = rt_available s ! d" "routing_table s' ! d = routing_table s ! d"
      by (simp_all only: if_False)
  qed
  have "DVTable s' = DVTable s"
    by (rule nth_equalityI) (use row n wf(6) wf'(6) in auto)
  moreover have "rt_available s' = rt_available s"
    by (rule nth_equalityI) (use e(1) n wf(7) wf'(7) in auto)
  moreover have "routing_table s' = routing_table s"
    by (rule nth_equalityI) (use e(2) n wf(8) wf'(8) in auto)
  ultimately show ?thesis using same_linksD [OF l] by simp
qed

end
