(* ===== verification/Streams.thy ===== *)
theory Streams
  imports Prelude
begin

text \<open>
  TCP sockets as the programs see them, and the two loops every one of them uses to move a
  block of bytes: receive until \<open>size\<close> bytes have come, send until \<open>size\<close> bytes have gone.
  The kernel decides how many bytes one call moves; a socket carries that schedule. The loops
  are written over any \<open>recv\<close> and \<open>send\<close>; the locales state what the loops need of them and
  the interpretations discharge it for the sockets of the model.
\<close>

section \<open>Sockets\<close>

text \<open>
  The incoming side is the list of segments the kernel will hand out: data, or an error of
  \<open>recv\<close>. After the last segment the peer has closed and \<open>recv\<close> returns 0. The outgoing side
  is the schedule of \<open>send\<close> (\<open>TxAccept k\<close> takes at most \<open>k + 1\<close> bytes, \<open>TxError e\<close> returns \<open>-1\<close>
  with \<open>errno = e\<close>; past the schedule everything is taken at once) and the bytes sent so far.
\<close>

datatype rx = RxData "byte list" | RxError
datatype tx = TxAccept nat | TxError int

record conn =
  rxq :: "rx list"
  txq :: "tx list"
  sent :: "byte list"

definition conn_recv :: "nat \<Rightarrow> conn \<Rightarrow> int \<times> byte list \<times> conn" where
  "conn_recv n c =
     (case rxq c of
        [] \<Rightarrow> (0, [], c)
      | RxError # q \<Rightarrow> (-1, [], c\<lparr>rxq := q\<rparr>)
      | RxData bs # q \<Rightarrow>
          (if length bs \<le> n then (int (length bs), bs, c\<lparr>rxq := q\<rparr>)
           else (int n, take n bs, c\<lparr>rxq := RxData (drop n bs) # q\<rparr>)))"

text \<open>The value of \<open>errno\<close> after a failed \<open>send\<close> is the fourth component.\<close>

definition conn_send :: "byte list \<Rightarrow> conn \<Rightarrow> int \<times> conn \<times> int" where
  "conn_send bs c =
     (case txq c of
        [] \<Rightarrow> (int (length bs), c\<lparr>sent := sent c @ bs\<rparr>, 0)
      | TxError e # q \<Rightarrow> (-1, c\<lparr>txq := q\<rparr>, e)
      | TxAccept k # q \<Rightarrow>
          (let n = min (Suc k) (length bs)
           in (int n, c\<lparr>txq := q, sent := sent c @ take n bs\<rparr>, 0)))"

text \<open>The bytes still to come before the peer closes or \<open>recv\<close> fails; a healthy socket hands
  out non-empty segments and no error; a willing one never fails to send.\<close>

fun rx_bytes :: "rx list \<Rightarrow> byte list" where
  "rx_bytes [] = []"
| "rx_bytes (RxError # q) = []"
| "rx_bytes (RxData bs # q) = bs @ rx_bytes q"

definition pending :: "conn \<Rightarrow> byte list" where
  "pending c = rx_bytes (rxq c)"

definition healthy :: "conn \<Rightarrow> bool" where
  "healthy c \<longleftrightarrow> list_all (\<lambda>r. case r of RxData bs \<Rightarrow> bs \<noteq> [] | RxError \<Rightarrow> False) (rxq c)"

definition willing :: "conn \<Rightarrow> bool" where
  "willing c \<longleftrightarrow> list_all (\<lambda>t. case t of TxAccept k \<Rightarrow> True | TxError e \<Rightarrow> False) (txq c)"

section \<open>The receive loop\<close>

text \<open>
  \<^verbatim>\<open>while(recvlength<size){ if((len=recv(fd,buf+recvlength,size-recvlength,0))<0) exit(0);
     recvlength+=len; }\<close>
  The loop returns the total, the length of the last segment, the buffer and the socket. When
  the peer has closed, \<open>recv\<close> returns 0 for ever and the loop does not return.
\<close>

partial_function (option) recv_loop ::
  "(nat \<Rightarrow> 's \<Rightarrow> int \<times> byte list \<times> 's) \<Rightarrow> int \<Rightarrow> nat \<Rightarrow> int \<Rightarrow> byte list \<Rightarrow> 's
     \<Rightarrow> (nat \<times> int \<times> byte list \<times> 's) run" where
  "recv_loop recv sz got lst buf s =
     (if int got < sz then
        (case recv (nat sz - got) s of (len, bs, s') \<Rightarrow>
           if len < 0 then halt (Exit 0)
           else (case blit buf got bs of
                   None \<Rightarrow> None
                 | Some r \<Rightarrow> (case r of
                      Inl f \<Rightarrow> halt f
                    | Inr buf' \<Rightarrow> recv_loop recv sz (got + length bs) len buf' s')))
      else ret (got, lst, buf, s))"

text \<open>What the loop relies on: a healthy stream hands out a non-empty part of what is
  pending, in order, never more than was asked for.\<close>

locale recv_stream =
  fixes recv :: "nat \<Rightarrow> 's \<Rightarrow> int \<times> byte list \<times> 's"
    and pend :: "'s \<Rightarrow> byte list"
    and ok :: "'s \<Rightarrow> bool"
  assumes recv_some: "ok s \<Longrightarrow> 0 < n \<Longrightarrow> pend s \<noteq> [] \<Longrightarrow>
      \<exists>bs s'. recv n s = (int (length bs), bs, s') \<and> bs \<noteq> [] \<and> length bs \<le> n \<and>
              pend s = bs @ pend s' \<and> ok s'"
begin

lemma recv_loop_total:
  assumes "ok s" and "sz \<le> got + length (pend s)" and "got \<le> sz" and "sz \<le> length buf"
  shows "\<exists>l s'. recv_loop recv (int sz) got lst buf s =
            ret (sz, l, take got buf @ take (sz - got) (pend s) @ drop sz buf, s')
          \<and> pend s' = drop (sz - got) (pend s) \<and> ok s'"
  using assms
proof (induction "sz - got" arbitrary: got lst buf s rule: less_induct)
  case less
  show ?case
  proof (cases "got < sz")
    case False
    with less.prems show ?thesis by (simp add: recv_loop.simps)
  next
    case True
    with less.prems have "pend s \<noteq> []" by auto
    with True less.prems(1) obtain bs s' where r: "recv (sz - got) s = (int (length bs), bs, s')"
      and bs: "bs \<noteq> []" "length bs \<le> sz - got" and p: "pend s = bs @ pend s'" and ok: "ok s'"
      using recv_some [of s "sz - got"] by auto
    let ?b = "take got buf @ bs @ drop (got + length bs) buf"
    have b: "blit buf got bs = ret ?b"
      using True bs less.prems by (simp add: blit_def)
    have "sz - (got + length bs) < sz - got"
      using True bs by (simp add: diff_less_mono2)
    moreover have "sz \<le> got + length bs + length (pend s')"
      using less.prems p by simp
    moreover have "got + length bs \<le> sz" and "sz \<le> length ?b"
      using True bs less.prems by auto
    ultimately obtain l t where
      rec: "recv_loop recv (int sz) (got + length bs) (int (length bs)) ?b s' =
        ret (sz, l, take (got + length bs) ?b @ take (sz - (got + length bs)) (pend s')
               @ drop sz ?b, t)"
      and t: "pend t = drop (sz - (got + length bs)) (pend s')" "ok t"
      using less.hyps [of "got + length bs" s' ?b "int (length bs)"] ok by blast
    have "recv_loop recv (int sz) got lst buf s
            = recv_loop recv (int sz) (got + length bs) (int (length bs)) ?b s'"
      by (subst recv_loop.simps) (simp add: True r b)
    with rec t bs True less.prems(3,4) show ?thesis
      by (auto simp: p)
  qed
qed

lemma recv_loop_overrun:
  assumes "ok s" and "length buf < got + length (pend s)" and "got \<le> length buf"
    and "length buf < sz"
  shows "recv_loop recv (int sz) got lst buf s = halt OutOfBounds"
  using assms
proof (induction "sz - got" arbitrary: got lst buf s rule: less_induct)
  case less
  then have "pend s \<noteq> []" and got: "got < sz" by auto
  then obtain bs s' where r: "recv (sz - got) s = (int (length bs), bs, s')"
    and bs: "bs \<noteq> []" "length bs \<le> sz - got" and p: "pend s = bs @ pend s'" and ok: "ok s'"
    using recv_some [of s "sz - got"] less.prems(1) by auto
  show ?case
  proof (cases "got + length bs \<le> length buf")
    case False
    then show ?thesis
      by (subst recv_loop.simps) (simp add: got r blit_def)
  next
    case True
    let ?b = "take got buf @ bs @ drop (got + length bs) buf"
    have "recv_loop recv (int sz) (got + length bs) (int (length bs)) ?b s' = halt OutOfBounds"
      using less.prems True p ok bs got
      by (intro less.hyps) (auto simp: diff_less_mono2)
    moreover have "blit buf got bs = ret ?b"
      using True by (simp add: blit_def)
    ultimately show ?thesis
      by (subst recv_loop.simps) (simp add: got r)
  qed
qed

text \<open>When the whole block comes in one segment the loop runs once, and the length of the last
  segment is the total.\<close>

lemma recv_loop_one_segment:
  assumes "0 < sz" "sz \<le> length buf" and "recv sz s = (int sz, bs, s')" and "length bs = sz"
  shows "recv_loop recv (int sz) 0 lst buf s = ret (sz, int sz, bs @ drop sz buf, s')"
  using assms by (subst recv_loop.simps) (simp add: blit_def recv_loop.simps)

end

text \<open>A whole transport also says what happens when nothing is pending: the peer has closed, and
  \<open>recv\<close> returns 0.\<close>

locale recv_transport = recv_stream +
  assumes recv_eof: "ok s \<Longrightarrow> pend s = [] \<Longrightarrow> recv n s = (0, [], s)"
begin

lemma recv_loop_eof:
  assumes "ok s" and "length (pend s) < sz - got" and "sz \<le> length buf"
  shows "recv_loop recv (int sz) got lst buf s = None"
proof (rule ccontr)
  assume "\<not> ?thesis"
  then obtain r where r: "recv_loop recv (int sz) got lst buf s = Some r" by auto
  have "\<not> (ok s \<and> length (pend s) < sz - got \<and> sz \<le> length buf)"
  proof (rule recv_loop.raw_induct [where P = "\<lambda>rv n got lst buf s r. rv = recv \<longrightarrow> n = int sz \<longrightarrow>
        \<not> (ok s \<and> length (pend s) < sz - got \<and> sz \<le> length buf)", OF _ r, rule_format])
    fix f rv n got lst buf s r
    assume IH: "\<And>rv n got lst buf s r. f rv n got lst buf s = Some r \<Longrightarrow> rv = recv \<Longrightarrow> n = int sz \<Longrightarrow>
        \<not> (ok s \<and> length (pend s) < sz - got \<and> sz \<le> length buf)"
      and eq: "(if int got < n then
        (case rv (nat n - got) s of (len, bs, s') \<Rightarrow>
           if len < 0 then halt (Exit 0)
           else (case blit buf got bs of
                   None \<Rightarrow> None
                 | Some r \<Rightarrow> (case r of
                      Inl f \<Rightarrow> halt f
                    | Inr buf' \<Rightarrow> f rv n (got + length bs) len buf' s')))
      else ret (got, lst, buf, s)) = Some r"
      and rv: "rv = recv" "n = int sz"
    show "\<not> (ok s \<and> length (pend s) < sz - got \<and> sz \<le> length buf)"
    proof
      assume a: "ok s \<and> length (pend s) < sz - got \<and> sz \<le> length buf"
      show False
      proof (cases "pend s = []")
        case True
        with a eq rv IH [of recv "int sz" got 0 buf s] show False
          by (simp add: recv_eof blit_def)
      next
        case False
        from a have "got < sz" by linarith
        with False obtain bs s' where x: "recv (sz - got) s = (int (length bs), bs, s')"
          "length bs \<le> sz - got" "pend s = bs @ pend s'" "ok s'"
          using recv_some [of s "sz - got"] a by auto
        have sz: "got + length bs \<le> sz" "sz \<le> length buf"
          using x(2) a \<open>got < sz\<close> by auto
        let ?b = "take got buf @ bs @ drop (got + length bs) buf"
        have "blit buf got bs = ret ?b" using sz by (simp add: blit_def)
        with eq rv x(1) \<open>got < sz\<close>
        have "f recv (int sz) (got + length bs) (int (length bs)) ?b s' = Some r" by simp
        from IH [OF this refl refl] have "\<not> (length (pend s') < sz - (got + length bs))"
          using sz x(4) by simp
        moreover have "length bs + length (pend s') < sz - got" using a x(3) by simp
        ultimately show False by linarith
      qed
    qed
  qed simp_all
  with assms show False by simp
qed

end

lemma conn_recv_some:
  assumes "healthy c" "0 < n" "pending c \<noteq> []"
  shows "\<exists>bs c'. conn_recv n c = (int (length bs), bs, c') \<and> bs \<noteq> [] \<and> length bs \<le> n \<and>
              pending c = bs @ pending c' \<and> healthy c'"
  using assms
  by (cases "rxq c") (auto simp: conn_recv_def healthy_def pending_def split: rx.splits)

lemma conn_recv_eof: "healthy c \<Longrightarrow> pending c = [] \<Longrightarrow> conn_recv n c = (0, [], c)"
  by (cases "rxq c") (auto simp: conn_recv_def healthy_def pending_def split: rx.splits)

interpretation tcp_in: recv_transport conn_recv pending healthy
  by unfold_locales (use conn_recv_some conn_recv_eof in blast)+

text \<open>Receiving leaves the outgoing side alone.\<close>

lemma conn_recv_frame: "conn_recv n c = (l, bs, c') \<Longrightarrow> txq c' = txq c \<and> sent c' = sent c"
  by (auto simp: conn_recv_def split: list.splits rx.splits if_splits)

definition receiving :: "tx list \<Rightarrow> byte list \<Rightarrow> conn \<Rightarrow> bool" where
  "receiving t b c \<longleftrightarrow> healthy c \<and> txq c = t \<and> sent c = b"

interpretation tcp_frame: recv_transport conn_recv pending "receiving t b" for t b
proof unfold_locales
  fix c and n :: nat assume "receiving t b c" "0 < n" "pending c \<noteq> []"
  with conn_recv_some [of c n] conn_recv_frame show "\<exists>bs s'. conn_recv n c = (int (length bs), bs, s') \<and>
      bs \<noteq> [] \<and> length bs \<le> n \<and> pending c = bs @ pending s' \<and> receiving t b s'"
    unfolding receiving_def by blast
qed (simp add: receiving_def conn_recv_eof)

text \<open>Two messages in a row: the bytes before the segments \<open>q\<close>, as long as none of \<open>q\<close> is
  touched. A loop that asks for exactly these bytes leaves \<open>q\<close> as it is.\<close>

definition data_segs :: "rx list \<Rightarrow> bool" where
  "data_segs q = list_all (\<lambda>r. case r of RxData bs \<Rightarrow> bs \<noteq> [] | RxError \<Rightarrow> False) q"

definition before :: "rx list \<Rightarrow> tx list \<Rightarrow> byte list \<Rightarrow> conn \<Rightarrow> bool" where
  "before q t b c \<longleftrightarrow> (\<exists>p. rxq c = p @ q \<and> data_segs p) \<and> txq c = t \<and> sent c = b"

definition pending_before :: "rx list \<Rightarrow> conn \<Rightarrow> byte list" where
  "pending_before q c = rx_bytes (take (length (rxq c) - length q) (rxq c))"

lemma data_segs_simps [simp]:
  "data_segs []" "data_segs (RxData bs # q) \<longleftrightarrow> bs \<noteq> [] \<and> data_segs q" "\<not> data_segs (RxError # q)"
  "data_segs (p @ q) \<longleftrightarrow> data_segs p \<and> data_segs q"
  by (simp_all add: data_segs_def)

lemma data_segs_empty: "data_segs p \<Longrightarrow> rx_bytes p = [] \<Longrightarrow> p = []"
  by (cases p rule: rx_bytes.cases) simp_all

lemma conn_recv_before:
  assumes "before q t b c" "0 < n" "pending_before q c \<noteq> []"
  shows "\<exists>bs c'. conn_recv n c = (int (length bs), bs, c') \<and> bs \<noteq> [] \<and> length bs \<le> n \<and>
      pending_before q c = bs @ pending_before q c' \<and> before q t b c'"
proof -
  from assms(1) obtain p where p: "rxq c = p @ q" "data_segs p" "txq c = t" "sent c = b"
    by (auto simp: before_def)
  with assms(3) have "rx_bytes p \<noteq> []" by (simp add: pending_before_def)
  with p(2) obtain x p' where x: "p = RxData x # p'" "x \<noteq> []" "data_segs p'"
    by (cases p rule: rx_bytes.cases) auto
  show ?thesis
  proof (cases "length x \<le> n")
    case True
    with p x show ?thesis
      by (intro exI [of _ x] exI [of _ "c\<lparr>rxq := p' @ q\<rparr>"]) (auto simp: conn_recv_def before_def pending_before_def)
  next
    case False
    with p x assms(2) show ?thesis
      by (intro exI [of _ "take n x"] exI [of _ "c\<lparr>rxq := RxData (drop n x) # p' @ q\<rparr>"])
        (auto simp: conn_recv_def before_def pending_before_def intro!: exI [of _ "RxData (drop n x) # p'"])
  qed
qed

interpretation tcp_part: recv_stream conn_recv "pending_before q" "before q t b" for q t b
  by unfold_locales (rule conn_recv_before)

lemma before_done:
  assumes "before q t b c" "pending_before q c = []"
  shows "rxq c = q" "txq c = t" "sent c = b"
  using assms data_segs_empty by (auto simp: before_def pending_before_def)

text \<open>Segment by segment: the last length is that of the last segment.\<close>

fun last_seg :: "int \<Rightarrow> rx list \<Rightarrow> int" where
  "last_seg l [] = l"
| "last_seg l (RxData bs # q) = last_seg (int (length bs)) q"
| "last_seg l (RxError # q) = last_seg (-1) q"

lemma recv_loop_segments:
  assumes "data_segs p" "rxq c = p @ q" "got + length (rx_bytes p) \<le> length buf"
  shows "recv_loop conn_recv (int (got + length (rx_bytes p))) got lst buf c =
    ret (got + length (rx_bytes p), last_seg lst p,
      take got buf @ rx_bytes p @ drop (got + length (rx_bytes p)) buf, c\<lparr>rxq := q\<rparr>)"
  using assms
proof (induction p arbitrary: got lst buf c)
  case Nil
  then have "c\<lparr>rxq := q\<rparr> = c" by simp
  with Nil show ?case by (simp add: recv_loop.simps)
next
  case (Cons r p)
  from Cons.prems(1) obtain bs where r: "r = RxData bs" "bs \<noteq> []" "data_segs p" by (cases r) auto
  let ?b = "take got buf @ bs @ drop (got + length bs) buf" and ?c = "c\<lparr>rxq := p @ q\<rparr>"
  have s: "conn_recv (nat (int (got + length (rx_bytes (r # p)))) - got) c = (int (length bs), bs, ?c)"
  proof -
    have "nat (int (got + length (rx_bytes (r # p)))) - got = length bs + length (rx_bytes p)"
      unfolding nat_int by (simp add: r(1))
    then show ?thesis using Cons.prems(2) r(1) by (simp only:) (simp add: conn_recv_def)
  qed
  have b: "blit buf got bs = ret ?b" using Cons.prems(3) r(1) by (simp add: blit_def)
  have "got < got + length (rx_bytes (r # p))" using r(2) by (simp add: r(1))
  then have lt: "int got < int (got + length (rx_bytes (r # p)))" by (simp only: of_nat_less_iff)
  have len: "got + length bs + length (rx_bytes p) \<le> length ?b" using Cons.prems(3) r(1) by simp
  have "recv_loop conn_recv (int (got + length (rx_bytes (r # p)))) got lst buf c =
      recv_loop conn_recv (int (got + length bs + length (rx_bytes p))) (got + length bs) (int (length bs)) ?b ?c"
    by (subst recv_loop.simps) (simp only: lt if_True s prod.case b option.case sum.case, simp add: r(1) add.assoc)
  also have "\<dots> = ret (got + length bs + length (rx_bytes p), last_seg (int (length bs)) p,
      take (got + length bs) ?b @ rx_bytes p @ drop (got + length bs + length (rx_bytes p)) ?b, ?c\<lparr>rxq := q\<rparr>)"
    by (rule Cons.IH [OF r(3) _ len]) simp
  also have "take (got + length bs) ?b = take got buf @ bs" using Cons.prems(3) r(1) by simp
  also have "drop (got + length bs + length (rx_bytes p)) ?b = drop (got + length bs + length (rx_bytes p)) buf"
    using Cons.prems(3) r(1) by (simp add: add.commute add.left_commute)
  finally show ?case by (simp add: r(1) add.assoc)
qed

section \<open>The send loop\<close>

text \<open>
  \<^verbatim>\<open>while(sentlength<size){ if((len=send(fd,buf+sentlength,size-sentlength,0))<0) exit(0);
     sentlength += len; }\<close>
  The loop returns the total and the length of the last piece.
\<close>

partial_function (option) send_loop ::
  "(byte list \<Rightarrow> 's \<Rightarrow> int \<times> 's \<times> int) \<Rightarrow> int \<Rightarrow> nat \<Rightarrow> int \<Rightarrow> byte list \<Rightarrow> 's
     \<Rightarrow> (nat \<times> int \<times> 's) run" where
  "send_loop send sz gone lst buf s =
     (if int gone < sz then
        (case slice buf gone (nat sz - gone) of
           None \<Rightarrow> None
         | Some r \<Rightarrow> (case r of
             Inl f \<Rightarrow> halt f
           | Inr bs \<Rightarrow> (case send bs s of (len, s', e) \<Rightarrow>
               if len < 0 then halt (Exit 0)
               else send_loop send sz (gone + nat len) len buf s')))
      else ret (gone, lst, s))"

locale send_transport =
  fixes send :: "byte list \<Rightarrow> 's \<Rightarrow> int \<times> 's \<times> int"
    and out :: "'s \<Rightarrow> byte list"
    and can :: "'s \<Rightarrow> bool"
  assumes send_some: "can s \<Longrightarrow> bs \<noteq> [] \<Longrightarrow>
      \<exists>k s' e. send bs s = (int k, s', e) \<and> 0 < k \<and> k \<le> length bs \<and>
              out s' = out s @ take k bs \<and> can s'"
begin

lemma send_loop_total:
  assumes "can s" and "gone \<le> sz" and "sz \<le> length buf"
  shows "\<exists>l s'. send_loop send (int sz) gone lst buf s = ret (sz, l, s')
          \<and> out s' = out s @ take (sz - gone) (drop gone buf) \<and> can s'"
  using assms
proof (induction "sz - gone" arbitrary: gone lst s rule: less_induct)
  case less
  show ?case
  proof (cases "gone < sz")
    case False
    with less.prems show ?thesis by (simp add: send_loop.simps)
  next
    case True
    let ?bs = "take (sz - gone) (drop gone buf)"
    have sl: "slice buf gone (sz - gone) = ret ?bs"
      using True less.prems by (simp add: slice_def)
    have ne: "?bs \<noteq> []" "length ?bs = sz - gone"
      using True less.prems by auto
    from send_some [OF less.prems(1) ne(1)] ne(2)
    obtain k s' e where k: "send ?bs s = (int k, s', e)" "0 < k" "k \<le> sz - gone"
      "out s' = out s @ take k ?bs" "can s'"
      by auto
    with True have "sz - (gone + k) < sz - gone" and "gone + k \<le> sz" by auto
    from less.hyps [OF this(1) k(5) this(2) less.prems(3)] obtain l t where
      t: "send_loop send (int sz) (gone + k) (int k) buf s' = ret (sz, l, t)"
         "out t = out s' @ take (sz - (gone + k)) (drop (gone + k) buf)" "can t"
      by blast
    have "send_loop send (int sz) gone lst buf s = ret (sz, l, t)"
      using True sl k(1) t(1) by (subst send_loop.simps) simp
    moreover have "out t = out s @ ?bs"
    proof -
      have "take k ?bs = take k (drop gone buf)"
        using k(3) by (simp add: min_absorb1)
      moreover have "take (sz - (gone + k)) (drop (gone + k) buf)
          = take (sz - gone - k) (drop k (drop gone buf))"
        by (simp add: add.commute)
      ultimately show ?thesis
        by (simp only: t(2) k(4) append_assoc take_split [OF k(3), of "drop gone buf"])
    qed
    ultimately show ?thesis using t(3) by blast
  qed
qed

end

lemma conn_send_some:
  assumes "willing c" "bs \<noteq> []"
  shows "\<exists>k c' e. conn_send bs c = (int k, c', e) \<and> 0 < k \<and> k \<le> length bs \<and>
            sent c' = sent c @ take k bs \<and> willing c'"
proof (cases "txq c")
  case Nil
  with assms have "conn_send bs c = (int (length bs), c\<lparr>sent := sent c @ bs\<rparr>, 0)"
    by (simp add: conn_send_def)
  then show ?thesis
    using assms by (intro exI [of _ "length bs"]) (auto simp: willing_def)
next
  case (Cons t q)
  with assms(1) obtain k where t: "t = TxAccept k"
    by (cases t) (auto simp: willing_def)
  let ?n = "min (Suc k) (length bs)"
  have "conn_send bs c = (int ?n, c\<lparr>txq := q, sent := sent c @ take ?n bs\<rparr>, 0)"
    using Cons t by (simp add: conn_send_def Let_def)
  moreover have "willing (c\<lparr>txq := q, sent := sent c @ take ?n bs\<rparr>)"
    using assms(1) Cons by (simp add: willing_def)
  ultimately show ?thesis
    using assms(2) by (intro exI [of _ ?n]) (auto simp: Suc_le_eq)
qed

interpretation tcp_out: send_transport conn_send sent willing
  by unfold_locales (use conn_send_some in blast)

end
