(* ===== verification/Wire.thy ===== *)
theory Wire
  imports Streams
begin

text \<open>
  Fixed-size message headers on a socket. Both protocols of the repository read a header into a
  packed C struct with one call of \<open>recv\<close> after zeroing it. The locale \<open>wire_codec\<close> states what
  makes an encoding of the struct usable on the wire; its lemmas say what one such read returns.
\<close>

section \<open>Reading a packed struct\<close>

text \<open>\<^verbatim>\<open>memset(msg,0,sizeof(*msg)); len = recv(sd,msg,sizeof(*msg),0)\<close>: the length returned, and
  the bytes of the struct afterwards.\<close>

definition recv_struct ::
  "(nat \<Rightarrow> 's \<Rightarrow> int \<times> byte list \<times> 's) \<Rightarrow> nat \<Rightarrow> 's \<Rightarrow> int \<times> byte list \<times> 's" where
  "recv_struct recv n s = (case recv n s of (len, bs, s') \<Rightarrow>
      (len, bs @ replicate (n - length bs) 0, s'))"

lemma recv_struct_conn_whole:
  assumes "rxq c = RxData (bs @ rest) # q" and "length bs = n"
  shows "recv_struct conn_recv n c =
    (int n, bs, c\<lparr>rxq := (if rest = [] then q else RxData rest # q)\<rparr>)"
  using assms by (simp add: recv_struct_def conn_recv_def)

lemma recv_struct_conn_split:
  assumes "rxq c = RxData bs # q" and "length bs < n"
  shows "recv_struct conn_recv n c =
    (int (length bs), bs @ replicate (n - length bs) 0, c\<lparr>rxq := q\<rparr>)"
  using assms by (simp add: recv_struct_def conn_recv_def)

lemma recv_struct_conn_eof:
  "rxq c = [] \<Longrightarrow> recv_struct conn_recv n c = (0, replicate n 0, c)"
  by (simp add: recv_struct_def conn_recv_def)

section \<open>Header encodings\<close>

locale wire_codec =
  fixes enc :: "'m \<Rightarrow> byte list"
    and dec :: "byte list \<Rightarrow> 'm"
    and sz :: nat
    and wf :: "'m \<Rightarrow> bool"
  assumes length_enc: "wf m \<Longrightarrow> length (enc m) = sz"
    and dec_enc: "wf m \<Longrightarrow> dec (enc m) = m"
begin

lemma recv_whole:
  assumes "wf m" and "rxq c = RxData (enc m @ rest) # q"
  shows "\<exists>bs c'. recv_struct conn_recv sz c = (int sz, bs, c') \<and> dec bs = m \<and>
           c' = c\<lparr>rxq := (if rest = [] then q else RxData rest # q)\<rparr>"
  using recv_struct_conn_whole [OF assms(2) length_enc [OF assms(1)]] dec_enc [OF assms(1)]
  by simp

lemma recv_split_short:
  assumes "wf m" and "rxq c = RxData (take k (enc m)) # q" and "k < sz"
  shows "\<exists>bs c'. recv_struct conn_recv sz c = (int k, bs, c') \<and> k < sz"
  using assms recv_struct_conn_split [of c "take k (enc m)" q sz] length_enc [OF assms(1)]
  by simp

lemma enc_inj: "wf m \<Longrightarrow> wf m' \<Longrightarrow> enc m = enc m' \<Longrightarrow> m = m'"
  by (metis dec_enc)

end

end
