(* ===== verification/RipMsg.thy ===== *)
theory RipMsg
  imports Wire
begin

text \<open>
  The message layer of the router (\<open>router/common.h\<close>): the packed \<open>message_s\<close>, its generation
  with the integer fields in network order, and the four functions that move messages and data
  over a socket. The router and its agent use the same header.
\<close>

section \<open>Message types and the packed header\<close>

definition DV :: byte where "DV = 0xA1"
definition UPDATE :: byte where "UPDATE = 0xA2"
definition SHOW :: byte where "SHOW = 0xA3"
definition RESET :: byte where "RESET = 0xA4"
definition RESPONSE :: byte where "RESPONSE = 0xA5"
definition DVMSG :: byte where "DVMSG = 0xA6"
definition CLOSE :: byte where "CLOSE = 0xA7"

lemmas rip_types = DV_def UPDATE_def SHOW_def RESET_def RESPONSE_def DVMSG_def CLOSE_def

definition rip_magicNum :: "byte list" where
  "rip_magicNum = [82, 73, 80]"

text \<open>The integer fields hold the 32-bit word that is in memory.\<close>

record message_s =
  protocol :: "byte list"
  mtype :: byte
  source :: "32 word"
  dest :: "32 word"
  weight :: "32 word"
  payload :: "32 word"

definition message_s_bytes :: "message_s \<Rightarrow> byte list" where
  "message_s_bytes m = protocol m @ [mtype m] @ le32 (source m) @ le32 (dest m) @
     le32 (weight m) @ le32 (payload m)"

definition message_s_of_bytes :: "byte list \<Rightarrow> message_s" where
  "message_s_of_bytes bs = \<lparr>protocol = take 3 bs, mtype = bs ! 3,
     source = of_le32 (take 4 (drop 4 bs)), dest = of_le32 (take 4 (drop 8 bs)),
     weight = of_le32 (take 4 (drop 12 bs)), payload = of_le32 (take 4 (drop 16 bs))\<rparr>"

definition message_s_wf :: "message_s \<Rightarrow> bool" where
  "message_s_wf m \<longleftrightarrow> length (protocol m) = 3"

lemma length_message_s_bytes [wire_simps]: "message_s_wf m \<Longrightarrow> length (message_s_bytes m) = 20"
  by (simp add: message_s_bytes_def message_s_wf_def)

lemma message_s_of_bytes_inverse [wire_simps]:
  "message_s_wf m \<Longrightarrow> message_s_of_bytes (message_s_bytes m) = m"
  by (simp add: message_s_bytes_def message_s_of_bytes_def message_s_wf_def nth_append)

interpretation rip_codec: wire_codec message_s_bytes message_s_of_bytes 20 message_s_wf
  by unfold_locales (simp_all add: wire_simps)

section \<open>Generating, sending and receiving messages\<close>

definition rip_msgGeneration :: "byte \<Rightarrow> int \<Rightarrow> int \<Rightarrow> int \<Rightarrow> int \<Rightarrow> message_s" where
  "rip_msgGeneration type src dst wgt size_payload =
     \<lparr>protocol = [82, 73, 80], mtype = type, source = htonl (word_of_int src),
      dest = htonl (word_of_int dst), weight = htonl (word_of_int wgt),
      payload = htonl (word_of_int size_payload)\<rparr>"

definition rip_msgReceiver :: "conn \<Rightarrow> (int \<times> message_s \<times> conn) run" where
  "rip_msgReceiver c = (case recv_struct conn_recv 20 c of (len, bs, c') \<Rightarrow>
     if len < 0 then halt (Exit 0)
     else (let m = message_s_of_bytes bs in
       ret (len, m\<lparr>source := ntohl (source m), dest := ntohl (dest m),
                   weight := ntohl (weight m), payload := ntohl (payload m)\<rparr>, c')))"

definition rip_msgSender :: "message_s \<Rightarrow> conn \<Rightarrow> (int \<times> conn) run" where
  "rip_msgSender m c = (case conn_send (message_s_bytes m) c of (len, c', e) \<Rightarrow>
     if len < 0 then halt (Exit 0) else ret (len, c'))"

text \<open>\<open>memset(buf,0,sizeof(buf))\<close> clears the eight bytes of a pointer, not the buffer.\<close>

definition rip_dataReceiver :: "int \<Rightarrow> byte list \<Rightarrow> conn \<Rightarrow> (nat \<times> byte list \<times> conn) run" where
  "rip_dataReceiver sz buf c =
     andthen (blit buf 0 (replicate 8 0)) (\<lambda>buf.
     andthen (recv_loop conn_recv sz 0 0 buf c) (\<lambda>(got, lst, buf, c). ret (got, buf, c)))"

definition rip_dataSender :: "int \<Rightarrow> byte list \<Rightarrow> conn \<Rightarrow> (nat \<times> conn) run" where
  "rip_dataSender sz buf c =
     andthen (send_loop conn_send sz 0 0 buf c) (\<lambda>(gone, lst, c). ret (gone, c))"

lemma rip_msgGeneration_wf [simp]: "message_s_wf (rip_msgGeneration t s d w p)"
  by (simp add: rip_msgGeneration_def message_s_wf_def)

lemma rip_msgGeneration_fields [simp]:
  "protocol (rip_msgGeneration t s d w p) = rip_magicNum"
  "mtype (rip_msgGeneration t s d w p) = t"
  by (simp_all add: rip_msgGeneration_def rip_magicNum_def)

text \<open>What a receiver holds after reading a generated message: the arguments themselves.\<close>

definition rip_host :: "byte \<Rightarrow> int \<Rightarrow> int \<Rightarrow> int \<Rightarrow> int \<Rightarrow> message_s" where
  "rip_host t s d w p = \<lparr>protocol = rip_magicNum, mtype = t, source = word_of_int s,
     dest = word_of_int d, weight = word_of_int w, payload = word_of_int p\<rparr>"

lemma rip_msgReceiver_generated:
  assumes "rxq c = RxData (message_s_bytes (rip_msgGeneration t s d w p) @ rest) # q"
  shows "rip_msgReceiver c = ret (20, rip_host t s d w p,
           c\<lparr>rxq := (if rest = [] then q else RxData rest # q)\<rparr>)"
proof -
  from rip_codec.recv_whole [OF rip_msgGeneration_wf assms]
  obtain bs where "recv_struct conn_recv 20 c = (20, bs, c\<lparr>rxq := (if rest = [] then q else RxData rest # q)\<rparr>)"
    and "message_s_of_bytes bs = rip_msgGeneration t s d w p"
    by auto
  then show ?thesis
    by (simp add: rip_msgReceiver_def rip_host_def rip_msgGeneration_def Let_def rip_magicNum_def)
qed

lemma rip_dataReceiver_total:
  assumes "healthy c" and "sz \<le> length (pending c)" and "sz \<le> length buf" and "8 \<le> length buf"
  shows "\<exists>c'. rip_dataReceiver (int sz) buf c =
            ret (sz, take sz (pending c) @ drop sz (replicate 8 0 @ drop 8 buf), c') \<and>
            pending c' = drop sz (pending c) \<and> healthy c'"
proof -
  let ?b = "replicate 8 0 @ drop 8 buf"
  have b: "blit buf 0 (replicate 8 0) = ret ?b" using assms(4) by (simp add: blit_def)
  have "sz \<le> length ?b" using assms(3,4) by simp
  with tcp_in.recv_loop_total [of c sz 0 ?b 0] assms(1,2) b show ?thesis
    by (auto simp: rip_dataReceiver_def)
qed

lemma rip_dataSender_total:
  assumes "willing c" and "sz \<le> length buf"
  shows "\<exists>c'. rip_dataSender (int sz) buf c = ret (sz, c') \<and>
            sent c' = sent c @ take sz buf \<and> willing c'"
  using tcp_out.send_loop_total [of c 0 sz buf 0] assms
  by (auto simp: rip_dataSender_def)

end
