(* ===== verification/CText.thy ===== *)
theory CText
  imports Prelude
begin

text \<open>
  C strings and the formatted text the programs read and write: \<open>sprintf("%d")\<close> and the
  \<open>fscanf\<close> conversions on the way back, \<open>strstr\<close>, \<open>strtok\<close> and the bytes of a string. A C string
  is modelled by the characters before its terminating NUL.
\<close>

section \<open>Bytes of a string\<close>

definition str_bytes :: "string \<Rightarrow> byte list" where
  "str_bytes s = map of_char s"

lemma length_str_bytes [simp]: "length (str_bytes s) = length s"
  by (simp add: str_bytes_def)

text \<open>The C string at the start of a buffer: the bytes before the first NUL.\<close>

definition cstr :: "byte list \<Rightarrow> byte list" where
  "cstr buf = takeWhile (\<lambda>b. b \<noteq> 0) buf"

lemma cstr_no_nul [simp]: "0 \<notin> set (cstr buf)"
  by (auto simp: cstr_def dest: set_takeWhileD)

lemma cstr_append_nul [simp]: "0 \<notin> set bs \<Longrightarrow> cstr (bs @ 0 # rest) = bs"
  unfolding cstr_def by (subst takeWhile_append2) auto

section \<open>Decimal integers\<close>

definition digit :: "nat \<Rightarrow> char" where
  "digit d = char_of (48 + d)"

fun show_nat :: "nat \<Rightarrow> string" where
  "show_nat n = (if n < 10 then [digit n] else show_nat (n div 10) @ [digit (n mod 10)])"

declare show_nat.simps [simp del]

definition show_int :: "int \<Rightarrow> string" where
  "show_int i = (if i < 0 then CHR ''-'' # show_nat (nat (- i)) else show_nat (nat i))"

definition digit_val :: "char \<Rightarrow> nat option" where
  "digit_val c = (let n = of_char c :: nat in if 48 \<le> n \<and> n \<le> 57 then Some (n - 48) else None)"

definition isspace :: "char \<Rightarrow> bool" where
  "isspace c \<longleftrightarrow> c \<in> {CHR '' '', CHR 0x09, CHR 0x0A, CHR 0x0B, CHR 0x0C, CHR 0x0D}"

text \<open>Reads the digits at the front of the input onto an accumulator.\<close>

fun scan_digits :: "nat \<Rightarrow> string \<Rightarrow> nat \<times> string" where
  "scan_digits acc [] = (acc, [])"
| "scan_digits acc (c # cs) =
     (case digit_val c of Some d \<Rightarrow> scan_digits (10 * acc + d) cs | None \<Rightarrow> (acc, c # cs))"

definition starts_digit :: "string \<Rightarrow> bool" where
  "starts_digit s = (case s of [] \<Rightarrow> False | c # cs \<Rightarrow> digit_val c \<noteq> None)"

text \<open>
  The C library converts the digits with \<open>strtol\<close>, whose \<open>long\<close> of 64 bits saturates, and keeps the low 32 bits of it as the \<open>int\<close>: a
  number that is no \<open>int\<close> becomes another one. (The C standard leaves this case open; this is what the library of the platform does,
  the GNU C library on a 64-bit machine.)
\<close>

definition long_to_int :: "int \<Rightarrow> int" where
  "long_to_int i =
     (let l = max (- 9223372036854775808) (min 9223372036854775807 i)
      in (l + 2147483648) mod 4294967296 - 2147483648)"

lemma long_to_int_in_range [simp]: "int_min \<le> i \<Longrightarrow> i \<le> int_max \<Longrightarrow> long_to_int i = i"
  by (simp add: long_to_int_def Let_def mod_pos_pos_trivial)

lemma long_to_int_range: "int_min \<le> long_to_int i" "long_to_int i \<le> int_max"
  using pos_mod_bound [of 4294967296 "max (- 9223372036854775808) (min 9223372036854775807 i) + 2147483648"]
  by (simp_all add: long_to_int_def Let_def)

text \<open>The low 32 bits of the \<open>long\<close>, read as an \<open>int\<close>.\<close>

lemma long_to_int_word:
  "- (2 ^ 63) \<le> i \<Longrightarrow> i < 2 ^ 63 \<Longrightarrow> long_to_int i = sint (word_of_int i :: 32 word)"
  by (simp add: long_to_int_def sint_sbintrunc' signed_take_bit_eq_take_bit_shift take_bit_eq_mod)

definition is_int :: "int \<Rightarrow> bool" where
  "is_int i \<longleftrightarrow> int_min \<le> i \<and> i \<le> int_max"

text \<open>\<open>%d\<close>: leading white space, an optional sign, at least one digit.\<close>

definition scan_int :: "string \<Rightarrow> (int \<times> string) option" where
  "scan_int s0 =
     (let s = dropWhile isspace s0;
          neg = (s \<noteq> [] \<and> hd s = CHR ''-'');
          t = (if s \<noteq> [] \<and> (hd s = CHR ''-'' \<or> hd s = CHR ''+'') then tl s else s)
      in if starts_digit t
         then (case scan_digits 0 t of (n, r) \<Rightarrow> Some (long_to_int (if neg then - int n else int n), r))
         else None)"

text \<open>\<open>atoi\<close>: the same reading, 0 when there is no number.\<close>

definition atoi :: "string \<Rightarrow> int" where
  "atoi s = (case scan_int s of Some (i, r) \<Rightarrow> i | None \<Rightarrow> 0)"

lemma scan_int_range: "scan_int s = Some (i, r) \<Longrightarrow> int_min \<le> i \<and> i \<le> int_max"
  using long_to_int_range by (auto simp: scan_int_def Let_def split: if_splits prod.splits)

lemma atoi_range: "int_min \<le> atoi s" "atoi s \<le> int_max"
  using scan_int_range [of s] by (auto simp: atoi_def split: option.splits)

text \<open>A literal character of a format string.\<close>

definition scan_char :: "char \<Rightarrow> string \<Rightarrow> string option" where
  "scan_char c s = (case s of [] \<Rightarrow> None | x # xs \<Rightarrow> if x = c then Some xs else None)"

text \<open>\<open>fscanf\<close> with a format of \<open>%d\<close>s separated by literal characters: the values read before
  the first mismatch, and the rest of the input.\<close>

fun scan_fields :: "char list \<Rightarrow> string \<Rightarrow> int list \<times> string" where
  "scan_fields seps s =
     (case scan_int s of
        None \<Rightarrow> ([], dropWhile isspace s)
      | Some (i, r) \<Rightarrow>
          (case seps of
             [] \<Rightarrow> ([i], r)
           | c # cs \<Rightarrow> (case scan_char c r of
                None \<Rightarrow> ([i], r)
              | Some r' \<Rightarrow> (case scan_fields cs r' of (is, r'') \<Rightarrow> (i # is, r'')))))"

declare scan_fields.simps [simp del]

lemma digit_val_digit [simp]: "d < 10 \<Longrightarrow> digit_val (digit d) = Some d"
  by (simp add: digit_val_def digit_def Let_def of_char_of)

lemma digit_props: "d < 10 \<Longrightarrow> digit d \<noteq> CHR ''-'' \<and> digit d \<noteq> CHR ''+'' \<and> \<not> isspace (digit d)"
proof -
  assume d: "d < 10"
  have "digit_val c = None" if "c \<in> {CHR ''-'', CHR ''+''} \<or> isspace c" for c
    using that by (auto simp: digit_val_def isspace_def)
  with digit_val_digit [OF d] show ?thesis by (metis insertCI option.distinct(1))
qed

lemma show_nat_digits: "\<exists>d ds. show_nat n = digit d # ds \<and> d < 10"
proof (induction n rule: show_nat.induct)
  case (1 n)
  then show ?case by (cases "n < 10") (auto simp: show_nat.simps [of n])
qed

lemma scan_digits_show_nat:
  "\<not> starts_digit r \<Longrightarrow> scan_digits a (show_nat n @ r) = (a * 10 ^ length (show_nat n) + n, r)"
proof (induction n arbitrary: a r rule: show_nat.induct)
  case (1 n)
  have stop: "scan_digits b r = (b, r)" for b
    using "1.prems" by (cases r) (auto simp: starts_digit_def split: option.splits)
  show ?case
  proof (cases "n < 10")
    case True
    with stop show ?thesis by (simp add: show_nat.simps [of n] ac_simps)
  next
    case False
    have app: "scan_digits b (show_nat (n div 10) @ digit (n mod 10) # r)
            = (10 * (b * 10 ^ length (show_nat (n div 10)) + n div 10) + n mod 10, r)" for b
    proof -
      have "scan_digits b (xs @ ys) = (case scan_digits b xs of (m, []) \<Rightarrow> scan_digits m ys | (m, zs) \<Rightarrow> (m, zs @ ys))"
        for b xs ys
        by (induction b xs rule: scan_digits.induct) (auto split: option.splits)
      then show ?thesis
        using "1.IH" [OF False, of "[]" b] stop by (simp add: starts_digit_def)
    qed
    show ?thesis
      using False app [of a] by (simp add: show_nat.simps [of n] algebra_simps)
  qed
qed

text \<open>Reading back a printed integer.\<close>

lemma scan_int_show_int:
  assumes "\<not> starts_digit r" "is_int i"
  shows "scan_int (show_int i @ r) = Some (i, r)"
proof (cases "i < 0")
  case True
  obtain d ds where s: "show_nat (nat (- i)) = digit d # ds" "d < 10"
    using show_nat_digits by blast
  have "scan_digits 0 (show_nat (nat (- i)) @ r) = (nat (- i), r)"
    using scan_digits_show_nat [OF assms(1), of 0] by simp
  with True s assms(2) show ?thesis
    by (simp add: is_int_def show_int_def scan_int_def Let_def starts_digit_def isspace_def)
next
  case False
  obtain d ds where s: "show_nat (nat i) = digit d # ds" "d < 10"
    using show_nat_digits by blast
  have "scan_digits 0 (show_nat (nat i) @ r) = (nat i, r)"
    using scan_digits_show_nat [OF assms(1), of 0] by simp
  with False s digit_props [OF s(2)] assms(2) show ?thesis
    by (simp add: is_int_def show_int_def scan_int_def Let_def starts_digit_def)
qed

section \<open>Addresses\<close>

text \<open>\<open>inet_addr\<close> on four decimal numbers with dots: the word whose memory bytes are the four
  numbers, or \<open>INADDR_NONE\<close>.\<close>

definition inet_addr :: "string \<Rightarrow> 32 word" where
  "inet_addr s = (case scan_fields [CHR ''.'', CHR ''.'', CHR ''.''] s of (fs, r) \<Rightarrow>
     if r = [] \<and> length fs = 4 \<and> list_all (\<lambda>i. 0 \<le> i \<and> i \<le> 255) fs
     then of_le32 (map word_of_int fs) else -1)"

section \<open>Splitting at spaces\<close>

text \<open>The tokens that repeated \<open>strtok(s, " ")\<close> gives: the runs of characters that are not spaces. The
  accumulator is the run being read.\<close>

fun space_tokens :: "string \<Rightarrow> string \<Rightarrow> string list" where
  "space_tokens cur [] = (if cur = [] then [] else [cur])"
| "space_tokens cur (c # cs) =
     (if c = CHR '' '' then (if cur = [] then space_tokens [] cs else cur # space_tokens [] cs)
      else space_tokens (cur @ [c]) cs)"

end
