(* ===== verification/RouterNet.thy ===== *)
theory RouterNet
  imports DistanceVector RipMsg CText
begin

text \<open>
  The router process on the network (\<open>router/router.c\<close>): connections to the neighbours, the
  announcement of the own row, the handlers of the agent's and the neighbours' messages, and the
  service loop of one client. A handler runs under the process mutex, so each is one atomic
  function of the process state; the sockets are a map from descriptors.
\<close>

section \<open>The process on its sockets\<close>

text \<open>An open descriptor maps to its socket. What \<open>connect\<close> answers for an address and a port is
  the parameter \<open>dial\<close>: the new descriptor and socket, or nothing when it fails.\<close>

record world =
  rs :: rstate
  socks :: "int \<Rightarrow> conn option"

type_synonym dial = "32 word \<Rightarrow> 16 word \<Rightarrow> (int \<times> conn) option"

definition get_sock :: "world \<Rightarrow> int \<Rightarrow> conn run" where
  "get_sock w sd = (case socks w sd of None \<Rightarrow> halt (Exit 0) | Some c \<Rightarrow> ret c)"

definition put_sock :: "world \<Rightarrow> int \<Rightarrow> conn \<Rightarrow> world" where
  "put_sock w sd c = w\<lparr>socks := (socks w)(sd := Some c)\<rparr>"

text \<open>\<open>msgSender\<close> and \<open>dataSender\<close> on a descriptor: \<open>send\<close> fails on one that is not open.\<close>

definition send_msg :: "world \<Rightarrow> int \<Rightarrow> message_s \<Rightarrow> world run" where
  "send_msg w sd m =
     andthen (get_sock w sd) (\<lambda>c. andthen (rip_msgSender m c) (\<lambda>(len, c). ret (put_sock w sd c)))"

definition send_data :: "world \<Rightarrow> int \<Rightarrow> int \<Rightarrow> byte list \<Rightarrow> world run" where
  "send_data w sd sz buf =
     (if sz \<le> 0 then ret w
      else andthen (get_sock w sd) (\<lambda>c. andthen (rip_dataSender sz buf c) (\<lambda>(n, c). ret (put_sock w sd c))))"

definition read_sd :: "int option \<Rightarrow> int run" where
  "read_sd d = (case d of None \<Rightarrow> halt Uninitialised | Some sd \<Rightarrow> ret sd)"

definition set_link :: "world \<Rightarrow> nat \<Rightarrow> Router \<Rightarrow> world run" where
  "set_link w i r = andthen (aset (router_set (rs w)) (int i) r) (\<lambda>t. ret (w\<lparr>rs := rs w\<lparr>router_set := t\<rparr>\<rparr>))"

definition set_connected :: "world \<Rightarrow> nat \<Rightarrow> int \<Rightarrow> world run" where
  "set_connected w i v = andthen (aset (connected (rs w)) (int i) v) (\<lambda>t. ret (w\<lparr>rs := rs w\<lparr>connected := t\<rparr>\<rparr>))"

section \<open>Connections to the neighbours\<close>

definition connectNeighbor :: "dial \<Rightarrow> world \<Rightarrow> 32 word \<Rightarrow> 16 word \<Rightarrow> int \<times> world" where
  "connectNeighbor dial w a p = (case dial a p of
     None \<Rightarrow> (-1, w)
   | Some (fd, c) \<Rightarrow> (fd, put_sock w fd c))"

text \<open>\<open>connection\<close>: the result 0 leaves the loop at the first neighbour that cannot be reached,
  with \<open>-1\<close> stored as its descriptor.\<close>

fun connection_loop :: "dial \<Rightarrow> nat list \<Rightarrow> world \<Rightarrow> (int \<times> world) run" where
  "connection_loop dial [] w = ret (1, w)"
| "connection_loop dial (i # is) w =
     andthen (aget (router_set (rs w)) (int i)) (\<lambda>r.
     andthen (aget (connected (rs w)) (int i)) (\<lambda>cn.
     if linkCost r \<noteq> -1 then
       (if cn = 0 then
          (case connectNeighbor dial w (ip r) (ucast (port r)) of (fd, w) \<Rightarrow>
           andthen (set_link w i (r\<lparr>router_sd := Some fd\<rparr>)) (\<lambda>w.
           if fd = -1 then ret (0, w)
           else andthen (set_connected w i 1) (\<lambda>w. connection_loop dial is w)))
        else connection_loop dial is w)
     else
       (if cn = 1 then
          andthen (read_sd (router_sd r)) (\<lambda>sd.
          andthen (send_msg w sd (rip_msgGeneration CLOSE (ownRID (rs w)) (-1) (-1) 0)) (\<lambda>w.
          andthen (set_connected (w\<lparr>socks := (socks w)(sd := None)\<rparr>) i 0) (\<lambda>w.
          connection_loop dial is w)))
        else connection_loop dial is w)))"

definition connection :: "dial \<Rightarrow> world \<Rightarrow> (int \<times> world) run" where
  "connection dial w = connection_loop dial [0..<nR (rs w)] w"

section \<open>Announcing the own row\<close>

text \<open>The bytes of an array of \<open>int\<close>s after \<open>htonl\<close> on each.\<close>

definition dv_wire :: "int list \<Rightarrow> byte list" where
  "dv_wire row = concat (map (\<lambda>v. le32 (htonl (word_of_int v))) row)"

fun announce_loop :: "byte list \<Rightarrow> nat list \<Rightarrow> world \<Rightarrow> world run" where
  "announce_loop temp [] w = ret w"
| "announce_loop temp (i # is) w =
     andthen (aget (router_set (rs w)) (int i)) (\<lambda>r.
     if linkCost r \<noteq> -1 then
       andthen (read_sd (router_sd r)) (\<lambda>sd.
       andthen (send_msg w sd (rip_msgGeneration DVMSG (ownRID (rs w)) (-1) (-1) (4 * numRouter (rs w)))) (\<lambda>w.
       andthen (send_data w sd (4 * numRouter (rs w)) temp) (\<lambda>w.
       announce_loop temp is w)))
     else announce_loop temp is w)"

text \<open>\<open>dv_func\<close> ignores the result of \<open>connection\<close>.\<close>

definition dv_func :: "dial \<Rightarrow> world \<Rightarrow> world run" where
  "dv_func dial w =
     andthen (connection dial w) (\<lambda>(r, w).
     andthen (aget (DVTable (rs w)) (ownIndex (rs w))) (\<lambda>row.
     announce_loop (dv_wire row) [0..<nR (rs w)] w))"

section \<open>The routing table as text\<close>

fun gen_RTable_loop :: "rstate \<Rightarrow> nat list \<Rightarrow> string \<Rightarrow> string run" where
  "gen_RTable_loop s [] buf = ret buf"
| "gen_RTable_loop s (d # ds) buf =
     andthen (aget (rt_available s) (int d)) (\<lambda>av.
     if av = 1 then
       andthen (aget (routing_table s) (int d)) (\<lambda>e.
       case e of None \<Rightarrow> halt Uninitialised
       | Some e \<Rightarrow> gen_RTable_loop s ds (buf @ show_int (dest_RID e) @ '' '' @
                     show_int (nextHop_RID e) @ '' '' @ show_int (pathCost e) @ '' '' @ [CHR 0x0A]))
     else gen_RTable_loop s ds buf)"

text \<open>The text must fit the 100000 bytes of the service loop's buffer, with its NUL.\<close>

definition gen_RTable :: "rstate \<Rightarrow> string run" where
  "gen_RTable s = andthen (gen_RTable_loop s [0..<nR s] []) (\<lambda>t.
     if length t < 100000 then ret t else halt OutOfBounds)"

text \<open>
  \<open>show_func\<close>: the header announces the length of what the buffer held before the table was
  generated. The buffer comes from \<open>malloc\<close>; \<open>None\<close> is its content until something is written.
\<close>

definition show_func :: "world \<Rightarrow> int \<Rightarrow> string option \<Rightarrow> (string option \<times> world) run" where
  "show_func w sd buf =
     (case buf of None \<Rightarrow> halt Uninitialised
      | Some old \<Rightarrow>
        andthen (send_msg w sd (rip_msgGeneration RESPONSE (ownRID (rs w)) (-1) (numDV (rs w)) (int (length old) + 1))) (\<lambda>w.
        andthen (gen_RTable (rs w)) (\<lambda>t.
        andthen (send_data w sd (int (length t) + 1) (str_bytes t @ [0])) (\<lambda>w.
        ret (Some t, w)))))"

section \<open>Handlers\<close>

text \<open>The agent's messages; the result 0 ends the service of this client.\<close>

definition agent :: "dial \<Rightarrow> world \<Rightarrow> int \<Rightarrow> message_s \<Rightarrow> string option \<Rightarrow> (int \<times> string option \<times> world) run" where
  "agent dial w sd m buf =
     (if mtype m = DV then andthen (dv_func dial w) (\<lambda>w. ret (1, buf, w))
      else if mtype m = UPDATE then
        andthen (update_func (rs w) (sint (source m)) (sint (dest m)) (sint (weight m))) (\<lambda>s.
        ret (1, buf, w\<lparr>rs := s\<rparr>))
      else if mtype m = SHOW then andthen (show_func w sd buf) (\<lambda>(buf, w). ret (1, buf, w))
      else if mtype m = RESET then ret (1, buf, w\<lparr>rs := reset_func (rs w)\<rparr>)
      else ret (0, buf, w))"

text \<open>\<open>ntohl\<close> on the first \<open>n\<close> words of the row buffer, in place.\<close>

fun ntohl_row :: "nat \<Rightarrow> byte list \<Rightarrow> byte list" where
  "ntohl_row 0 bs = bs"
| "ntohl_row (Suc n) bs = le32 (ntohl (of_le32 (take 4 bs))) @ ntohl_row n (drop 4 bs)"

definition row_bytes :: "int list \<Rightarrow> byte list" where
  "row_bytes row = concat (map (\<lambda>v. le32 (word_of_int v)) row)"

fun row_of_bytes :: "nat \<Rightarrow> byte list \<Rightarrow> int list" where
  "row_of_bytes 0 bs = []"
| "row_of_bytes (Suc n) bs = sint (of_le32 (take 4 bs)) # row_of_bytes n (drop 4 bs)"

text \<open>\<open>memcpy(DVTable[i], DVRow, size)\<close>: the first \<open>size\<close> bytes of the table's row are replaced. A
  negative size becomes an enormous \<open>size_t\<close>.\<close>

definition copy_row :: "rstate \<Rightarrow> int \<Rightarrow> byte list \<Rightarrow> int \<Rightarrow> rstate run" where
  "copy_row s i DVRow sz =
     andthen (aget (DVTable s) i) (\<lambda>row.
     if sz < 0 then halt OutOfBounds
     else andthen (slice DVRow 0 (nat sz)) (\<lambda>bs.
          andthen (blit (row_bytes row) 0 bs) (\<lambda>bytes.
          andthen (aset (DVTable s) i (row_of_bytes (length row) bytes)) (\<lambda>t.
          ret (s\<lparr>DVTable := t\<rparr>)))))"

definition routing :: "dial \<Rightarrow> world \<Rightarrow> int \<Rightarrow> byte list \<Rightarrow> int \<Rightarrow> int \<Rightarrow> (byte list \<times> world) run" where
  "routing dial w sd DVRow sz n_RID =
     andthen (get_sock w sd) (\<lambda>c.
     andthen (rip_dataReceiver sz DVRow c) (\<lambda>(got, DVRow, c).
     andthen (cint (numDV (rs w) + 1)) (\<lambda>n.
     let w = put_sock w sd c;
         s = (rs w)\<lparr>numDV := n\<rparr>;
         DVRow = ntohl_row (nR s) DVRow
     in andthen (copy_row s (RID_to_Index s n_RID) DVRow sz) (\<lambda>s.
        andthen (recompute s) (\<lambda>(ch, s).
        if ch then andthen (dv_func dial (w\<lparr>rs := s\<rparr>)) (\<lambda>w. ret (DVRow, w))
        else ret (DVRow, w\<lparr>rs := s\<rparr>))))))"

text \<open>One request of a client: the thread's buffers are its state. A descriptor that is not open
  makes \<open>recv\<close> fail.\<close>

definition request_response ::
  "dial \<Rightarrow> int \<Rightarrow> string option \<Rightarrow> byte list \<Rightarrow> world \<Rightarrow> (int \<times> string option \<times> byte list \<times> world) run" where
  "request_response dial sd buf DVRow w =
     andthen (get_sock w sd) (\<lambda>c.
     andthen (rip_msgReceiver c) (\<lambda>(len, m, c).
     let w = put_sock w sd c in
     if protocol m = rip_magicNum \<and> len = 20 then
       (if mtype m = DVMSG then
          andthen (routing dial w sd DVRow (sint (payload m)) (sint (source m))) (\<lambda>(DVRow, w).
          ret (1, buf, DVRow, w))
        else if mtype m = CLOSE then ret (0, buf, DVRow, w)
        else andthen (agent dial w sd m buf) (\<lambda>(c, buf, w). ret (c, buf, DVRow, w)))
     else ret (0, buf, DVRow, w)))"

text \<open>The service loop of one client, and the close of its socket.\<close>

partial_function (option) service_loop ::
  "dial \<Rightarrow> int \<Rightarrow> string option \<Rightarrow> byte list \<Rightarrow> world \<Rightarrow> world run" where
  "service_loop dial sd buf DVRow w =
     (case request_response dial sd buf DVRow w of
        None \<Rightarrow> None
      | Some r \<Rightarrow> (case r of
          Inl f \<Rightarrow> halt f
        | Inr (c, buf, DVRow, w) \<Rightarrow>
            if c \<noteq> 0 then service_loop dial sd buf DVRow w else ret w))"

definition client_close :: "int \<Rightarrow> world \<Rightarrow> world" where
  "client_close sd w = w\<lparr>socks := (socks w)(sd := None)\<rparr>"

definition serviceHandler :: "dial \<Rightarrow> int \<Rightarrow> byte list \<Rightarrow> world \<Rightarrow> world run" where
  "serviceHandler dial sd DVRow w =
     andthen (service_loop dial sd None DVRow w) (\<lambda>w. ret (client_close sd w))"

end
