(* ===== verification/RouterExchange.thy ===== *)
theory RouterExchange
  imports RouterNet
begin

text \<open>
  Lemmas about the router on the network: rows survive the wire, a handler keeps the tables
  well formed and the routing table in agreement with the distance table, and the announcement
  reaches exactly the neighbours.
\<close>

section \<open>Rows on the wire\<close>

definition row_ok :: "int list \<Rightarrow> bool" where
  "row_ok row \<longleftrightarrow> list_all (\<lambda>v. int_min \<le> v \<and> v \<le> int_max) row"

lemma length_dv_wire [simp]: "length (dv_wire row) = 4 * length row"
  by (induction row) (simp_all add: dv_wire_def)

lemma length_row_bytes [simp]: "length (row_bytes row) = 4 * length row"
  by (induction row) (simp_all add: row_bytes_def)

lemma ntohl_row_dv_wire: "ntohl_row (length row) (dv_wire row @ rest) = row_bytes row @ rest"
  by (induction row) (simp_all add: dv_wire_def row_bytes_def of_le32_def le32_def ntohl_def)

lemma row_of_bytes_row_bytes: "row_ok row \<Longrightarrow> row_of_bytes (length row) (row_bytes row @ rest) = row"
  by (induction row) (simp_all add: row_bytes_def row_ok_def)

lemma length_row_of_bytes [simp]: "length (row_of_bytes n bs) = n"
  by (induction n arbitrary: bs) simp_all

lemma length_ntohl_row [simp]: "4 * n \<le> length bs \<Longrightarrow> length (ntohl_row n bs) = length bs"
  by (induction n arbitrary: bs) simp_all

lemma copy_row_whole:
  assumes "router_wf s" "k < nR s" "length row = nR s" "row_ok row"
  shows "copy_row s (int k) (row_bytes row @ rest) (4 * numRouter s)
           = ret (s\<lparr>DVTable := (DVTable s)[k := row]\<rparr>)"
proof -
  note wf = router_wfD [OF assms(1)]
  have n: "nat (4 * numRouter s) = 4 * nR s" "\<not> 4 * numRouter s < 0" using wf(2) by auto
  have b: "blit (row_bytes (DVTable s ! k)) 0 (row_bytes row) = ret (row_bytes row)"
    using wf(9) [OF assms(2)] assms(3) by (simp add: blit_def)
  have r: "row_of_bytes (nR s) (row_bytes row) = row"
    using row_of_bytes_row_bytes [OF assms(4), of "[]"] assms(3) by simp
  show ?thesis
    using wf assms n b r by (simp add: copy_row_def slice_def)
qed

section \<open>Tables that stay well formed\<close>

lemma copy_row_ret:
  assumes "copy_row s i DVRow sz = ret s'" "router_wf s"
  shows "router_wf s' \<and> 0 \<le> i \<and> i < numRouter s \<and>
    (\<exists>row. s' = s\<lparr>DVTable := (DVTable s)[nat i := row]\<rparr> \<and> length row = nR s)"
proof -
  note wf = router_wfD [OF assms(2)]
  from assms(1) obtain row where row: "aget (DVTable s) i = ret row"
    by (auto simp: copy_row_def)
  then have i: "0 \<le> i" "nat i < nR s" "row = DVTable s ! nat i"
    using wf(10) by (auto simp: aget_ret wf)
  with wf(9) [of "nat i"] have "length row = nR s" by simp
  with assms(1) row obtain bytes where
    s': "s' = s\<lparr>DVTable := (DVTable s)[nat i := row_of_bytes (nR s) bytes]\<rparr>"
    by (auto simp: copy_row_def andthen_ret_iff aset_ret split: if_splits)
  moreover have "router_wf s'"
    unfolding s' using assms(2) i by (auto simp: router_wf_def list_all_length nth_list_update)
  ultimately show ?thesis using i by auto
qed

lemma update_func_ret:
  assumes "update_func s a b v = ret s'" "router_wf s"
  obtains k s1 ch where "RID_to_Index s b = int k" "k < nR s" "router_wf s1"
    "s1 = s\<lparr>router_set := (router_set s)[k := (router_set s ! k)\<lparr>linkCost := if v = 1000 then -1 else v\<rparr>]\<rparr>"
    "recompute s1 = ret (ch, s')" "recomputed s1 {0..<nR s1} s'"
proof -
  note wf = router_wfD [OF assms(2)]
  from assms(1) obtain r where "aget (router_set s) (RID_to_Index s b) = ret r"
    by (auto simp: update_func_def Let_def)
  then obtain k where k: "RID_to_Index s b = int k" "k < nR s"
    using wf(10) by (auto simp: aget_ret wf intro: that [of "nat (RID_to_Index s b)"])
  let ?s1 = "s\<lparr>router_set := (router_set s)[k := (router_set s ! k)\<lparr>linkCost := if v = 1000 then -1 else v\<rparr>]\<rparr>"
  from assms(1) k wf(5) obtain ch where ch: "recompute ?s1 = ret (ch, s')"
    unfolding update_func_def Let_def by auto
  have wf1: "router_wf ?s1" using assms(2) by (simp add: router_wf_def)
  from that [OF k wf1 refl ch recompute_ret(2) [OF wf1 ch]] show thesis .
qed

lemma recomputed_wf: "recomputed s D s' \<Longrightarrow> router_wf s'"
  by (simp add: recomputed_def)

text \<open>The announcement writes neither table: only descriptors and connection flags.\<close>

definition same_tables :: "rstate \<Rightarrow> rstate \<Rightarrow> bool" where
  "same_tables s s' \<longleftrightarrow> ownRID s' = ownRID s \<and> ownIndex s' = ownIndex s \<and>
     numRouter s' = numRouter s \<and> numDV s' = numDV s \<and> DVTable s' = DVTable s \<and>
     rt_available s' = rt_available s \<and> routing_table s' = routing_table s \<and>
     length (connected s') = length (connected s) \<and>
     map (\<lambda>r. r\<lparr>router_sd := None\<rparr>) (router_set s') = map (\<lambda>r. r\<lparr>router_sd := None\<rparr>) (router_set s)"

lemma same_tables_refl [simp]: "same_tables s s"
  by (simp add: same_tables_def)

lemma same_tables_trans: "same_tables s s' \<Longrightarrow> same_tables s' s'' \<Longrightarrow> same_tables s s''"
  by (simp add: same_tables_def)

lemma same_tables_length: "same_tables s s' \<Longrightarrow> length (router_set s') = length (router_set s)"
  unfolding same_tables_def by (metis length_map)

lemma same_tables_nth:
  assumes "same_tables s s'" "k < length (router_set s)"
  shows "linkCost (router_set s' ! k) = linkCost (router_set s ! k)"
    "RID (router_set s' ! k) = RID (router_set s ! k)"
proof -
  have "(router_set s' ! k)\<lparr>router_sd := None\<rparr> = (router_set s ! k)\<lparr>router_sd := None\<rparr>"
    using assms same_tables_length [OF assms(1)] unfolding same_tables_def by (metis nth_map)
  then show "linkCost (router_set s' ! k) = linkCost (router_set s ! k)"
    "RID (router_set s' ! k) = RID (router_set s ! k)"
    by (cases "router_set s' ! k"; cases "router_set s ! k"; simp)+
qed

lemma same_tables_wf: "same_tables s s' \<Longrightarrow> router_wf s \<Longrightarrow> router_wf s'"
  using same_tables_length [of s s'] by (simp add: router_wf_def same_tables_def)

lemma send_msg_rs: "send_msg w sd m = ret w' \<Longrightarrow> rs w' = rs w"
  by (auto simp: send_msg_def put_sock_def andthen_ret_iff)

lemma send_data_rs: "send_data w sd n b = ret w' \<Longrightarrow> rs w' = rs w"
  by (auto simp: send_data_def put_sock_def andthen_ret_iff split: if_splits)

lemma set_link_sd:
  "set_link w i ((router_set (rs w) ! i)\<lparr>router_sd := d\<rparr>) = ret w' \<Longrightarrow> same_tables (rs w) (rs w')"
  by (auto simp: set_link_def same_tables_def andthen_ret_iff aset_ret map_update list_update_id
      intro!: nth_equalityI simp: nth_list_update)

lemma set_connected_tables: "set_connected w i v = ret w' \<Longrightarrow> same_tables (rs w) (rs w')"
  by (auto simp: set_connected_def same_tables_def andthen_ret_iff aset_ret)

lemma connectNeighbor_rs: "connectNeighbor dial w a p = (fd, w') \<Longrightarrow> rs w' = rs w"
  by (auto simp: connectNeighbor_def put_sock_def split: option.splits)

lemma connection_loop_tables:
  "connection_loop dial is w = ret (res, w') \<Longrightarrow> same_tables (rs w) (rs w')"
proof (induction "is" arbitrary: w)
  case (Cons i "is")
  from Cons.prems obtain r cn where g: "aget (router_set (rs w)) (int i) = ret r"
    "aget (connected (rs w)) (int i) = ret cn" by auto
  then have r: "r = router_set (rs w) ! i" by (auto simp: aget_ret)
  note IH = Cons.IH and tr = same_tables_trans
  show ?case
  proof (cases "linkCost r \<noteq> -1")
    case True
    show ?thesis
    proof (cases "cn = 0")
      case cn: True
      obtain fd w1 where cN: "connectNeighbor dial w (ip r) (ucast (port r)) = (fd, w1)"
        by (metis surj_pair)
      with Cons.prems g True cn obtain w2 where
        w2: "set_link w1 i (r\<lparr>router_sd := Some fd\<rparr>) = ret w2"
        and rest: "(if fd = -1 then ret (0, w2)
           else andthen (set_connected w2 i 1) (\<lambda>w. connection_loop dial is w)) = ret (res, w')"
        by auto
      have s1: "same_tables (rs w) (rs w2)"
        using set_link_sd [of w1 i "Some fd" w2] w2 connectNeighbor_rs [OF cN] r by simp
      with rest show ?thesis
        by (auto split: if_splits dest!: IH set_connected_tables intro: tr)
    qed (use Cons True g in auto)
  next
    case False
    show ?thesis
    proof (cases "cn = 1")
      case True
      with Cons.prems g False obtain sd w1 w2 where
        w1: "send_msg w sd (rip_msgGeneration CLOSE (ownRID (rs w)) (-1) (-1) 0) = ret w1"
        "set_connected (w1\<lparr>socks := (socks w1)(sd := None)\<rparr>) i 0 = ret w2"
        "connection_loop dial is w2 = ret (res, w')"
        by auto
      from set_connected_tables [OF w1(2)] IH [OF w1(3)] send_msg_rs [OF w1(1)] show ?thesis
        by (auto intro: tr)
    qed (use Cons False g in auto)
  qed
qed simp

lemma announce_loop_rs: "announce_loop temp is w = ret w' \<Longrightarrow> rs w' = rs w"
proof (induction "is" arbitrary: w)
  case (Cons i "is")
  from Cons.prems show ?case
    by (auto split: if_splits dest!: Cons.IH send_msg_rs send_data_rs)
qed simp

lemma dv_func_tables: "dv_func dial w = ret w' \<Longrightarrow> same_tables (rs w) (rs w')"
  by (auto simp: dv_func_def connection_def dest!: announce_loop_rs connection_loop_tables)

section \<open>The routing table agrees with the distance table\<close>

text \<open>Every destination with a cost in the own row is available, and its entry shows that cost.\<close>

definition routes_match :: "rstate \<Rightarrow> bool" where
  "routes_match s \<longleftrightarrow> (\<forall>d < nR s. d \<noteq> own s \<and> dv s (own s) d \<noteq> -1 \<longrightarrow>
     rt_available s ! d = 1 \<and>
     (\<exists>e. routing_table s ! d = Some e \<and> dest_RID e = RID (router_set s ! d) \<and>
          pathCost e = dv s (own s) d))"

definition tables_ok :: "rstate \<Rightarrow> bool" where
  "tables_ok s \<longleftrightarrow> router_wf s \<and> routes_match s"

lemma recomputed_routes_match:
  assumes "recomputed s {0..<nR s} s'" "routes_match s"
  shows "routes_match s'"
proof -
  have l: "same_links s s'" using assms(1) by (simp add: recomputed_def)
  have f: "own s' = own s" "nR s' = nR s" "router_set s' = router_set s"
    using same_linksD [OF l] by auto
  have hop: "fst (best s d) \<noteq> -1" if "snd (best s d) \<noteq> -1" for d
    by (rule best_cases [of s d "fst (best s d)" "snd (best s d)"]) (use that in auto)
  show ?thesis
    unfolding routes_match_def f
  proof (intro allI impI)
    fix d assume d: "d < nR s" "d \<noteq> own s \<and> dv s' (own s) d \<noteq> -1"
    have c: "dv s' (own s) d = snd (best s d)"
      and e: "if snd (best s d) \<noteq> dv s (own s) d \<and> fst (best s d) \<noteq> -1
        then rt_available s' ! d = 1 \<and> routing_table s' ! d = Some (best_entry s d)
        else rt_available s' ! d = rt_available s ! d \<and> routing_table s' ! d = routing_table s ! d"
      using assms(1) d unfolding recomputed_def by auto
    show "rt_available s' ! d = 1 \<and> (\<exists>e. routing_table s' ! d = Some e \<and>
         dest_RID e = RID (router_set s ! d) \<and> pathCost e = dv s' (own s) d)"
    proof (cases "snd (best s d) = dv s (own s) d")
      case True
      with c e d assms(2) show ?thesis by (auto simp: routes_match_def)
    next
      case False
      with c e d hop show ?thesis by (auto simp: best_entry_def)
    qed
  qed
qed

lemma recompute_tables_ok: "recompute s = ret (ch, s') \<Longrightarrow> tables_ok s \<Longrightarrow> tables_ok s'"
  using recompute_ret(2) [of s ch s'] recomputed_routes_match [of s s'] recomputed_wf
  by (auto simp: tables_ok_def)

lemma same_tables_ok:
  assumes "same_tables s s'" "tables_ok s"
  shows "tables_ok s'"
proof -
  have f: "own s' = own s" "nR s' = nR s" "DVTable s' = DVTable s" "rt_available s' = rt_available s"
    "routing_table s' = routing_table s"
    using assms(1) by (auto simp: same_tables_def)
  have "RID (router_set s' ! d) = RID (router_set s ! d)" if "d < nR s" for d
    using same_tables_nth(2) [OF assms(1)] that assms(2) router_wfD(5) by (simp add: tables_ok_def)
  with assms f same_tables_wf [OF assms(1)] show ?thesis
    by (auto simp: tables_ok_def routes_match_def)
qed

lemma update_func_tables_ok:
  assumes "update_func s a b v = ret s'" "tables_ok s"
  shows "tables_ok s'"
proof -
  from assms(2) have wf: "router_wf s" by (simp add: tables_ok_def)
  show ?thesis
  proof (rule update_func_ret [OF assms(1) wf])
    fix k s1 ch
    assume s1: "router_wf s1"
      "s1 = s\<lparr>router_set := (router_set s)[k := (router_set s ! k)\<lparr>linkCost := if v = 1000 then -1 else v\<rparr>]\<rparr>"
      and k: "k < nR s" and ch: "recompute s1 = ret (ch, s')"
    have "RID (router_set s1 ! d) = RID (router_set s ! d)" for d
      using k router_wfD(5) [OF wf] by (cases "d = k") (simp_all add: s1(2))
    with assms(2) s1 have "tables_ok s1" by (auto simp: tables_ok_def routes_match_def)
    with ch show ?thesis by (rule recompute_tables_ok)
  qed
qed

lemma copy_row_tables_ok:
  assumes "copy_row s i DVRow sz = ret s'" "tables_ok s" "i \<noteq> ownIndex s"
  shows "tables_ok s'"
proof -
  from assms(2) have wf: "router_wf s" by (simp add: tables_ok_def)
  from copy_row_ret [OF assms(1) wf] obtain row where
    s': "router_wf s'" "0 \<le> i" "s' = s\<lparr>DVTable := (DVTable s)[nat i := row]\<rparr>" by auto
  then have "nat i \<noteq> own s" using assms(3) wf by (auto simp: router_wf_def)
  with s' assms(2) show ?thesis by (auto simp: tables_ok_def routes_match_def)
qed

section \<open>Steps of the process\<close>

lemma routing_tables_ok:
  assumes "routing dial w sd DVRow sz rid = ret (DVRow', w')" "tables_ok (rs w)"
    and "RID_to_Index (rs w) rid \<noteq> ownIndex (rs w)"
  shows "tables_ok (rs w')"
proof -
  from assms(1) obtain n R s2 s3 ch where
    n: "copy_row ((rs w)\<lparr>numDV := n\<rparr>) (RID_to_Index ((rs w)\<lparr>numDV := n\<rparr>) rid) R sz = ret s2"
    and ch: "recompute s2 = ret (ch, s3)"
    and w': "rs w' = s3 \<or> (\<exists>w1. rs w1 = s3 \<and> dv_func dial w1 = ret w')"
    by (fastforce simp: routing_def Let_def put_sock_def split: if_splits)
  have "RID_to_Index ((rs w)\<lparr>numDV := n\<rparr>) rid = RID_to_Index (rs w) rid"
    by (simp add: RID_to_Index_def)
  moreover have "tables_ok ((rs w)\<lparr>numDV := n\<rparr>)"
    using assms(2) by (simp add: tables_ok_def router_wf_def routes_match_def)
  ultimately have "tables_ok s2" using copy_row_tables_ok [OF n] assms(3) by simp
  then have "tables_ok s3" by (rule recompute_tables_ok [OF ch])
  with w' show ?thesis using dv_func_tables same_tables_ok by blast
qed

lemma show_func_rs: "show_func w sd buf = ret (b, w') \<Longrightarrow> rs w' = rs w"
  by (auto simp: show_func_def dest!: send_msg_rs send_data_rs split: option.splits)

lemma agent_tables_ok:
  assumes "agent dial w sd m buf = ret (c, b, w')" "tables_ok (rs w)"
  shows "tables_ok (rs w')"
proof -
  have "tables_ok (reset_func (rs w))"
    using assms(2) by (simp add: tables_ok_def router_wf_def routes_match_def reset_func_def)
  with assms show ?thesis
    by (auto simp: agent_def dest: show_func_rs update_func_tables_ok
        intro: same_tables_ok [OF dv_func_tables] split: if_splits)
qed

text \<open>One request of any client on any descriptor is a step of the process. The side condition
  says that no neighbour speaks under the router's own id.\<close>

definition foreign_row :: "world \<Rightarrow> int \<Rightarrow> bool" where
  "foreign_row w sd \<longleftrightarrow> (\<forall>c len m c'. socks w sd = Some c \<longrightarrow> rip_msgReceiver c = ret (len, m, c') \<longrightarrow>
      mtype m = DVMSG \<longrightarrow> RID_to_Index (rs w) (sint (source m)) \<noteq> ownIndex (rs w))"

inductive router_step :: "dial \<Rightarrow> world \<Rightarrow> world \<Rightarrow> bool" for dial where
  request: "foreign_row w sd \<Longrightarrow> request_response dial sd buf DVRow w = ret (c, buf', DVRow', w')
     \<Longrightarrow> router_step dial w w'"
| closed: "router_step dial w (client_close sd w)"
| incoming: "router_step dial w (put_sock w sd c)"

definition router_reach :: "dial \<Rightarrow> world \<Rightarrow> world \<Rightarrow> bool" where
  "router_reach dial = (router_step dial)\<^sup>*\<^sup>*"

inductive_cases router_stepE: "router_step dial w w'"

lemma put_sock_rs [simp]: "rs (put_sock w sd c) = rs w"
  by (simp add: put_sock_def)

lemma get_sock_ret [simp]: "get_sock w sd = ret c \<longleftrightarrow> socks w sd = Some c"
  by (simp add: get_sock_def split: option.splits)

lemma get_sock_Some [simp]: "socks w sd = Some c \<Longrightarrow> get_sock w sd = ret c"
  by simp

lemma request_response_tables_ok:
  assumes "request_response dial sd buf DVRow w = ret (r, buf', DVRow', w')" "tables_ok (rs w)"
    and "foreign_row w sd"
  shows "tables_ok (rs w')"
proof -
  from assms(1) obtain c len m c1 where c: "socks w sd = Some c" "rip_msgReceiver c = ret (len, m, c1)"
    and k: "(if protocol m = rip_magicNum \<and> len = 20 then
       (if mtype m = DVMSG then
          andthen (routing dial (put_sock w sd c1) sd DVRow (sint (payload m)) (sint (source m))) (\<lambda>(DVRow, w).
          ret (1, buf, DVRow, w))
        else if mtype m = CLOSE then ret (0, buf, DVRow, put_sock w sd c1)
        else andthen (agent dial (put_sock w sd c1) sd m buf) (\<lambda>(c, buf, w). ret (c, buf, DVRow, w)))
     else ret (0, buf, DVRow, put_sock w sd c1)) = ret (r, buf', DVRow', w')"
    by (auto simp: request_response_def Let_def)
  have "mtype m = DVMSG \<Longrightarrow> RID_to_Index (rs (put_sock w sd c1)) (sint (source m)) \<noteq> ownIndex (rs (put_sock w sd c1))"
    using assms(3) c by (auto simp: foreign_row_def)
  with k assms(2) show ?thesis
    by (auto split: if_splits dest: routing_tables_ok agent_tables_ok)
qed

lemma router_step_tables_ok: "router_step dial w w' \<Longrightarrow> tables_ok (rs w) \<Longrightarrow> tables_ok (rs w')"
  by (elim router_stepE) (auto simp: client_close_def intro: request_response_tables_ok)

interpretation service: invariant_system "router_step dial" "\<lambda>w. tables_ok (rs w)" for dial
  by unfold_locales (rule router_step_tables_ok)

lemma router_reach_tables_ok: "router_reach dial w0 w \<Longrightarrow> tables_ok (rs w0) \<Longrightarrow> tables_ok (rs w)"
  unfolding router_reach_def by (rule service.reach_inv)

lemma router_reach_one: "router_step dial w w' \<Longrightarrow> router_reach dial w w'"
  by (simp add: router_reach_def)

section \<open>Receiving an announcement\<close>

text \<open>The state in which the router recomputes after the row of router \<open>k\<close> has arrived.\<close>

definition with_row :: "rstate \<Rightarrow> nat \<Rightarrow> int list \<Rightarrow> rstate" where
  "with_row s k row = s\<lparr>numDV := numDV s + 1, DVTable := (DVTable s)[k := row]\<rparr>"

lemma with_row_wf: "router_wf s \<Longrightarrow> k < nR s \<Longrightarrow> length row = nR s \<Longrightarrow> router_wf (with_row s k row)"
  by (auto simp: router_wf_def with_row_def list_all_length nth_list_update)

text \<open>A whole row in the socket, in any segmentation, becomes the row of the sender's index.\<close>

lemma routing_stores_row:
  assumes wf: "router_wf (rs w)" and n: "2 \<le> nR (rs w)"
    and c: "socks w sd = Some c" "healthy c" "pending c = dv_wire row @ rest"
    and row: "length row = nR (rs w)" "row_ok row"
    and k: "RID_to_Index (rs w) rid = int k" "k < nR (rs w)"
    and DVRow: "length DVRow = 4 * nR (rs w)"
    and dvs: "0 \<le> numDV (rs w)" "numDV (rs w) < int_max"
  shows "\<exists>c'. pending c' = rest \<and> healthy c' \<and>
    routing dial w sd DVRow (4 * numRouter (rs w)) rid =
      andthen (recompute (with_row (rs w) k row)) (\<lambda>(ch, s).
        if ch then andthen (dv_func dial ((put_sock w sd c')\<lparr>rs := s\<rparr>)) (\<lambda>w. ret (row_bytes row, w))
        else ret (row_bytes row, (put_sock w sd c')\<lparr>rs := s\<rparr>))"
proof -
  let ?s = "rs w"
  define N where "N = 4 * nR ?s"
  have sz: "4 * numRouter ?s = int N" using router_wfD(10) [OF wf] by (simp add: N_def)
  have p: "take N (pending c) = dv_wire row" "drop N (pending c) = rest" "N \<le> length (pending c)"
    using c(3) row(1) by (simp_all add: N_def)
  have buf: "N \<le> length DVRow" "8 \<le> length DVRow" "drop N (replicate 8 0 @ drop 8 DVRow) = []"
    using DVRow n by (simp_all add: N_def)
  obtain c' where r: "rip_dataReceiver (int N) DVRow c = ret (N, dv_wire row, c')"
    and c': "pending c' = rest" "healthy c'"
    using rip_dataReceiver_total [OF c(2) p(3) buf(1,2)] unfolding p buf(3) by auto
  have nt: "ntohl_row (nR (?s\<lparr>numDV := numDV ?s + 1\<rparr>)) (dv_wire row) = row_bytes row"
    using ntohl_row_dv_wire [of row "[]"] row(1) by simp
  have nD: "cint (numDV ?s + 1) = ret (numDV ?s + 1)" using dvs by simp
  let ?s1 = "?s\<lparr>numDV := numDV ?s + 1\<rparr>"
  have wf1: "router_wf ?s1" using wf by (simp add: router_wf_def)
  have cp: "copy_row ?s1 (RID_to_Index ?s1 rid) (row_bytes row) (int N) = ret (with_row ?s k row)"
    using copy_row_whole [OF wf1, of k row "[]"] k row sz
    by (simp add: with_row_def RID_to_Index_def)
  have "routing dial w sd DVRow (int N) rid =
      andthen (recompute (with_row ?s k row)) (\<lambda>(ch, s).
        if ch then andthen (dv_func dial ((put_sock w sd c')\<lparr>rs := s\<rparr>)) (\<lambda>w. ret (row_bytes row, w))
        else ret (row_bytes row, (put_sock w sd c')\<lparr>rs := s\<rparr>))"
    unfolding routing_def get_sock_Some [OF c(1)] r andthen_simps prod.case nD Let_def
      put_sock_rs nt cp ..
  with c' sz show ?thesis by auto
qed

text \<open>A whole request with the header in one segment and the row in any segments: the header is
  decoded, the row is stored for its sender, and the neighbours hear of a change.\<close>

lemma put_sock_put_sock [simp]: "put_sock (put_sock w sd c) sd c' = put_sock w sd c'"
  by (simp add: put_sock_def)

lemma put_sock_socks [simp]: "socks (put_sock w sd c) sd = Some c"
  by (simp add: put_sock_def)

abbreviation dvmsg :: "int \<Rightarrow> int \<Rightarrow> message_s" where
  "dvmsg rid n \<equiv> rip_msgGeneration DVMSG rid (-1) (-1) (4 * n)"

lemma request_response_DVMSG:
  assumes wf: "router_wf (rs w)" and n: "2 \<le> nR (rs w)" "4 * numRouter (rs w) \<le> int_max"
    and c: "socks w sd = Some c" "rxq c = RxData (message_s_bytes (dvmsg rid (numRouter (rs w)))) # q"
      "healthy (c\<lparr>rxq := q\<rparr>)" "pending (c\<lparr>rxq := q\<rparr>) = dv_wire row @ rest"
    and rid: "int_min \<le> rid" "rid \<le> int_max"
    and row: "length row = nR (rs w)" "row_ok row"
    and k: "RID_to_Index (rs w) rid = int k" "k < nR (rs w)"
    and DVRow: "length DVRow = 4 * nR (rs w)"
    and dvs: "0 \<le> numDV (rs w)" "numDV (rs w) < int_max"
  shows "\<exists>c'. pending c' = rest \<and> healthy c' \<and>
    request_response dial sd buf DVRow w =
      andthen (recompute (with_row (rs w) k row)) (\<lambda>(ch, s).
        andthen (if ch then dv_func dial ((put_sock w sd c')\<lparr>rs := s\<rparr>) else ret ((put_sock w sd c')\<lparr>rs := s\<rparr>))
          (\<lambda>w. ret (1, buf, row_bytes row, w)))"
proof -
  let ?c = "c\<lparr>rxq := q\<rparr>" and ?w = "put_sock w sd (c\<lparr>rxq := q\<rparr>)"
  have h: "rip_msgReceiver c = ret (20, rip_host DVMSG rid (-1) (-1) (4 * numRouter (rs w)), ?c)"
    using rip_msgReceiver_generated [of c DVMSG rid "-1" "-1" "4 * numRouter (rs w)" "[]" q] c(2) by simp
  have f: "sint (payload (rip_host DVMSG rid (-1) (-1) (4 * numRouter (rs w)))) = 4 * numRouter (rs w)"
    "sint (source (rip_host DVMSG rid (-1) (-1) (4 * numRouter (rs w)))) = rid"
    using sint_word_of_int [of "4 * numRouter (rs w)"] sint_word_of_int [OF rid] n(2) router_wfD(10) [OF wf]
    by (simp_all only: rip_host_def message_s.simps)
  have "router_wf (rs ?w)" "2 \<le> nR (rs ?w)" "socks ?w sd = Some ?c" "length row = nR (rs ?w)"
    "RID_to_Index (rs ?w) rid = int k" "k < nR (rs ?w)" "length DVRow = 4 * nR (rs ?w)"
    "0 \<le> numDV (rs ?w)" "numDV (rs ?w) < int_max"
    using wf n row k DVRow dvs by simp_all
  from routing_stores_row [OF this(1-3) c(3,4) this(4) row(2) this(5-9), of dial,
      unfolded put_sock_put_sock put_sock_rs] obtain c' where
    c': "pending c' = rest" "healthy c'" and
    r: "routing dial ?w sd DVRow (4 * numRouter (rs w)) rid =
      andthen (recompute (with_row (rs w) k row)) (\<lambda>(ch, s).
        if ch then andthen (dv_func dial ((put_sock w sd c')\<lparr>rs := s\<rparr>)) (\<lambda>w. ret (row_bytes row, w))
        else ret (row_bytes row, (put_sock w sd c')\<lparr>rs := s\<rparr>))"
    by blast
  have "request_response dial sd buf DVRow w =
      andthen (routing dial ?w sd DVRow (4 * numRouter (rs w)) rid) (\<lambda>(DVRow, w). ret (1, buf, DVRow, w))"
    unfolding request_response_def get_sock_Some [OF c(1)] h andthen_simps prod.case Let_def f
    by (simp add: rip_host_def)
  also have "\<dots> = andthen (recompute (with_row (rs w) k row)) (\<lambda>(ch, s).
        andthen (if ch then dv_func dial ((put_sock w sd c')\<lparr>rs := s\<rparr>) else ret ((put_sock w sd c')\<lparr>rs := s\<rparr>))
          (\<lambda>w. ret (1, buf, row_bytes row, w)))"
    unfolding r by (auto simp: andthen_def split: option.splits sum.splits)
  finally show ?thesis using c' by blast
qed

text \<open>When the peer closes before the announced row is complete, the handler never returns. It
  holds the process mutex while it waits.\<close>

lemma routing_truncated_diverges:
  assumes "socks w sd = Some c" "healthy c" "length (pending c) < sz" "sz \<le> length DVRow" "8 \<le> length DVRow"
  shows "routing dial w sd DVRow (int sz) rid = None"
proof -
  let ?b = "replicate 8 0 @ drop 8 DVRow"
  have b: "blit DVRow 0 (replicate 8 0) = ret ?b" using assms(5) by (simp add: blit_def)
  have "recv_loop conn_recv (int sz) 0 0 ?b c = None"
    by (rule tcp_in.recv_loop_eof) (use assms in auto)
  then have "rip_dataReceiver (int sz) DVRow c = None"
    using b by (simp add: rip_dataReceiver_def)
  then show ?thesis using assms(1) by (simp add: routing_def)
qed

section \<open>Sending an announcement\<close>

text \<open>Every neighbour is connected, on a descriptor of its own whose socket takes all it is given;
  no other router is connected.\<close>

definition link_up :: "world \<Rightarrow> nat \<Rightarrow> bool" where
  "link_up w i \<longleftrightarrow> connected (rs w) ! i \<noteq> 0 \<and>
     (case router_sd (router_set (rs w) ! i) of None \<Rightarrow> False
      | Some sd \<Rightarrow> (case socks w sd of None \<Rightarrow> False | Some c \<Rightarrow> txq c = []))"

definition links_up :: "world \<Rightarrow> bool" where
  "links_up w \<longleftrightarrow>
     (\<forall>i < nR (rs w). if lc (rs w) i \<noteq> -1 then link_up w i else connected (rs w) ! i \<noteq> 1) \<and>
     (\<forall>i < nR (rs w). \<forall>j < nR (rs w). lc (rs w) i \<noteq> -1 \<and> lc (rs w) j \<noteq> -1 \<and>
        router_sd (router_set (rs w) ! i) = router_sd (router_set (rs w) ! j) \<longrightarrow> i = j)"

lemma link_upE:
  assumes "link_up w i"
  obtains sd c where "router_sd (router_set (rs w) ! i) = Some sd" "socks w sd = Some c" "txq c = []"
    "connected (rs w) ! i \<noteq> 0"
  using assms by (auto simp: link_up_def split: option.splits)

lemma links_upD:
  assumes "links_up w" "i < nR (rs w)"
  shows "lc (rs w) i \<noteq> -1 \<Longrightarrow> link_up w i"
    and "lc (rs w) i = -1 \<Longrightarrow> connected (rs w) ! i \<noteq> 1"
    and "j < nR (rs w) \<Longrightarrow> lc (rs w) i \<noteq> -1 \<Longrightarrow> lc (rs w) j \<noteq> -1 \<Longrightarrow>
      router_sd (router_set (rs w) ! i) = router_sd (router_set (rs w) ! j) \<Longrightarrow> i = j"
  using assms by (auto simp: links_up_def)

definition announcement :: "rstate \<Rightarrow> byte list" where
  "announcement s = message_s_bytes (rip_msgGeneration DVMSG (ownRID s) (-1) (-1) (4 * numRouter s))
     @ dv_wire (DVTable s ! own s)"

lemma connection_links_up:
  assumes "router_wf (rs w)" "links_up w" "\<forall>i \<in> set is. i < nR (rs w)"
  shows "connection_loop dial is w = ret (1, w)"
  using assms(3)
proof (induction "is")
  case (Cons i "is")
  then have i: "i < nR (rs w)" and IH: "connection_loop dial is w = ret (1, w)" by auto
  have "aget (router_set (rs w)) (int i) = ret (router_set (rs w) ! i)"
    "aget (connected (rs w)) (int i) = ret (connected (rs w) ! i)"
    using i router_wfD(4,5) [OF assms(1)] by simp_all
  with IH links_upD(1,2) [OF assms(2) i] show ?case by (auto simp: link_up_def)
qed simp

lemma send_msg_all: "socks w sd = Some c \<Longrightarrow> txq c = [] \<Longrightarrow>
    send_msg w sd m = ret (put_sock w sd (c\<lparr>sent := sent c @ message_s_bytes m\<rparr>))"
  by (simp add: send_msg_def rip_msgSender_def conn_send_def)

lemma rip_dataSender_all: "txq c = [] \<Longrightarrow> 0 < length bs \<Longrightarrow>
    rip_dataSender (int (length bs)) bs c = ret (length bs, c\<lparr>sent := sent c @ bs\<rparr>)"
  by (simp add: rip_dataSender_def send_loop.simps slice_def conn_send_def)

lemma send_data_all: "socks w sd = Some c \<Longrightarrow> txq c = [] \<Longrightarrow> 0 < length bs \<Longrightarrow>
    send_data w sd (int (length bs)) bs = ret (put_sock w sd (c\<lparr>sent := sent c @ bs\<rparr>))"
  by (simp add: send_data_def rip_dataSender_all)

text \<open>The loop sends the announcement once to every neighbour in the list and nothing else.\<close>

definition announced_to :: "world \<Rightarrow> nat set \<Rightarrow> world \<Rightarrow> bool" where
  "announced_to w I w' \<longleftrightarrow> rs w' = rs w \<and> (\<forall>sd. socks w' sd =
     (if \<exists>i \<in> I. lc (rs w) i \<noteq> -1 \<and> router_sd (router_set (rs w) ! i) = Some sd
      then map_option (\<lambda>c. c\<lparr>sent := sent c @ announcement (rs w)\<rparr>) (socks w sd) else socks w sd))"

definition names_sd :: "rstate \<Rightarrow> nat set \<Rightarrow> int \<Rightarrow> bool" where
  "names_sd s I sd \<longleftrightarrow> (\<exists>i \<in> I. lc s i \<noteq> -1 \<and> router_sd (router_set s ! i) = Some sd)"

lemma announced_to_insert:
  assumes "announced_to w0 I w" "socks w0 sd = Some c" "lc (rs w0) i \<noteq> -1"
    "router_sd (router_set (rs w0) ! i) = Some sd" "\<not> names_sd (rs w0) I sd"
    "socks w1 = (socks w)(sd := Some (c\<lparr>sent := sent c @ announcement (rs w0)\<rparr>))" "rs w1 = rs w"
  shows "announced_to w0 (insert i I) w1"
proof -
  have *: "announced_to w0 J v \<longleftrightarrow> rs v = rs w0 \<and> (\<forall>x. socks v x = (if names_sd (rs w0) J x
      then map_option (\<lambda>c. c\<lparr>sent := sent c @ announcement (rs w0)\<rparr>) (socks w0 x) else socks w0 x))" for J v
    by (simp only: announced_to_def names_sd_def)
  have "names_sd (rs w0) (insert i I) x \<longleftrightarrow> x = sd \<or> names_sd (rs w0) I x" for x
    using assms(3,4) by (auto simp: names_sd_def)
  with assms show ?thesis unfolding * by simp
qed

lemma announced_to_fresh:
  "announced_to w0 I w \<Longrightarrow> \<not> names_sd (rs w0) I sd \<Longrightarrow> socks w sd = socks w0 sd"
  by (simp only: announced_to_def names_sd_def if_False)

lemma announce_loop_links_up:
  assumes "router_wf (rs w0)" "links_up w0" "distinct is" "\<forall>i \<in> set is. i < nR (rs w0)"
    and "announced_to w0 I w" "I \<inter> set is = {}" "\<forall>i \<in> I. i < nR (rs w0)"
  shows "\<exists>w'. announce_loop (dv_wire (DVTable (rs w0) ! own (rs w0))) is w = ret w' \<and>
    announced_to w0 (I \<union> set is) w'"
  using assms(3-)
proof (induction "is" arbitrary: w I)
  case Nil
  then show ?case by simp
next
  case (Cons i "is")
  let ?s = "rs w0"
  let ?row = "DVTable ?s ! own ?s"
  let ?m = "rip_msgGeneration DVMSG (ownRID ?s) (-1) (-1) (4 * numRouter ?s)"
  note wf = router_wfD [OF assms(1)]
  have i: "i < nR ?s" and s: "rs w = ?s" using Cons.prems by (auto simp: announced_to_def)
  have r: "aget (router_set (rs w)) (int i) = ret (router_set ?s ! i)" using i wf(5) s by simp
  have rest: "\<exists>w'. announce_loop (dv_wire ?row) is w1 = ret w' \<and> announced_to w0 (insert i I \<union> set is) w'"
    if "announced_to w0 (insert i I) w1" for w1
    using Cons.prems that i by (intro Cons.IH) auto
  show ?case
  proof (cases "lc ?s i = -1")
    case True
    with Cons.prems(3) have "announced_to w0 (insert i I) w" by (simp add: announced_to_def)
    with rest True r s show ?thesis by simp
  next
    case False
    obtain sd c where sd: "router_sd (router_set ?s ! i) = Some sd" "socks w0 sd = Some c" "txq c = []"
      by (rule link_upE [OF links_upD(1) [OF assms(2) i False]])
    have inj: "j = i" if "j < nR ?s" "lc ?s j \<noteq> -1" "router_sd (router_set ?s ! j) = Some sd" for j
      using links_upD(3) [OF assms(2) i that(1) False that(2)] sd(1) that(3) by simp
    have fresh: "\<not> names_sd ?s I sd"
      using inj Cons.prems(4,5) by (auto simp: names_sd_def)
    have cw: "socks w sd = Some c"
      using announced_to_fresh [OF Cons.prems(3) fresh] sd(2) by simp
    let ?c1 = "c\<lparr>sent := sent c @ message_s_bytes ?m\<rparr>"
    let ?c2 = "?c1\<lparr>sent := sent ?c1 @ dv_wire ?row\<rparr>"
    let ?w2 = "put_sock (put_sock w sd ?c1) sd ?c2"
    have len: "4 * numRouter ?s = int (length (dv_wire ?row))" "0 < length (dv_wire ?row)"
      using wf(9) [OF wf(2)] wf(10) by simp_all
    have "send_msg w sd ?m = ret (put_sock w sd ?c1)"
      using send_msg_all [OF cw sd(3)] .
    moreover have "send_data (put_sock w sd ?c1) sd (4 * numRouter ?s) (dv_wire ?row) = ret ?w2"
      unfolding len(1) by (rule send_data_all) (use sd(3) len(2) in \<open>auto simp: put_sock_def\<close>)
    ultimately have "announce_loop (dv_wire ?row) (i # is) w = announce_loop (dv_wire ?row) is ?w2"
      using r False sd(1) s by (simp add: read_sd_def)
    moreover have "announced_to w0 (insert i I) ?w2"
      by (rule announced_to_insert [OF Cons.prems(3) sd(2) False sd(1) fresh])
        (simp_all add: put_sock_def announcement_def)
    ultimately show ?thesis using rest by auto
  qed
qed

lemma dv_func_links_up:
  assumes "router_wf (rs w)" "links_up w"
  obtains w' where "dv_func dial w = ret w'" "announced_to w {0..<nR (rs w)} w'"
proof -
  have c: "connection dial w = ret (1, w)"
    unfolding connection_def by (rule connection_links_up [OF assms]) simp
  have row: "aget (DVTable (rs w)) (ownIndex (rs w)) = ret (DVTable (rs w) ! own (rs w))"
    using aget_nat [of "own (rs w)" "DVTable (rs w)"] router_wfD(1,2,6) [OF assms(1)] by simp
  have "\<exists>w'. announce_loop (dv_wire (DVTable (rs w) ! own (rs w))) [0..<nR (rs w)] w = ret w' \<and>
      announced_to w ({} \<union> set [0..<nR (rs w)]) w'"
    by (rule announce_loop_links_up [OF assms]) (auto simp: announced_to_def)
  with that c row show thesis by (auto simp: dv_func_def)
qed

section \<open>Serving an announcement\<close>

text \<open>The neighbours' links do not use the socket \<open>sd\<close>.\<close>

definition not_a_link :: "world \<Rightarrow> int \<Rightarrow> bool" where
  "not_a_link w sd \<longleftrightarrow> \<not> names_sd (rs w) {0..<nR (rs w)} sd"

lemma other_sock_links_up:
  assumes "links_up w" "not_a_link w sd"
    and L: "connected s = connected (rs w)" "router_set s = router_set (rs w)" "numRouter s = numRouter (rs w)"
  shows "links_up ((put_sock w sd c)\<lparr>rs := s\<rparr>)"
proof -
  let ?w = "(put_sock w sd c)\<lparr>rs := s\<rparr>"
  have "link_up ?w i" if "i < nR (rs w)" "lc (rs w) i \<noteq> -1" for i
  proof -
    from links_upD(1) [OF assms(1) that] obtain x ci where
      x: "router_sd (router_set (rs w) ! i) = Some x" "socks w x = Some ci" "txq ci = []"
        "connected (rs w) ! i \<noteq> 0" by (rule link_upE)
    have "x \<noteq> sd" using assms(2) x(1) that by (auto simp: not_a_link_def names_sd_def)
    with x L show ?thesis by (simp add: link_up_def put_sock_def)
  qed
  with assms(1) L show ?thesis unfolding links_up_def by simp
qed

text \<open>Announcing a changed state: every neighbour's socket gets the row.\<close>

lemma announced_if_changed:
  assumes up: "links_up w" "not_a_link w sd"
    and s: "router_wf s" "connected s = connected (rs w)" "router_set s = router_set (rs w)" "numRouter s = numRouter (rs w)"
  shows "\<exists>w'. (if ch then dv_func dial ((put_sock w sd c)\<lparr>rs := s\<rparr>) else ret ((put_sock w sd c)\<lparr>rs := s\<rparr>)) = ret w' \<and> rs w' = s \<and>
    (\<forall>i < nR (rs w). lc (rs w) i \<noteq> -1 \<longrightarrow> (\<exists>x ci. router_sd (router_set (rs w) ! i) = Some x \<and>
       socks w x = Some ci \<and> socks w' x = Some (ci\<lparr>sent := sent ci @ (if ch then announcement s else [])\<rparr>)))"
proof -
  let ?w = "(put_sock w sd c)\<lparr>rs := s\<rparr>"
  have socks: "\<exists>x ci. router_sd (router_set (rs w) ! i) = Some x \<and> socks w x = Some ci \<and> socks ?w x = Some ci"
    if i: "i < nR (rs w)" "lc (rs w) i \<noteq> -1" for i
  proof -
    from links_upD(1) [OF up(1) i] obtain x ci where
      x: "router_sd (router_set (rs w) ! i) = Some x" "socks w x = Some ci" by (rule link_upE)
    have "x \<noteq> sd" using up(2) x(1) i by (auto simp: not_a_link_def names_sd_def)
    with x show ?thesis by (simp add: put_sock_def)
  qed
  show ?thesis
  proof (cases ch)
    case False
    with socks show ?thesis by (intro exI [of _ ?w]) auto
  next
    case True
    have wfw: "router_wf (rs ?w)" using s(1) by simp
    obtain w' where d: "dv_func dial ?w = ret w'" "announced_to ?w {0..<nR (rs ?w)} w'"
      by (rule dv_func_links_up [OF wfw other_sock_links_up [OF up s(2-4)]])
    have "\<exists>x ci. router_sd (router_set (rs w) ! i) = Some x \<and> socks w x = Some ci \<and>
        socks w' x = Some (ci\<lparr>sent := sent ci @ announcement s\<rparr>)" if i: "i < nR (rs w)" "lc (rs w) i \<noteq> -1" for i
    proof -
      obtain x ci where x: "router_sd (router_set (rs w) ! i) = Some x" "socks w x = Some ci" "socks ?w x = Some ci"
        using socks [OF i] by blast
      have "\<exists>i \<in> {0..<nR (rs ?w)}. lc (rs ?w) i \<noteq> -1 \<and> router_sd (router_set (rs ?w) ! i) = Some x"
        using i x(1) s(3,4) by auto
      with d(2) x show ?thesis by (simp add: announced_to_def)
    qed
    with True d show ?thesis by (intro exI [of _ w']) (auto simp: announced_to_def)
  qed
qed

text \<open>What every neighbour's socket holds after one announcement was served: its old bytes, and
  the new row exactly when the own row changed.\<close>

lemma request_response_exchange:
  assumes wf: "router_wf (rs w)" and n: "2 \<le> nR (rs w)" "4 * numRouter (rs w) \<le> int_max"
    and c: "socks w sd = Some c" "rxq c = RxData (message_s_bytes (dvmsg rid (numRouter (rs w)))) # q"
      "healthy (c\<lparr>rxq := q\<rparr>)" "pending (c\<lparr>rxq := q\<rparr>) = dv_wire row @ rest"
    and rid: "int_min \<le> rid" "rid \<le> int_max"
    and row: "length row = nR (rs w)" "row_ok row"
    and k: "RID_to_Index (rs w) rid = int k" "k < nR (rs w)" "k \<noteq> own (rs w)"
    and DVRow: "length DVRow = 4 * nR (rs w)"
    and dvs: "0 \<le> numDV (rs w)" "numDV (rs w) < int_max"
    and cb: "costs_bounded (with_row (rs w) k row)"
    and up: "links_up w" "not_a_link w sd"
  shows "\<exists>w'. request_response dial sd buf DVRow w = ret (1, buf, row_bytes row, w') \<and>
    router_wf (rs w') \<and> nR (rs w') = nR (rs w) \<and> own (rs w') = own (rs w) \<and> DVTable (rs w') ! k = row \<and> numDV (rs w') = numDV (rs w) + 1 \<and>
    (\<forall>d < nR (rs w). d \<noteq> own (rs w) \<longrightarrow> dv (rs w') (own (rs w)) d = snd (best (with_row (rs w) k row) d)) \<and>
    (\<forall>i < nR (rs w). lc (rs w) i \<noteq> -1 \<longrightarrow> (\<exists>x ci. router_sd (router_set (rs w) ! i) = Some x \<and>
       socks w x = Some ci \<and> socks w' x = Some (ci\<lparr>sent := sent ci @
         (if \<exists>d < nR (rs w). dv (rs w') (own (rs w)) d \<noteq> dv (rs w) (own (rs w)) d
          then announcement (rs w') else [])\<rparr>)))"
proof -
  let ?s = "with_row (rs w) k row"
  have wf1: "router_wf ?s" by (rule with_row_wf [OF wf k(2) row(1)])
  obtain s' where r: "recompute ?s = ret (\<exists>d < nR ?s. d \<noteq> own ?s \<and> snd (best ?s d) \<noteq> dv ?s (own ?s) d, s')"
    and rc: "recomputed ?s {0..<nR ?s} s'"
    by (rule recompute_spec [OF wf1 cb])
  have f: "nR ?s = nR (rs w)" "own ?s = own (rs w)" "connected ?s = connected (rs w)"
    "router_set ?s = router_set (rs w)" "numDV ?s = numDV (rs w) + 1" "ownIndex ?s = ownIndex (rs w)"
    "ownRID ?s = ownRID (rs w)" "numRouter ?s = numRouter (rs w)"
    by (simp_all add: with_row_def)
  have own_row: "dv ?s (own (rs w)) d = dv (rs w) (own (rs w)) d" for d
    using k(3) by (simp add: with_row_def)
  have l: "same_links ?s s'" and wf': "router_wf s'" using rc by (auto simp: recomputed_def)
  note L = same_linksD [OF l, unfolded f]
  have row': "DVTable s' ! k = row"
    using L(7) [OF k(2,3)] k(2) router_wfD(6) [OF wf] by (simp add: with_row_def)
  have cost: "dv s' (own (rs w)) d = (if d \<noteq> own (rs w) then snd (best ?s d) else dv (rs w) (own (rs w)) d)"
    if "d < nR (rs w)" for d
    using recomputed_cost [OF rc, of d] that by (simp add: f own_row)
  define ch where "ch = (\<exists>d < nR (rs w). dv s' (own (rs w)) d \<noteq> dv (rs w) (own (rs w)) d)"
  have ch: "(\<exists>d < nR ?s. d \<noteq> own ?s \<and> snd (best ?s d) \<noteq> dv ?s (own ?s) d) = ch"
    unfolding ch_def f own_row using cost by (auto split: if_splits)
  obtain c' where rr: "request_response dial sd buf DVRow w =
      andthen (recompute ?s) (\<lambda>(ch, s).
        andthen (if ch then dv_func dial ((put_sock w sd c')\<lparr>rs := s\<rparr>) else ret ((put_sock w sd c')\<lparr>rs := s\<rparr>))
          (\<lambda>w. ret (1, buf, row_bytes row, w)))"
    using request_response_DVMSG [OF wf n c rid row k(1,2) DVRow dvs, of dial buf] by blast
  obtain w' where w': "(if ch then dv_func dial ((put_sock w sd c')\<lparr>rs := s'\<rparr>) else ret ((put_sock w sd c')\<lparr>rs := s'\<rparr>)) = ret w'"
    "rs w' = s'" and socks: "\<forall>i < nR (rs w). lc (rs w) i \<noteq> -1 \<longrightarrow> (\<exists>x ci. router_sd (router_set (rs w) ! i) = Some x \<and>
       socks w x = Some ci \<and> socks w' x = Some (ci\<lparr>sent := sent ci @ (if ch then announcement s' else [])\<rparr>))"
    using announced_if_changed [OF up wf', of ch dial c'] L(3,5,6) by blast
  have "request_response dial sd buf DVRow w = ret (1, buf, row_bytes row, w')"
    using rr r ch w'(1) by simp
  then show ?thesis
    by (intro exI [of _ w'] conjI) (rule socks [unfolded ch_def, folded w'(2)] | simp add: w'(2) wf' row' L(2-4) cost)+
qed

end
