(* ===== verification/RouterConf.thy ===== *)
theory RouterConf
  imports RouterExchange
begin

text \<open>
  Starting the router (\<open>mapRLocation\<close>, \<open>mapTopology\<close> and the first lines of \<open>main\<close> in
  \<open>router/router.c\<close>): the two configuration files, read with \<open>fscanf\<close>, fill the global tables.
  A file that cannot be opened is \<open>None\<close>.
\<close>

section \<open>Addresses\<close>

text \<open>The text that is built from the four numbers of a line.\<close>

definition domain_text :: "int list \<Rightarrow> string" where
  "domain_text IP = show_int (IP ! 0) @ ''.'' @ show_int (IP ! 1) @ ''.'' @ show_int (IP ! 2) @ ''.''
     @ show_int (IP ! 3)"

section \<open>Router locations\<close>

text \<open>The tables right after they are allocated and initialised. Until a line is read, the cells
  of \<open>router_set\<close> hold nothing but \<open>linkCost\<close>; the loop below reads each cell before it is used.\<close>

definition init_tables :: "int \<Rightarrow> int \<Rightarrow> rstate" where
  "init_tables own_id n =
     \<lparr>ownRID = own_id, ownIndex = 0, numRouter = n, numDV = 0,
      connected = replicate (nat n) 0,
      router_set = replicate (nat n) \<lparr>ip = 0, port = 0, router_sd = None, RID = 0, linkCost = -1\<rparr>,
      DVTable = map (\<lambda>i. map (\<lambda>j. if i = j then 0 else -1) [0..<nat n]) [0..<nat n],
      rt_available = replicate (nat n) 0, routing_table = replicate (nat n) None\<rparr>"

text \<open>One line \<open>IP,port,RID\<close> per router. When a conversion fails, the cell that was to be filled
  is memory from \<open>malloc\<close>, and the comparison of \<open>RID\<close> with \<open>ownRID\<close> reads it.\<close>

fun location_loop :: "nat list \<Rightarrow> string \<Rightarrow> rstate \<Rightarrow> rstate run" where
  "location_loop [] f s = ret s"
| "location_loop (i # is) f s =
     (case scan_fields [CHR ''.'', CHR ''.'', CHR ''.'', CHR '','', CHR '',''] f of (fs, f) \<Rightarrow>
      if length fs < 6 then halt Uninitialised
      else
        andthen (aget (router_set s) (int i)) (\<lambda>r.
        andthen (aset (router_set s) (int i)
          (r\<lparr>port := word_of_int (fs ! 4), RID := fs ! 5, ip := inet_addr (domain_text fs)\<rparr>)) (\<lambda>t.
        location_loop is f
          (s\<lparr>router_set := t, ownIndex := (if fs ! 5 = ownRID s then int i else ownIndex s)\<rparr>))))"

definition mapRLocation :: "int \<Rightarrow> string option \<Rightarrow> rstate run" where
  "mapRLocation own_id file =
     (case file of None \<Rightarrow> halt (Exit 0)
      | Some f \<Rightarrow>
        (case (case scan_int f of None \<Rightarrow> (0, f) | Some (n, f) \<Rightarrow> (n, f)) of (n, f) \<Rightarrow>
           location_loop [0..<nat n] f (init_tables own_id n)))"

section \<open>Topology\<close>

text \<open>The three variables keep what an earlier line stored when a conversion fails; before the
  first they are uninitialised.\<close>

type_synonym edge_vars = "int option \<times> int option \<times> int option"

definition assign_edge :: "int list \<Rightarrow> edge_vars \<Rightarrow> edge_vars" where
  "assign_edge fs = (\<lambda>(a, b, c).
     (if 0 < length fs then Some (fs ! 0) else a,
      if 1 < length fs then Some (fs ! 1) else b,
      if 2 < length fs then Some (fs ! 2) else c))"

definition read_var :: "int option \<Rightarrow> int run" where
  "read_var v = (case v of None \<Rightarrow> halt Uninitialised | Some i \<Rightarrow> ret i)"

definition add_edge :: "rstate \<Rightarrow> int \<Rightarrow> int \<Rightarrow> int \<Rightarrow> rstate run" where
  "add_edge s s_id d_id cost =
     (let s_i = RID_to_Index s s_id; d_i = RID_to_Index s d_id
      in if s_id = ownRID s then
           andthen (dv_set s s_i d_i cost) (\<lambda>s.
           andthen (if cost \<noteq> -1 then setNextHop s d_i d_i cost else ret s) (\<lambda>s.
           andthen (aget (router_set s) d_i) (\<lambda>r.
           andthen (aset (router_set s) d_i (r\<lparr>linkCost := cost\<rparr>)) (\<lambda>t.
           ret (s\<lparr>router_set := t\<rparr>)))))
         else ret s)"

fun topology_loop :: "nat \<Rightarrow> string \<Rightarrow> edge_vars \<Rightarrow> rstate \<Rightarrow> rstate run" where
  "topology_loop 0 f v s = ret s"
| "topology_loop (Suc n) f v s =
     (case scan_fields [CHR '','', CHR '',''] f of (fs, f) \<Rightarrow>
      (case assign_edge fs v of (a, b, c) \<Rightarrow>
        andthen (read_var a) (\<lambda>s_id.
        andthen (read_var b) (\<lambda>d_id.
        if s_id = ownRID s then
          andthen (read_var c) (\<lambda>cost.
          andthen (add_edge s s_id d_id cost) (\<lambda>s. topology_loop n f (a, b, c) s))
        else topology_loop n f (a, b, c) s))))"

definition mapTopology :: "rstate \<Rightarrow> string option \<Rightarrow> rstate run" where
  "mapTopology s file =
     (case file of None \<Rightarrow> halt (Exit 0)
      | Some f \<Rightarrow> (case scan_int f of None \<Rightarrow> halt Uninitialised
          | Some (n, f) \<Rightarrow> topology_loop (nat n) f (None, None, None) s))"

text \<open>The start of \<open>main\<close>: \<open>argv[3]\<close> is the router's id.\<close>

definition router_start :: "string \<Rightarrow> string option \<Rightarrow> string option \<Rightarrow> rstate run" where
  "router_start arg3 location topology =
     andthen (mapRLocation (atoi arg3) location) (\<lambda>s. mapTopology s topology)"

section \<open>The state after the start\<close>

text \<open>After \<open>i\<close> lines: the arrays have their sizes, the own row knows no path, and \<open>ownIndex\<close> is
  the index of the own id if a line had it.\<close>

definition located :: "nat \<Rightarrow> rstate \<Rightarrow> bool" where
  "located i s \<longleftrightarrow> router_wf s \<and> (\<forall>d < nR s. d \<noteq> own s \<longrightarrow> dv s (own s) d = -1) \<and>
     DVTable s = map (\<lambda>i. map (\<lambda>j. if i = j then 0 else -1) [0..<nR s]) [0..<nR s] \<and>
     ((\<exists>k < i. RID (router_set s ! k) = ownRID s) \<longrightarrow> own s < i \<and> RID (router_set s ! own s) = ownRID s)"

lemma init_tables_located: "0 < n \<Longrightarrow> located 0 (init_tables own_id n)"
  by (auto simp: located_def init_tables_def router_wf_def list_all_length)

lemma located_row:
  "router_wf s \<Longrightarrow> DVTable s = map (\<lambda>i. map (\<lambda>j. if i = j then 0 else -1) [0..<nR s]) [0..<nR s]
    \<Longrightarrow> d < nR s \<Longrightarrow> d \<noteq> own s \<Longrightarrow> dv s (own s) d = -1"
  using router_wfD(2) [of s] by (auto simp: nth_map)

lemma location_loop_located:
  assumes "location_loop [i..<n] f s = ret s'" "located i s" "nR s = n" "i \<le> n"
  shows "located n s' \<and> ownRID s' = ownRID s \<and> numRouter s' = numRouter s"
  using assms
proof (induction "n - i" arbitrary: i f s)
  case 0
  then show ?case by simp
next
  case (Suc m)
  then have i: "i < n" by simp
  then have u: "[i..<n] = i # [Suc i..<n]" by (simp add: upt_conv_Cons)
  have wf: "router_wf s" and DV: "DVTable s = map (\<lambda>i. map (\<lambda>j. if i = j then 0 else -1) [0..<nR s]) [0..<nR s]"
    using Suc.prems(2) by (auto simp: located_def)
  obtain fs f' where sc: "scan_fields [CHR ''.'', CHR ''.'', CHR ''.'', CHR '','', CHR '',''] f = (fs, f')"
    by (metis surj_pair)
  let ?r = "(router_set s ! i)\<lparr>port := word_of_int (fs ! 4), RID := fs ! 5, ip := inet_addr (domain_text fs)\<rparr>"
  let ?s1 = "s\<lparr>router_set := (router_set s)[i := ?r],
      ownIndex := (if fs ! 5 = ownRID s then int i else ownIndex s)\<rparr>"
  have "aget (router_set s) (int i) = ret (router_set s ! i)"
    "aset (router_set s) (int i) ?r = ret ((router_set s)[i := ?r])"
    using i Suc.prems(3) router_wfD(5) [OF wf] by simp_all
  with Suc.prems(1) u sc have l: "location_loop [Suc i..<n] f' ?s1 = ret s'"
    by (auto split: if_splits)
  have wf1: "router_wf ?s1"
    using wf i Suc.prems(3) by (auto simp: router_wf_def)
  have "located (Suc i) ?s1"
    using Suc.prems(2,3) i wf1 located_row [OF wf1] DV router_wfD(5) [OF wf]
    by (auto simp: located_def nth_list_update less_Suc_eq)
  from Suc.hyps(1) [OF _ l this] Suc.hyps(2) Suc.prems(3) i show ?case by simp
qed

lemma dv_set_ret:
  assumes "dv_set s i j v = ret s'" "router_wf s"
  obtains k d where "i = int k" "j = int d" "k < nR s" "d < nR s"
    "s' = s\<lparr>DVTable := (DVTable s)[k := (DVTable s ! k)[d := v]]\<rparr>" "router_wf s'"
proof -
  note wf = router_wfD [OF assms(2)]
  from assms(1) have i: "0 \<le> i" "nat i < nR s" and j: "0 \<le> j" "j < int (length (DVTable s ! nat i))"
    and s': "s' = s\<lparr>DVTable := (DVTable s)[nat i := (DVTable s ! nat i)[nat j := v]]\<rparr>"
    using wf(6,10) by (auto simp: dv_set_def aget_ret aset_ret)
  then have jn: "nat j < nR s" using wf(9) [OF i(2)] wf(10) by simp
  have "router_wf s'"
    unfolding s' using assms(2) i by (auto simp: router_wf_def list_all_length nth_list_update)
  with that [of "nat i" "nat j"] i j jn s' show thesis by simp
qed

lemma setNextHop_ret:
  assumes "setNextHop s (int d) nh c = ret s'" "router_wf s" "d < nR s"
  shows "router_wf s' \<and> (\<exists>e. s' = s\<lparr>rt_available := (rt_available s)[d := 1],
     routing_table := (routing_table s)[d := Some e]\<rparr> \<and> dest_RID e = RID (router_set s ! d) \<and> pathCost e = c)"
  using assms router_wfD(7,8) [OF assms(2)] index_to_RID_wf [OF assms(2,3)]
  by (auto simp: setNextHop_def router_wf_def)

lemma add_edge_ok:
  assumes "add_edge s s_id d_id c = ret s'" "tables_ok s" "RID_to_Index s (ownRID s) \<in> {-1, ownIndex s}"
  shows "tables_ok s' \<and> ownRID s' = ownRID s \<and> ownIndex s' = ownIndex s \<and> numRouter s' = numRouter s \<and>
    map RID (router_set s') = map RID (router_set s)"
proof (cases "s_id = ownRID s")
  case False
  with assms show ?thesis by (simp add: add_edge_def)
next
  case True
  from assms(2) have wf: "router_wf s" and rm: "routes_match s" by (auto simp: tables_ok_def)
  from assms(1) True obtain s1 s2 r t where
    1: "dv_set s (RID_to_Index s (ownRID s)) (RID_to_Index s d_id) c = ret s1" and
    2: "(if c \<noteq> -1 then setNextHop s1 (RID_to_Index s d_id) (RID_to_Index s d_id) c else ret s1) = ret s2" and
    3: "aget (router_set s2) (RID_to_Index s d_id) = ret r"
       "aset (router_set s2) (RID_to_Index s d_id) (r\<lparr>linkCost := c\<rparr>) = ret t" and
    4: "s' = s2\<lparr>router_set := t\<rparr>"
    by (auto simp: add_edge_def Let_def)
  from dv_set_ret [OF 1 wf] obtain k d where k: "RID_to_Index s (ownRID s) = int k"
    "RID_to_Index s d_id = int d" "k < nR s" "d < nR s"
    "s1 = s\<lparr>DVTable := (DVTable s)[k := (DVTable s ! k)[d := c]]\<rparr>" "router_wf s1" by blast
  with assms(3) have own: "k = own s" by auto
  note wfs = router_wfD [OF wf]
  have s2: "router_wf s2 \<and> router_set s2 = router_set s \<and> (if c = -1 then s2 = s1 else
      (\<exists>e. s2 = s1\<lparr>rt_available := (rt_available s)[d := 1],
     routing_table := (routing_table s)[d := Some e]\<rparr> \<and> dest_RID e = RID (router_set s ! d) \<and> pathCost e = c))"
    using 2 k setNextHop_ret [of s1 d "int d" c s2] by (auto split: if_splits)
  then have l2: "length (router_set s2) = nR s" using wfs by simp
  with 3 k s2 have t: "t = (router_set s)[d := (router_set s ! d)\<lparr>linkCost := c\<rparr>]"
    by (simp add: k(2) l2)
  have m: "map RID t = map RID (router_set s)"
    unfolding t by (simp add: map_update list_update_same_conv k(4) wfs)
  have RID: "RID (t ! x) = RID (router_set s ! x)" if "x < nR s" for x
    using m that wfs(5) by (metis length_map nth_map)
  have nR: "numRouter s2 = numRouter s" "ownIndex s2 = ownIndex s" "ownRID s2 = ownRID s"
    using s2 k(5) by (auto split: if_splits)
  have "router_wf s'"
    using s2 nR t unfolding 4 by (auto simp: router_wf_def)
  moreover have "routes_match s'"
    using rm s2 k(3,4,5) own RID nR wfs(2,6,7,8,9)
    unfolding 4 routes_match_def by (auto simp: nth_list_update split: if_splits)
  ultimately show ?thesis using m nR by (simp add: 4 tables_ok_def)
qed

lemma RID_scan_map: "map RID xs = map RID ys \<Longrightarrow> RID_scan xs x i = RID_scan ys x i"
proof (induction xs arbitrary: ys i)
  case (Cons r xs)
  then obtain q zs where "ys = q # zs" "RID q = RID r" "map RID xs = map RID zs"
    by (cases ys) simp_all
  then show ?case using Cons.IH [of zs] by simp
qed simp

lemma topology_loop_ok:
  assumes "topology_loop n f v s = ret s'" "tables_ok s" "RID_to_Index s (ownRID s) \<in> {-1, ownIndex s}"
  shows "tables_ok s' \<and> numRouter s' = numRouter s \<and> map RID (router_set s') = map RID (router_set s)"
  using assms
proof (induction n f v s rule: topology_loop.induct)
  case (1 f v s)
  then show ?case by simp
next
  case (2 n f v s)
  obtain fs f' where sc: "scan_fields [CHR '','', CHR '',''] f = (fs, f')" by (metis surj_pair)
  obtain a b c where v: "assign_edge fs v = (a, b, c)" by (metis prod_cases3)
  from "2.prems"(1) sc v obtain s_id d_id where ab: "read_var a = ret s_id" "read_var b = ret d_id" 
    and k: "(if s_id = ownRID s then
          andthen (read_var c) (\<lambda>cost.
          andthen (add_edge s s_id d_id cost) (\<lambda>s. topology_loop n f' (a, b, c) s))
        else topology_loop n f' (a, b, c) s) = ret s'" by auto
  show ?case
  proof (cases "s_id = ownRID s")
    case False
    with k "2.IH"(2) [OF sc [symmetric] v [symmetric] refl False] "2.prems"(2,3) ab show ?thesis
      by auto
  next
    case True
    with k obtain cost s1 where c: "read_var c = ret cost" "add_edge s s_id d_id cost = ret s1"
      "topology_loop n f' (a, b, c) s1 = ret s'" by auto
    from add_edge_ok [OF c(2) "2.prems"(2,3)] have s1: "tables_ok s1" "ownRID s1 = ownRID s"
      "ownIndex s1 = ownIndex s" "numRouter s1 = numRouter s" "map RID (router_set s1) = map RID (router_set s)"
      by auto
    have "RID_to_Index s1 (ownRID s1) = RID_to_Index s (ownRID s)"
      unfolding RID_to_Index_def s1 by (rule RID_scan_map) (metis s1(5) take_map)
    with s1 "2.prems"(3) have o: "RID_to_Index s1 (ownRID s1) \<in> {-1, ownIndex s1}" by simp
    from "2.IH"(1) [OF sc [symmetric] v [symmetric] refl True c(3) s1(1) o] s1 show ?thesis by simp
  qed
qed

lemma table_update_frame:
  "dv_set s i j v = ret s' \<Longrightarrow> numRouter s' = numRouter s \<and> router_set s' = router_set s"
  "setNextHop s i j v = ret s' \<Longrightarrow> numRouter s' = numRouter s \<and> router_set s' = router_set s"
  by (auto simp: dv_set_def setNextHop_def)

lemma add_edge_frame:
  assumes "add_edge s s_id d_id c = ret s'"
  shows "numRouter s' = numRouter s \<and> map RID (router_set s') = map RID (router_set s)"
proof (cases "s_id = ownRID s")
  case True
  with assms obtain s1 s2 r t where
    s1: "dv_set s (RID_to_Index s s_id) (RID_to_Index s d_id) c = ret s1" and
    s2: "(if c \<noteq> -1 then setNextHop s1 (RID_to_Index s d_id) (RID_to_Index s d_id) c else ret s1) = ret s2" and
    3: "aget (router_set s2) (RID_to_Index s d_id) = ret r"
       "aset (router_set s2) (RID_to_Index s d_id) (r\<lparr>linkCost := c\<rparr>) = ret t" and
    4: "s' = s2\<lparr>router_set := t\<rparr>"
    by (auto simp: add_edge_def Let_def)
  from table_update_frame(1) [OF s1] s2 table_update_frame(2) [of s1]
  have "numRouter s2 = numRouter s" "router_set s2 = router_set s"
    by (auto split: if_splits)
  with 3 4 show ?thesis
    by (auto simp: aget_ret aset_ret map_update intro!: nth_equalityI simp: nth_list_update)
qed (use assms in \<open>simp add: add_edge_def\<close>)

lemma topology_loop_frame:
  "topology_loop n f v s = ret s' \<Longrightarrow> numRouter s' = numRouter s \<and> map RID (router_set s') = map RID (router_set s)"
proof (induction n f v s rule: topology_loop.induct)
  case (2 n f v s)
  then show ?case
    by (auto dest!: add_edge_frame split: prod.splits if_splits)
qed simp

lemma router_start_ok:
  assumes "router_start a loc topo = ret s" "0 < numRouter s" "distinct (map RID (router_set s))"
  shows "tables_ok s"
proof -
  from assms(1) obtain s0 where s0: "mapRLocation (atoi a) loc = ret s0" "mapTopology s0 topo = ret s"
    by (auto simp: router_start_def)
  from s0(1) obtain n f where l: "location_loop [0..<nat n] f (init_tables (atoi a) n) = ret s0"
    unfolding mapRLocation_def by (cases loc) (auto split: prod.splits)
  from s0(2) obtain m g where t: "topology_loop m g (None, None, None) s0 = ret s"
    by (auto simp: mapTopology_def split: option.splits)
  have n0: "numRouter s0 = n" if "location_loop is f s1 = ret s0" "numRouter s1 = n" for "is" f s1
    using that by (induction "is" f s1 rule: location_loop.induct) (auto split: prod.splits if_splits)
  have n: "numRouter s0 = n" "0 < n"
    using n0 [OF l] topology_loop_frame [OF t] assms(2) by (simp_all add: init_tables_def)
  have loc: "located (nR s0) s0"
    using location_loop_located [OF l init_tables_located [OF n(2)]] n by (simp add: init_tables_def)
  then have wf: "router_wf s0" and dv: "\<forall>d < nR s0. d \<noteq> own s0 \<longrightarrow> dv s0 (own s0) d = -1"
    by (auto simp: located_def)
  then have ok: "tables_ok s0" unfolding tables_ok_def routes_match_def by blast
  show ?thesis
  proof (cases "RID_to_Index s0 (ownRID s0) \<in> {-1, ownIndex s0}")
    case True
    from topology_loop_ok [OF t ok True] show ?thesis by simp
  next
    case False
    show ?thesis
      using wf
    proof (cases rule: RID_to_Index_cases [where rid = "ownRID s0"])
      case missing
      with False show ?thesis by simp
    next
      case (found k)
      then have "RID (router_set s0 ! own s0) = ownRID s0" "k \<noteq> own s0"
        using loc False router_wfD(1) [OF wf] by (auto simp: located_def)
      moreover have "distinct (map RID (router_set s0))"
        using topology_loop_frame [OF t] assms(3) by simp
      ultimately show ?thesis
        using found(1,3) router_wfD(2,5) [OF wf] by (metis length_map nth_eq_iff_index_eq nth_map)
    qed
  qed
qed

end
