(* ===== verification/RouterSpec.thy ===== *)
theory RouterSpec
  imports RouterConf
begin

text \<open>
  The properties of the router: what a recomputation yields, what stays true over every sequence
  of requests, what goes over the wire between two routers, and where the code departs from a
  distance-vector router. The witnesses run on the topology of the repository (\<open>router/RL.txt\<close>
  and \<open>router/TC.txt\<close>): router 1 with links of cost 2 and 7 to routers 2 and 3.
\<close>

section \<open>The topology of the repository\<close>

definition demo_link :: "int \<Rightarrow> int \<Rightarrow> int option \<Rightarrow> Router" where
  "demo_link rid cost sd = \<lparr>ip = 16777343, port = 13001, router_sd = sd, RID = rid, linkCost = cost\<rparr>"

definition demo_entry :: "int \<Rightarrow> int \<Rightarrow> int \<Rightarrow> Entry option" where
  "demo_entry d h c = Some \<lparr>dest_RID = d, nextHop_RID = h, pathCost = c\<rparr>"

text \<open>Router 1 after both neighbours have announced their rows, and before it recomputes.\<close>

definition demo :: rstate where
  "demo = \<lparr>ownRID = 1, ownIndex = 0, numRouter = 3, numDV = 2, connected = [0, 1, 1],
     router_set = [demo_link 1 (-1) None, demo_link 2 2 (Some 4), demo_link 3 7 (Some 5)],
     DVTable = [[0, 2, 7], [2, 0, 1], [7, 1, 0]], rt_available = [0, 1, 1],
     routing_table = [None, demo_entry 2 2 2, demo_entry 3 3 7]\<rparr>"

lemmas demo_defs = demo_def demo_link_def demo_entry_def

lemma all_less_3: "(\<forall>k < 3 :: nat. P k) \<longleftrightarrow> P 0 \<and> P 1 \<and> P 2"
  by (auto simp: numeral_eq_Suc less_Suc_eq)

lemma demo_wf: "router_wf demo"
  by (simp add: router_wf_def demo_defs)

lemma demo_bounded: "costs_bounded demo"
  by (simp add: costs_bounded_def demo_defs all_less_3)

section \<open>Recomputation\<close>

text \<open>on well-formed tables with non-negative path costs, \<open>min_DV\<close> returns the first
  neighbour of least link cost plus announced cost together with that cost, and \<open>-1\<close> twice when
  no neighbour offers a path cheaper than 10000.\<close>

theorem min_DV_least:
  assumes "router_wf s" "costs_bounded s" "d < nR s"
    and "\<forall>k. eligible s d k \<longrightarrow> 0 \<le> via_cost s d k"
  shows "\<exists>NH mn. min_DV s (int d) = ret (NH, mn) \<and>
     ((NH = -1 \<and> mn = -1 \<and> (\<forall>k. eligible s d k \<longrightarrow> 10000 \<le> via_cost s d k)) \<or>
      (\<exists>k. NH = int k \<and> eligible s d k \<and> mn = via_cost s d k \<and> mn < 10000 \<and>
         (\<forall>j. eligible s d j \<longrightarrow> mn \<le> via_cost s d j \<and> (j < k \<longrightarrow> mn < via_cost s d j))))"
proof (rule best_cases [of s d "fst (best s d)" "snd (best s d)"])
  assume n: "fst (best s d) = -1" "snd (best s d) = -1" "\<forall>k. eligible s d k \<longrightarrow> via_cost s d k \<ge> 10000 \<or>
              (\<exists>j. eligible s d j \<and> via_cost s d j = -1)"
  have "via_cost s d j \<noteq> -1" if "eligible s d j" for j
    using assms(4) that by fastforce
  with n(3) have "\<forall>k. eligible s d k \<longrightarrow> 10000 \<le> via_cost s d k" by blast
  moreover have "min_DV s (int d) = ret (-1, -1)"
    using min_DV_best [OF assms(1-3)] n(1,2) by (simp add: prod_eq_iff)
  ultimately show ?thesis by blast
next
  fix k
  assume k: "fst (best s d) = int k" "eligible s d k" "snd (best s d) = via_cost s d k"
    "snd (best s d) < 10000" "\<forall>j. eligible s d j \<longrightarrow> snd (best s d) \<le> via_cost s d j \<and>
      (j < k \<longrightarrow> snd (best s d) < via_cost s d j)"
  have "min_DV s (int d) = ret (int k, via_cost s d k)"
    using min_DV_best [OF assms(1-3)] k(1,3) by (simp add: prod_eq_iff)
  with k show ?thesis by auto
qed simp

theorem min_DV_least_witness:
  "min_DV demo 2 = ret (1, 3) \<and> (\<exists>k. eligible demo 2 k \<and> via_cost demo 2 k = 3)"
proof -
  have e: "\<forall>k. eligible demo 2 k \<longrightarrow> 0 \<le> via_cost demo 2 k"
    by (auto simp: eligible_def via_cost_def demo_defs numeral_eq_Suc less_Suc_eq)
  have "2 < nR demo" by (simp add: demo_defs)
  from min_DV_least [OF demo_wf demo_bounded this e] obtain NH mn where
    m: "min_DV demo (int 2) = ret (NH, mn)" by blast
  moreover have v: "min_DV demo 2 = ret (1, 3)" by code_simp
  moreover have "eligible demo 2 1 \<and> via_cost demo 2 1 = 3"
    by (simp add: eligible_def via_cost_def demo_defs)
  ultimately show ?thesis by blast
qed

text \<open>The Bellman-Ford cost of a destination: the least sum of the cost of the link to a neighbour and the cost the neighbour
  announced, when it is below 10000, and \<open>-1\<close> otherwise. With bounded costs the sums are never negative, and \<open>best\<close> is it.\<close>

definition least_via :: "rstate \<Rightarrow> nat \<Rightarrow> int \<Rightarrow> bool" where
  "least_via s d v \<longleftrightarrow>
     (if \<exists>k. eligible s d k \<and> via_cost s d k < 10000
      then (\<exists>k. eligible s d k \<and> via_cost s d k = v) \<and> (\<forall>k. eligible s d k \<longrightarrow> v \<le> via_cost s d k)
      else v = -1)"

lemma via_cost_nonneg: "costs_bounded s \<Longrightarrow> d < nR s \<Longrightarrow> eligible s d k \<Longrightarrow> 0 \<le> via_cost s d k"
  using costs_boundedD(1) [of s k] costs_boundedD(3) [of s k d] by (auto simp: eligible_def via_cost_def)

lemma best_is_least_via:
  assumes "costs_bounded s" "d < nR s"
  shows "least_via s d (snd (best s d))"
proof (rule best_cases [of s d "fst (best s d)" "snd (best s d)"])
  assume n: "snd (best s d) = -1" "\<forall>k. eligible s d k \<longrightarrow> via_cost s d k \<ge> 10000 \<or> (\<exists>j. eligible s d j \<and> via_cost s d j = -1)"
  then have "\<forall>k. eligible s d k \<longrightarrow> 10000 \<le> via_cost s d k" using via_cost_nonneg [OF assms] by fastforce
  with n(1) show ?thesis by (force simp: least_via_def)
next
  fix k
  assume "eligible s d k" "snd (best s d) = via_cost s d k" "snd (best s d) < 10000"
    "\<forall>j. eligible s d j \<longrightarrow> snd (best s d) \<le> via_cost s d j \<and> (j < k \<longrightarrow> snd (best s d) < via_cost s d j)"
  then show ?thesis by (auto simp: least_via_def)
qed simp

lemma best_hop:
  assumes "snd (best s d) \<noteq> -1"
  obtains k where "fst (best s d) = int k" "eligible s d k" "snd (best s d) = via_cost s d k"
  using best_cases [of s d "fst (best s d)" "snd (best s d)"] assms by (metis prod.collapse)

text \<open>C1: a recomputation replaces the router's own row by the Bellman-Ford row: the cost of every
  destination but the router itself becomes the least sum of a link's cost and the neighbour's announced cost, or \<open>-1\<close>
  when no neighbour offers a sum below 10000. A destination whose cost changed to a finite one gets a routing entry with
  that cost over a neighbour that attains it. No row of another router and no link changes, and a change is reported
  exactly when some cost changed.\<close>

theorem recompute_bellman_ford:
  assumes "router_wf s" "costs_bounded s"
  shows "\<exists>s'. recompute s = ret (\<exists>d < nR s. dv s' (own s) d \<noteq> dv s (own s) d, s') \<and> router_wf s' \<and>
     router_set s' = router_set s \<and>
     (\<forall>k < nR s. k \<noteq> own s \<longrightarrow> DVTable s' ! k = DVTable s ! k) \<and>
     (\<forall>d < nR s. d \<noteq> own s \<longrightarrow>
        least_via s d (dv s' (own s) d) \<and>
        (dv s' (own s) d \<noteq> dv s (own s) d \<longrightarrow> dv s' (own s) d \<noteq> -1 \<longrightarrow> rt_available s' ! d = 1 \<and>
           (\<exists>k. eligible s d k \<and> dv s' (own s) d = via_cost s d k \<and>
              routing_table s' ! d = Some \<lparr>dest_RID = RID (router_set s ! d), nextHop_RID = RID (router_set s ! k),
                pathCost = dv s' (own s) d\<rparr>))) \<and>
     dv s' (own s) (own s) = dv s (own s) (own s)"
proof (rule recompute_spec [OF assms])
  fix s'
  assume r: "recompute s = ret (\<exists>d < nR s. d \<noteq> own s \<and> snd (best s d) \<noteq> dv s (own s) d, s')"
    and c: "recomputed s {0..<nR s} s'"
  then have dv': "dv s' (own s) d = (if d \<noteq> own s then snd (best s d) else dv s (own s) d)" if "d < nR s" for d
    using that by (auto simp: recomputed_def)
  have "(dv s' (own s) d \<noteq> dv s (own s) d) = (d \<noteq> own s \<and> snd (best s d) \<noteq> dv s (own s) d)" if "d < nR s" for d
    using dv' that by simp
  then have "(\<exists>d < nR s. dv s' (own s) d \<noteq> dv s (own s) d) = (\<exists>d < nR s. d \<noteq> own s \<and> snd (best s d) \<noteq> dv s (own s) d)"
    by blast
  moreover have "least_via s d (dv s' (own s) d)" if "d < nR s" "d \<noteq> own s" for d
    using best_is_least_via [OF assms(2) that(1)] dv' that by simp
  moreover have "rt_available s' ! d = 1 \<and> (\<exists>k. eligible s d k \<and> dv s' (own s) d = via_cost s d k \<and>
      routing_table s' ! d = Some \<lparr>dest_RID = RID (router_set s ! d), nextHop_RID = RID (router_set s ! k), pathCost = dv s' (own s) d\<rparr>)"
    if d: "d < nR s" "d \<noteq> own s" and ch: "dv s' (own s) d \<noteq> dv s (own s) d" "dv s' (own s) d \<noteq> -1" for d
  proof -
    have e: "dv s' (own s) d = snd (best s d)" using dv' d by simp
    with ch(2) obtain k where k: "fst (best s d) = int k" "eligible s d k" "snd (best s d) = via_cost s d k"
      using best_hop [of s d] by metis
    with c d ch(1) e have "rt_available s' ! d = 1 \<and> routing_table s' ! d = Some (best_entry s d)" by (auto simp: recomputed_def)
    with e k show ?thesis by (auto simp: best_entry_def)
  qed
  moreover have "router_wf s'" "router_set s' = router_set s" "\<forall>k < nR s. k \<noteq> own s \<longrightarrow> DVTable s' ! k = DVTable s ! k"
    using c by (simp_all add: recomputed_def same_links_def)
  ultimately show ?thesis
    using r dv' [OF router_wfD(2) [OF assms(1)]] by (intro exI [of _ s'] conjI) simp_all
qed

theorem recompute_bellman_ford_witness:
  "\<exists>s'. recompute demo = ret (True, s') \<and> DVTable s' = [[0, 2, 3], [2, 0, 1], [7, 1, 0]] \<and> dv s' 0 2 = lc demo 1 + dv demo 1 2"
proof -
  from recompute_bellman_ford [OF demo_wf demo_bounded] obtain s' where
    s': "recompute demo = ret (\<exists>d < nR demo. dv s' (own demo) d \<noteq> dv demo (own demo) d, s')"
    by blast
  have "andthen (recompute demo) (\<lambda>(ch, t). ret (ch, DVTable t))
      = ret (True, [[0, 2, 3], [2, 0, 1], [7, 1, 0]])" by code_simp
  with s' show ?thesis by (auto simp: demo_defs)
qed

text \<open>recomputing is idempotent. A second recomputation, with no message in between, changes
  nothing and reports no change, so a router never announces the same row twice in a row.\<close>

theorem recompute_idempotent:
  assumes "router_wf s" "costs_bounded s" "recompute s = ret (ch, s')"
  shows "recompute s' = ret (False, s')"
proof -
  note r = recompute_ret [OF assms(1,3)]
  then have wf: "router_wf s'" and l: "same_links s s'" by (auto simp: recomputed_def)
  have f: "own s' = own s" "nR s' = nR s" using same_linksD [OF l] by auto
  have same: "d \<noteq> own s \<Longrightarrow> d < nR s \<Longrightarrow> snd (best s' d) = dv s' (own s') d" for d
    using r(2) best_same_links [OF l] f by (auto simp: recomputed_def)
  show ?thesis
  proof (rule recompute_spec [OF wf costs_bounded_same_links [OF l assms(2)]])
    fix t
    assume t: "recompute s' = ret (\<exists>d < nR s'. d \<noteq> own s' \<and> snd (best s' d) \<noteq> dv s' (own s') d, t)"
      and c: "recomputed s' {0..<nR s'} t"
    have no: "(\<exists>d < nR s'. d \<noteq> own s' \<and> snd (best s' d) \<noteq> dv s' (own s') d) = False"
      using same f by auto
    have "t = s'" by (rule recomputed_unchanged [OF wf c]) (use no in blast)
    with t no show ?thesis by simp
  qed
qed

theorem recompute_idempotent_witness:
  "\<exists>s'. recompute demo = ret (True, s') \<and> recompute s' = ret (False, s')"
proof -
  have "andthen (recompute demo) (\<lambda>(ch, t). ret ch) = ret True" by code_simp
  then obtain s' where s': "recompute demo = ret (True, s')" by auto
  with recompute_idempotent [OF demo_wf demo_bounded s'] show ?thesis by blast
qed


section \<open>Entries that a recomputation leaves alone\<close>

text \<open>a destination whose least cost is unchanged keeps its routing entry, whatever neighbour
  that cost now goes through: the entry can name a next hop that no longer has the cost.\<close>

theorem recompute_keeps_entry_on_same_cost:
  assumes "router_wf s" "recompute s = ret (ch, s')" "d < nR s"
    and "snd (best s d) = dv s (own s) d"
  shows "routing_table s' ! d = routing_table s ! d \<and> dv s' (own s) d = dv s (own s) d"
proof -
  note c = recompute_ret(2) [OF assms(1,2)]
  have "\<not> (d \<in> {0..<nR s} \<and> d \<noteq> own s \<and> snd (best s d) \<noteq> dv s (own s) d \<and> fst (best s d) \<noteq> -1)"
    using assms(4) by blast
  then have "routing_table s' ! d = routing_table s ! d"
    using recomputed_entry [OF c assms(3)] by (simp only: if_False)
  moreover have "dv s' (own s) d = dv s (own s) d"
    using recomputed_cost [OF c assms(3)] assms(4) by simp
  ultimately show ?thesis ..
qed

text \<open>Router 3 was reached directly at cost 3; the link grows to 7 in the same moment as router 2
  offers cost 3. The entry still sends packets over the link of cost 7.\<close>

definition demo_tie :: rstate where
  "demo_tie = demo\<lparr>DVTable := [[0, 2, 3], [2, 0, 1], [7, 1, 0]],
     routing_table := [None, demo_entry 2 2 2, demo_entry 3 3 3]\<rparr>"

lemma demo_tie_wf: "router_wf demo_tie"
  by (simp add: router_wf_def demo_tie_def demo_defs)

lemma demo_tie_recompute: "\<exists>s'. recompute demo_tie = ret (False, s')"
proof -
  have "andthen (recompute demo_tie) (\<lambda>(ch, t). ret ch) = ret False" by code_simp
  then show ?thesis by auto
qed

theorem recompute_keeps_entry_on_same_cost_witness:
  "\<exists>s'. recompute demo_tie = ret (False, s') \<and> min_DV demo_tie 2 = ret (1, 3) \<and>
     index_to_RID demo_tie 1 = ret 2 \<and> routing_table s' ! 2 = demo_entry 3 3 3"
proof -
  obtain s' where s': "recompute demo_tie = ret (False, s')" using demo_tie_recompute by blast
  have b: "best demo_tie 2 = (1, 3)" by code_simp
  have "dv demo_tie (own demo_tie) 2 = 3" "2 < nR demo_tie" by (simp_all add: demo_tie_def demo_defs)
  then have "2 < nR demo_tie" "snd (best demo_tie 2) = dv demo_tie (own demo_tie) 2"
    by (simp_all only: b snd_conv)
  from recompute_keeps_entry_on_same_cost [OF demo_tie_wf s' this]
  have "routing_table s' ! 2 = demo_entry 3 3 3" by (simp add: demo_tie_def)
  moreover have "min_DV demo_tie 2 = ret (1, 3)" "index_to_RID demo_tie 1 = ret 2" by code_simp+
  ultimately show ?thesis using s' by blast
qed

text \<open>when a destination is no longer reachable, the own row says so, but the routing table keeps
  its entry and the entry stays marked as available.\<close>

theorem recompute_keeps_lost_route:
  assumes "router_wf s" "recompute s = ret (ch, s')" "d < nR s" "d \<noteq> own s" "best s d = (-1, -1)"
  shows "dv s' (own s) d = -1 \<and> rt_available s' ! d = rt_available s ! d \<and>
     routing_table s' ! d = routing_table s ! d"
proof -
  note c = recompute_ret(2) [OF assms(1,2)]
  have "\<not> (d \<in> {0..<nR s} \<and> d \<noteq> own s \<and> snd (best s d) \<noteq> dv s (own s) d \<and> fst (best s d) \<noteq> -1)"
    using assms(5) by simp
  then have "rt_available s' ! d = rt_available s ! d \<and> routing_table s' ! d = routing_table s ! d"
    using recomputed_entry [OF c assms(3)] by (simp only: if_False)
  moreover have "dv s' (own s) d = -1"
    using recomputed_cost [OF c assms(3)] assms(3-5) by simp
  ultimately show ?thesis by blast
qed

text \<open>Both links of router 1 have gone.\<close>

definition demo_cut :: rstate where
  "demo_cut = demo\<lparr>router_set := [demo_link 1 (-1) None, demo_link 2 (-1) (Some 4), demo_link 3 (-1) (Some 5)]\<rparr>"

theorem recompute_keeps_lost_route_witness:
  "\<exists>s'. recompute demo_cut = ret (True, s') \<and> dv s' 0 2 = -1 \<and> rt_available s' ! 2 = 1 \<and>
     routing_table s' ! 2 = demo_entry 3 3 7"
proof -
  have "andthen (recompute demo_cut) (\<lambda>(ch, t). ret ch) = ret True" by code_simp
  then obtain s' where s': "recompute demo_cut = ret (True, s')" by auto
  have wf: "router_wf demo_cut" by (simp add: router_wf_def demo_cut_def demo_defs)
  have n: "2 < nR demo_cut" "2 \<noteq> own demo_cut" "own demo_cut = 0" "rt_available demo_cut ! 2 = 1"
    "routing_table demo_cut ! 2 = demo_entry 3 3 7"
    by (simp_all add: demo_cut_def demo_defs)
  have b: "best demo_cut 2 = (-1, -1)" by code_simp
  from recompute_keeps_lost_route [OF wf s' n(1,2) b] s' n(3-5) show ?thesis by auto
qed

section \<open>The printed table\<close>

text \<open>One line per destination marked as available, in the order of the indices.\<close>

definition entry_line :: "Entry \<Rightarrow> string" where
  "entry_line e = show_int (dest_RID e) @ '' '' @ show_int (nextHop_RID e) @ '' '' @
     show_int (pathCost e) @ '' '' @ [CHR 0x0A]"

definition table_text :: "rstate \<Rightarrow> nat list \<Rightarrow> string" where
  "table_text s ds = concat (map (\<lambda>d. if rt_available s ! d = 1 then
     (case routing_table s ! d of None \<Rightarrow> [] | Some e \<Rightarrow> entry_line e) else []) ds)"

lemma gen_RTable_loop_text:
  assumes "router_wf s" "\<forall>d \<in> set ds. d < nR s \<and> (rt_available s ! d = 1 \<longrightarrow> routing_table s ! d \<noteq> None)"
  shows "gen_RTable_loop s ds buf = ret (buf @ table_text s ds)"
  using assms(2)
proof (induction ds arbitrary: buf)
  case (Cons d ds)
  then have d: "d < nR s" and IH: "\<And>buf. gen_RTable_loop s ds buf = ret (buf @ table_text s ds)"
    and e: "rt_available s ! d = 1 \<Longrightarrow> \<exists>e. routing_table s ! d = Some e" by auto
  then show ?case
    using router_wfD(7,8) [OF assms(1)] by (auto simp: table_text_def entry_line_def IH)
qed (simp add: table_text_def)

text \<open>when every available destination has an entry and the text fits the buffer, the table
  sent to an agent has exactly one line \<open>dest nextHop cost\<close> for each available destination.\<close>

theorem gen_RTable_lists_available:
  assumes "router_wf s" "\<forall>d < nR s. rt_available s ! d = 1 \<longrightarrow> routing_table s ! d \<noteq> None"
    and "length (table_text s [0..<nR s]) < 100000"
  shows "gen_RTable s = ret (table_text s [0..<nR s])"
  using gen_RTable_loop_text [OF assms(1), of "[0..<nR s]" "[]"] assms(2,3)
  by (simp add: gen_RTable_def)

theorem gen_RTable_lists_available_witness:
  "gen_RTable demo = ret (''2 2 2 '' @ [CHR 0x0A] @ ''3 3 7 '' @ [CHR 0x0A])"
proof -
  have u: "[0..<3] = [0, 1, 2 :: nat]" by (simp add: upt_rec)
  have t: "table_text demo [0..<nR demo] = ''2 2 2 '' @ [CHR 0x0A] @ ''3 3 7 '' @ [CHR 0x0A]"
    by (simp add: table_text_def entry_line_def demo_defs u show_int_def show_nat.simps digit_def char_of_def bit_0)
  have "\<forall>d < nR demo. rt_available demo ! d = 1 \<longrightarrow> routing_table demo ! d \<noteq> None"
    by (simp add: demo_defs all_less_3)
  from gen_RTable_lists_available [OF demo_wf this] t show ?thesis by simp
qed

section \<open>Link updates\<close>

text \<open>\<open>UPDATE\<close> for a known router replaces the cost of the link to it (1000 means that the link
  is gone), leaves every other link alone, and the own row is the Bellman-Ford row of the new links
  before the next message is served.\<close>

theorem update_func_installs_cost:
  assumes "router_wf s" "costs_bounded s" "-1 \<le> v" "v \<le> 1000000000"
    and "RID_to_Index s d_id = int k" "k < nR s"
  shows "\<exists>s'. update_func s s_id d_id v = ret s' \<and> lc s' k = (if v = 1000 then -1 else v) \<and>
     (\<forall>j < nR s. j \<noteq> k \<longrightarrow> router_set s' ! j = router_set s ! j) \<and>
     (\<forall>d < nR s. d \<noteq> own s \<longrightarrow> min_DV s' (int d) = ret (fst (best s' d), dv s' (own s) d))"
proof -
  define c where "c = (if v = 1000 then -1 else v)"
  define s1 where "s1 = s\<lparr>router_set := (router_set s)[k := (router_set s ! k)\<lparr>linkCost := c\<rparr>]\<rparr>"
  have len: "k < length (router_set s)" using assms(6) router_wfD(5) [OF assms(1)] by simp
  have wf1: "router_wf s1" using assms(1) by (simp add: s1_def router_wf_def)
  have cb1: "costs_bounded s1" unfolding costs_bounded_def
  proof (intro allI impI)
    fix j assume "j < nR s1"
    then have j: "j < nR s" by (simp add: s1_def)
    have "lc s1 j = (if j = k then c else lc s j)" using len by (simp add: s1_def)
    moreover have "DVTable s1 = DVTable s" "nR s1 = nR s" "own s1 = own s" by (simp_all add: s1_def)
    moreover have "-1 \<le> c" "c \<le> 1000000000" using assms(3,4) by (simp_all add: c_def)
    ultimately show "-1 \<le> lc s1 j \<and> lc s1 j \<le> 1000000000 \<and>
       (j \<noteq> own s1 \<longrightarrow> (\<forall>d < nR s1. -1 \<le> dv s1 j d \<and> dv s1 j d \<le> 1000000000))"
      using costs_boundedD [OF assms(2) j] by simp
  qed
  obtain ch s' where r: "recompute s1 = ret (ch, s')"
    by (rule recompute_spec [OF wf1 cb1]) (rule that)
  note rc = recompute_ret(2) [OF wf1 r]
  then have l: "same_links s1 s'" and wf': "router_wf s'" by (auto simp: recomputed_def)
  have cb': "costs_bounded s'" by (rule costs_bounded_same_links [OF l cb1])
  note L = same_linksD [OF l]
  have n: "nR s' = nR s" "own s' = own s" "nR s1 = nR s" "own s1 = own s" using L by (simp_all add: s1_def)
  have "update_func s s_id d_id v = ret s'"
    using len r assms(5) by (simp add: update_func_def Let_def c_def s1_def)
  moreover have "lc s' k = c" using L(6) len by (simp add: s1_def)
  moreover have "\<forall>j < nR s. j \<noteq> k \<longrightarrow> router_set s' ! j = router_set s ! j" using L(6) by (simp add: s1_def)
  moreover have "min_DV s' (int d) = ret (fst (best s' d), dv s' (own s) d)" if "d < nR s" "d \<noteq> own s" for d
    using min_DV_best [OF wf' cb', of d] recomputed_cost [OF rc, of d] that best_same_links [OF l, of d]
    by (simp add: n)
  ultimately show ?thesis unfolding c_def by blast
qed

theorem update_func_installs_cost_witness:
  "\<exists>s'. update_func demo 1 2 1000 = ret s' \<and> lc s' 1 = -1"
proof -
  have "RID_to_Index demo 2 = int 1" "1 < nR demo" by (simp_all add: RID_to_Index_def demo_defs)
  from update_func_installs_cost [OF demo_wf demo_bounded _ _ this, of 1000 1]
  show ?thesis by auto
qed

text \<open>\<open>UPDATE\<close> for an id that no router has writes outside \<open>router_set\<close>: the index \<open>-1\<close> of the
  failed lookup is used unchecked.\<close>

theorem update_func_unknown_router:
  assumes "\<forall>r \<in> set (router_set s). RID r \<noteq> d_id"
  shows "update_func s s_id d_id v = halt OutOfBounds"
proof -
  have "RID_scan (take (nat (numRouter s)) (router_set s)) d_id 0 = -1"
    using RID_scan_cases [of 0 "take (nat (numRouter s)) (router_set s)" d_id] assms
    by (auto dest: nth_mem in_set_takeD)
  then show ?thesis by (simp add: update_func_def RID_to_Index_def aget_def)
qed

theorem update_func_unknown_router_witness: "update_func demo 1 9 4 = halt OutOfBounds"
  by (rule update_func_unknown_router) (simp add: demo_defs)

section \<open>The invariant of the service\<close>

text \<open>the configuration files leave the tables in order: arrays of one cell per router, and for
  every destination the own row reaches an available entry for that destination at that cost.\<close>

theorem router_start_tables_ok:
  assumes "router_start arg3 (Some loc) (Some topo) = ret s" "0 < numRouter s"
    and "distinct (map RID (router_set s))"
  shows "tables_ok s"
  using assms by (rule router_start_ok)

text \<open>A configuration of one router without links.\<close>

theorem router_start_tables_ok_witness:
  "\<exists>s. router_start ''7'' (Some ''1 1.0.0.1,9,7'') (Some ''0'') = ret s \<and> ownIndex s = 0 \<and> tables_ok s"
proof -
  have "andthen (router_start ''7'' (Some ''1 1.0.0.1,9,7'') (Some ''0''))
      (\<lambda>s. ret (numRouter s, ownIndex s, map RID (router_set s))) = ret (1, 0, [7])"
    by code_simp
  then obtain s where s: "router_start ''7'' (Some ''1 1.0.0.1,9,7'') (Some ''0'') = ret s"
    "numRouter s = 1" "ownIndex s = 0" "map RID (router_set s) = [7]"
    by (auto simp: andthen_ret_iff)
  from router_start_tables_ok [OF s(1)] s show ?thesis by simp
qed

text \<open>C6: over every sequence of requests, closes and new sockets in which no client poses as this
  router, the routing table has for every destination that the own row reaches an available entry
  for that destination, at the cost of the row.\<close>

theorem router_tables_invariant:
  assumes "tables_ok (rs w0)" "router_reach dial w0 w" "d < nR (rs w)" "d \<noteq> own (rs w)"
    and "dv (rs w) (own (rs w)) d \<noteq> -1"
  shows "rt_available (rs w) ! d = 1 \<and> (\<exists>e. routing_table (rs w) ! d = Some e \<and>
     dest_RID e = RID (router_set (rs w) ! d) \<and> pathCost e = dv (rs w) (own (rs w)) d)"
  using router_reach_tables_ok [OF assms(2,1)] assms(3-5)
  by (simp add: tables_ok_def routes_match_def)

section \<open>Between two routers\<close>

text \<open>what \<open>msgSender\<close> puts on the wire for a generated message, \<open>msgReceiver\<close> turns back
  into the protocol mark, the type and the four integers, when the header comes in one segment.\<close>

theorem rip_message_roundtrip:
  assumes "int_min \<le> s" "s \<le> int_max" "int_min \<le> d" "d \<le> int_max"
    "int_min \<le> v" "v \<le> int_max" "int_min \<le> p" "p \<le> int_max"
    and "txq a = []" "rxq b = [RxData (drop (length (sent a)) (sent a'))]"
    and "rip_msgSender (rip_msgGeneration t s d v p) a = ret (len, a')"
  shows "\<exists>m b'. rip_msgReceiver b = ret (20, m, b') \<and> rxq b' = [] \<and> protocol m = rip_magicNum \<and>
    mtype m = t \<and> sint (source m) = s \<and> sint (dest m) = d \<and> sint (weight m) = v \<and> sint (payload m) = p"
proof -
  have "sent a' = sent a @ message_s_bytes (rip_msgGeneration t s d v p)"
    using assms(9,11) by (auto simp: rip_msgSender_def conn_send_def)
  with assms(10) have "rxq b = RxData (message_s_bytes (rip_msgGeneration t s d v p) @ []) # []" by simp
  from rip_msgReceiver_generated [OF this]
  have "rip_msgReceiver b = ret (20, rip_host t s d v p, b\<lparr>rxq := []\<rparr>)" by simp
  then show ?thesis
    using assms(1-8) sint_word_of_int [of s] sint_word_of_int [of d] sint_word_of_int [of v] sint_word_of_int [of p]
    by (simp add: rip_host_def)
qed

abbreviation idle :: conn where "idle \<equiv> \<lparr>rxq = [], txq = [], sent = []\<rparr>"

theorem rip_message_roundtrip_witness:
  "\<exists>len a'. rip_msgSender (rip_msgGeneration UPDATE 1 (-1) 1000 0) idle = ret (len, a') \<and>
     (\<exists>m b'. rip_msgReceiver (idle\<lparr>rxq := [RxData (sent a')]\<rparr>) = ret (20, m, b') \<and>
        mtype m = UPDATE \<and> sint (dest m) = -1 \<and> sint (weight m) = 1000)"
proof -
  obtain len a' where a: "rip_msgSender (rip_msgGeneration UPDATE 1 (-1) 1000 0) idle = ret (len, a')"
    by (simp add: rip_msgSender_def conn_send_def)
  have "\<exists>m b'. rip_msgReceiver (idle\<lparr>rxq := [RxData (sent a')]\<rparr>) = ret (20, m, b') \<and> rxq b' = [] \<and>
      protocol m = rip_magicNum \<and> mtype m = UPDATE \<and> sint (source m) = 1 \<and> sint (dest m) = -1 \<and>
      sint (weight m) = 1000 \<and> sint (payload m) = 0"
    by (rule rip_message_roundtrip [OF _ _ _ _ _ _ _ _ _ _ a]) simp_all
  with a show ?thesis by blast
qed

text \<open>C2: serving a neighbour's announcement, however the row is split into segments, stores
  exactly the row the neighbour sent, recomputes the own row from it, counts the message, and sends
  the new row to every neighbour if and only if the own row changed.\<close>

theorem announcement_served:
  assumes "router_wf (rs w)" "2 \<le> nR (rs w)" "4 * numRouter (rs w) \<le> int_max"
    and "socks w sd = Some c" "rxq c = RxData (message_s_bytes (dvmsg rid (numRouter (rs w)))) # q"
      "healthy (c\<lparr>rxq := q\<rparr>)" "pending (c\<lparr>rxq := q\<rparr>) = dv_wire row @ rest"
    and "int_min \<le> rid" "rid \<le> int_max" and "length row = nR (rs w)" "row_ok row"
    and "RID_to_Index (rs w) rid = int k" "k < nR (rs w)" "k \<noteq> own (rs w)"
    and "length DVRow = 4 * nR (rs w)" and "0 \<le> numDV (rs w)" "numDV (rs w) < int_max"
    and "costs_bounded (with_row (rs w) k row)" and "links_up w" "not_a_link w sd"
  shows "\<exists>w'. request_response dial sd buf DVRow w = ret (1, buf, row_bytes row, w') \<and>
    DVTable (rs w') ! k = row \<and> numDV (rs w') = numDV (rs w) + 1 \<and>
    (\<forall>d < nR (rs w). d \<noteq> own (rs w) \<longrightarrow> dv (rs w') (own (rs w)) d = snd (best (with_row (rs w) k row) d)) \<and>
    (\<forall>i < nR (rs w). lc (rs w) i \<noteq> -1 \<longrightarrow> (\<exists>x ci. router_sd (router_set (rs w) ! i) = Some x \<and>
       socks w x = Some ci \<and> socks w' x = Some (ci\<lparr>sent := sent ci @
         (if \<exists>d < nR (rs w). dv (rs w') (own (rs w)) d \<noteq> dv (rs w) (own (rs w)) d
          then announcement (rs w') else [])\<rparr>)))"
  using request_response_exchange [OF assms, of dial buf] by blast

text \<open>Router 1 before it knows anything but its links, the connected sockets 4 and 5, and on
  socket 9 the row of router 2, split in the middle of an integer.\<close>

definition fresh :: rstate where
  "fresh = demo\<lparr>numDV := 0, DVTable := [[0, 2, 7], [-1, 0, -1], [-1, -1, 0]]\<rparr>"

definition fresh_in :: conn where
  "fresh_in = \<lparr>rxq = [RxData (message_s_bytes (dvmsg 2 3)), RxData (take 6 (dv_wire [2, 0, 1])),
     RxData (drop 6 (dv_wire [2, 0, 1]))], txq = [], sent = []\<rparr>"

definition fresh_world :: world where
  "fresh_world = \<lparr>rs = fresh, socks = [4 \<mapsto> idle, 5 \<mapsto> idle, 9 \<mapsto> fresh_in]\<rparr>"

lemmas fresh_defs = fresh_world_def fresh_def fresh_in_def demo_defs

lemma fresh_wf: "router_wf (rs fresh_world)"
  by (simp add: router_wf_def fresh_defs)

lemma fresh_links_up: "links_up fresh_world" "not_a_link fresh_world 9"
  by (simp_all add: links_up_def not_a_link_def names_sd_def link_up_def fresh_defs all_less_3
      atLeast0LessThan lessThan_nat_numeral lessThan_Suc)

lemma fresh_bounded: "costs_bounded (with_row (rs fresh_world) 1 [2, 0, 1])"
  by (simp add: costs_bounded_def with_row_def fresh_defs all_less_3)

lemma fresh_tables_ok: "tables_ok (rs fresh_world)"
  using fresh_wf by (simp add: tables_ok_def routes_match_def fresh_defs all_less_3)

lemma fresh_facts:
  "nR (rs fresh_world) = 3" "numRouter (rs fresh_world) = 3" "own (rs fresh_world) = 0"
  "numDV (rs fresh_world) = 0" "RID_to_Index (rs fresh_world) 2 = int 1" "ownIndex (rs fresh_world) = 0"
  "socks fresh_world 9 = Some fresh_in"
  by (simp_all add: RID_to_Index_def fresh_defs)

lemma fresh_segments:
  "rxq fresh_in = RxData (message_s_bytes (dvmsg 2 (numRouter (rs fresh_world)))) #
     [RxData (take 6 (dv_wire [2, 0, 1])), RxData (drop 6 (dv_wire [2, 0, 1]))]"
  "healthy (fresh_in\<lparr>rxq := [RxData (take 6 (dv_wire [2, 0, 1])), RxData (drop 6 (dv_wire [2, 0, 1]))]\<rparr>)"
  "pending (fresh_in\<lparr>rxq := [RxData (take 6 (dv_wire [2, 0, 1])), RxData (drop 6 (dv_wire [2, 0, 1]))]\<rparr>)
     = dv_wire [2, 0, 1] @ []"
proof -
  have l: "length (dv_wire [2, 0, 1]) = 12" by simp
  then have "take 6 (dv_wire [2, 0, 1]) \<noteq> []" "drop 6 (dv_wire [2, 0, 1]) \<noteq> []"
    by (metis length_take length_0_conv min_def numeral_eq_iff zero_neq_numeral, simp)
  then show "healthy (fresh_in\<lparr>rxq := [RxData (take 6 (dv_wire [2, 0, 1])), RxData (drop 6 (dv_wire [2, 0, 1]))]\<rparr>)"
    by (simp add: healthy_def)
qed (simp_all add: fresh_in_def fresh_facts pending_def)

theorem announcement_served_witness:
  "\<exists>w'. request_response (\<lambda>a p. None) 9 None (replicate 12 0) fresh_world = ret (1, None, row_bytes [2, 0, 1], w') \<and>
     DVTable (rs w') ! 1 = [2, 0, 1] \<and> numDV (rs w') = 1 \<and> dv (rs w') 0 2 = 3 \<and>
     (\<exists>c. socks w' 5 = Some c \<and> sent c = announcement (rs w'))"
proof -
  have b: "snd (best (with_row (rs fresh_world) 1 [2, 0, 1]) 2) = 3" by code_simp
  have "\<exists>w'. request_response (\<lambda>a p. None) 9 None (replicate 12 0) fresh_world = ret (1, None, row_bytes [2, 0, 1], w') \<and>
    DVTable (rs w') ! 1 = [2, 0, 1] \<and> numDV (rs w') = numDV (rs fresh_world) + 1 \<and>
    (\<forall>d < nR (rs fresh_world). d \<noteq> own (rs fresh_world) \<longrightarrow>
       dv (rs w') (own (rs fresh_world)) d = snd (best (with_row (rs fresh_world) 1 [2, 0, 1]) d)) \<and>
    (\<forall>i < nR (rs fresh_world). lc (rs fresh_world) i \<noteq> -1 \<longrightarrow>
      (\<exists>x ci. router_sd (router_set (rs fresh_world) ! i) = Some x \<and>
       socks fresh_world x = Some ci \<and> socks w' x = Some (ci\<lparr>sent := sent ci @
         (if \<exists>d < nR (rs fresh_world). dv (rs w') (own (rs fresh_world)) d \<noteq> dv (rs fresh_world) (own (rs fresh_world)) d
          then announcement (rs w') else [])\<rparr>)))"
    by (rule announcement_served [OF fresh_wf _ _ fresh_facts(7) fresh_segments _ _ _ _ fresh_facts(5)
          _ _ _ _ _ fresh_bounded fresh_links_up]) (simp_all add: fresh_facts row_ok_def)
  then obtain w' where w': "request_response (\<lambda>a p. None) 9 None (replicate 12 0) fresh_world
        = ret (1, None, row_bytes [2, 0, 1], w')" "DVTable (rs w') ! 1 = [2, 0, 1]" "numDV (rs w') = 1"
    and d: "\<forall>d < 3. d \<noteq> 0 \<longrightarrow> dv (rs w') 0 d = snd (best (with_row (rs fresh_world) 1 [2, 0, 1]) d)"
    and i: "\<forall>i < 3. lc (rs fresh_world) i \<noteq> -1 \<longrightarrow>
      (\<exists>x ci. router_sd (router_set (rs fresh_world) ! i) = Some x \<and>
       socks fresh_world x = Some ci \<and> socks w' x = Some (ci\<lparr>sent := sent ci @
         (if \<exists>d < 3. dv (rs w') 0 d \<noteq> dv (rs fresh_world) 0 d then announcement (rs w') else [])\<rparr>))"
    unfolding fresh_facts by auto
  have v: "dv (rs w') 0 2 = 3" using d [rule_format, of 2] b by simp
  have "dv (rs fresh_world) 0 2 = 7" by (simp add: fresh_defs)
  with v have "\<exists>d < 3. dv (rs w') 0 d \<noteq> dv (rs fresh_world) 0 d" by (intro exI [of _ 2]) simp
  with i [rule_format, of 2] have "\<exists>c. socks w' 5 = Some c \<and> sent c = announcement (rs w')"
    by (simp add: fresh_defs)
  with w' v show ?thesis by blast
qed

lemma fresh_header: "rip_msgReceiver fresh_in = ret (20, rip_host DVMSG 2 (-1) (-1) (4 * 3),
    fresh_in\<lparr>rxq := [RxData (take 6 (dv_wire [2, 0, 1])), RxData (drop 6 (dv_wire [2, 0, 1]))]\<rparr>)"
  using rip_msgReceiver_generated [of fresh_in DVMSG 2 "-1" "-1" "4 * 3" "[]"] fresh_segments(1)
  by (simp add: fresh_facts)

lemma fresh_foreign: "foreign_row fresh_world 9"
  using fresh_header by (simp add: foreign_row_def fresh_facts rip_host_def)

lemma fresh_served: "\<exists>w'. request_response (\<lambda>a p. None) 9 None (replicate 12 0) fresh_world
    = ret (1, None, row_bytes [2, 0, 1], w') \<and> nR (rs w') = 3 \<and> own (rs w') = 0 \<and>
    (\<forall>d < 3. d \<noteq> 0 \<longrightarrow> dv (rs w') 0 d = snd (best (with_row (rs fresh_world) 1 [2, 0, 1]) d))"
  using request_response_exchange [OF fresh_wf _ _ fresh_facts(7) fresh_segments _ _ _ _ fresh_facts(5)
      _ _ _ _ _ fresh_bounded fresh_links_up, of "replicate 12 0" "\<lambda>a p. None" None]
  unfolding fresh_facts by (auto simp: row_ok_def)

theorem router_tables_invariant_witness:
  "\<exists>w e. router_reach (\<lambda>a p. None) fresh_world w \<and> routing_table (rs w) ! 2 = Some e \<and> pathCost e = 3"
proof -
  obtain w where w: "request_response (\<lambda>a p. None) 9 None (replicate 12 0) fresh_world
      = ret (1, None, row_bytes [2, 0, 1], w)" and n: "nR (rs w) = 3" "own (rs w) = 0"
    and d: "\<forall>d < 3. d \<noteq> 0 \<longrightarrow> dv (rs w) 0 d = snd (best (with_row (rs fresh_world) 1 [2, 0, 1]) d)"
    using fresh_served by blast
  have b: "snd (best (with_row (rs fresh_world) 1 [2, 0, 1]) 2) = 3" by code_simp
  have r: "router_reach (\<lambda>a p. None) fresh_world w"
    by (rule router_reach_one [OF router_step.request [OF fresh_foreign w]])
  have "dv (rs w) 0 2 = 3" using d [rule_format, of 2] b by simp
  then have "2 < nR (rs w)" "2 \<noteq> own (rs w)" "dv (rs w) (own (rs w)) 2 \<noteq> -1" "dv (rs w) (own (rs w)) 2 = 3"
    using n by simp_all
  with router_tables_invariant [OF fresh_tables_ok r this(1-3)] r show ?thesis by auto
qed

text \<open>C37: when the peer closes before the announced row is complete, the handler never returns; it
  is inside the mutex, so no other client of the router is served again.\<close>

theorem truncated_announcement_hangs:
  assumes "socks w sd = Some c" "rxq c = RxData (message_s_bytes (dvmsg rid (numRouter (rs w)))) # q"
    and "healthy (c\<lparr>rxq := q\<rparr>)" "length (pending (c\<lparr>rxq := q\<rparr>)) < 4 * nR (rs w)"
    and "2 \<le> nR (rs w)" "4 * numRouter (rs w) \<le> int_max" "length DVRow = 4 * nR (rs w)"
  shows "request_response dial sd buf DVRow w = None"
proof -
  let ?w = "put_sock w sd (c\<lparr>rxq := q\<rparr>)"
  have h: "rip_msgReceiver c = ret (20, rip_host DVMSG rid (-1) (-1) (4 * numRouter (rs w)), c\<lparr>rxq := q\<rparr>)"
    using rip_msgReceiver_generated [of c DVMSG rid "-1" "-1" "4 * numRouter (rs w)" "[]" q] assms(2) by simp
  have n: "4 * numRouter (rs w) = int (4 * nR (rs w))" using assms(5) by simp
  have f: "sint (payload (rip_host DVMSG rid (-1) (-1) (4 * numRouter (rs w)))) = int (4 * nR (rs w))"
    using sint_word_of_int [of "4 * numRouter (rs w)"] assms(5,6) n by (simp only: rip_host_def message_s.simps)
  have "routing dial ?w sd DVRow (int (4 * nR (rs w))) rid' = None" for rid'
    by (rule routing_truncated_diverges [of ?w sd "c\<lparr>rxq := q\<rparr>"]) (use assms in simp_all)
  then show ?thesis
    unfolding request_response_def get_sock_Some [OF assms(1)] h andthen_simps prod.case Let_def f
    by (simp add: rip_host_def)
qed

definition cut_in :: conn where
  "cut_in = \<lparr>rxq = [RxData (message_s_bytes (dvmsg 2 3)), RxData (dv_wire [2, 0])], txq = [], sent = []\<rparr>"

theorem truncated_announcement_hangs_witness:
  "request_response (\<lambda>a p. None) 9 None (replicate 12 0) (put_sock fresh_world 9 cut_in) = None"
proof -
  have "dv_wire [2, 0] \<noteq> []" by (metis length_dv_wire list.size(3) mult_is_0 list.distinct(1) length_0_conv zero_neq_numeral)
  then show ?thesis
    by (intro truncated_announcement_hangs [where c = cut_in and rid = 2 and q = "[RxData (dv_wire [2, 0])]"])
      (simp_all add: fresh_facts cut_in_def healthy_def pending_def)
qed

section \<open>The agent's commands\<close>

text \<open>on \<open>DV\<close> the router sends its own row, behind a header that names it and the length of
  the row, to every neighbour exactly once, and nothing to any other socket.\<close>

theorem DV_announces_to_neighbours:
  assumes "router_wf (rs w)" "links_up w" "mtype m = DV"
  shows "\<exists>w'. agent dial w sd m buf = ret (1, buf, w') \<and> rs w' = rs w \<and>
    (\<forall>x. socks w' x = (if \<exists>i < nR (rs w). lc (rs w) i \<noteq> -1 \<and> router_sd (router_set (rs w) ! i) = Some x
       then map_option (\<lambda>c. c\<lparr>sent := sent c @ announcement (rs w)\<rparr>) (socks w x) else socks w x))"
proof -
  obtain w' where w': "dv_func dial w = ret w'" "announced_to w {0..<nR (rs w)} w'"
    by (rule dv_func_links_up [OF assms(1,2)])
  have "(\<exists>i \<in> {0..<nR (rs w)}. P i) = (\<exists>i < nR (rs w). P i)" for P by auto
  with w' show ?thesis using assms(3) by (auto simp: agent_def announced_to_def)
qed

theorem DV_announces_to_neighbours_witness:
  "\<exists>w'. agent (\<lambda>a p. None) fresh_world 9 (rip_host DV (-1) (-1) (-1) 0) None = ret (1, None, w') \<and>
     map_option sent (socks w' 4) = Some (announcement (rs fresh_world)) \<and> socks w' 9 = Some fresh_in"
proof -
  from DV_announces_to_neighbours [OF fresh_wf fresh_links_up(1), of "rip_host DV (-1) (-1) (-1) 0" "\<lambda>a p. None" 9 None]
  obtain w' where w': "agent (\<lambda>a p. None) fresh_world 9 (rip_host DV (-1) (-1) (-1) 0) None = ret (1, None, w')"
    and x: "\<forall>x. socks w' x = (if \<exists>i < 3. lc (rs fresh_world) i \<noteq> -1 \<and>
        router_sd (router_set (rs fresh_world) ! i) = Some x
       then map_option (\<lambda>c. c\<lparr>sent := sent c @ announcement (rs fresh_world)\<rparr>) (socks fresh_world x)
       else socks fresh_world x)"
    by (auto simp: rip_host_def fresh_facts)
  have ex: "(\<exists>i < 3 :: nat. P i) \<longleftrightarrow> P 0 \<or> P 1 \<or> P 2" for P
    by (auto simp: numeral_eq_Suc less_Suc_eq)
  have sd: "(\<exists>i < 3. lc (rs fresh_world) i \<noteq> -1 \<and> router_sd (router_set (rs fresh_world) ! i) = Some y) \<longleftrightarrow> y \<in> {4, 5}" for y
    unfolding ex by (auto simp: fresh_defs)
  have "socks w' 9 = Some fresh_in" using x [rule_format, of 9] unfolding sd by (simp add: fresh_world_def)
  moreover have "map_option sent (socks w' 4) = Some (announcement (rs fresh_world))"
    using x [rule_format, of 4] unfolding sd by (simp add: fresh_world_def)
  ultimately show ?thesis using w' by blast
qed

text \<open>when the first neighbour in the table cannot be reached, announcing kills the process:
  the failed \<open>connect\<close> is ignored, its descriptor \<open>-1\<close> is used, and the failing \<open>send\<close> exits.\<close>

theorem unreachable_neighbour_exits:
  assumes "router_wf (rs w)" "i < nR (rs w)" "lc (rs w) i \<noteq> -1" "connected (rs w) ! i = 0"
    and "\<forall>j < i. lc (rs w) j = -1 \<and> connected (rs w) ! j \<noteq> 1"
    and "dial (ip (router_set (rs w) ! i)) (ucast (port (router_set (rs w) ! i))) = None" "socks w (-1) = None"
  shows "dv_func dial w = halt (Exit 0)"
proof -
  have split: "[0..<nR (rs w)] = [0..<i] @ i # [Suc i..<nR (rs w)]"
    using assms(2) by (metis less_imp_le_nat upt_add_eq_append upt_conv_Cons le_add_diff_inverse le0)
  define w1 where "w1 = w\<lparr>rs := (rs w)\<lparr>router_set :=
      (router_set (rs w))[i := (router_set (rs w) ! i)\<lparr>router_sd := Some (-1)\<rparr>]\<rparr>\<rparr>"
  have skip: "connection_loop dial (js @ ks) w = connection_loop dial ks w" if "\<forall>j \<in> set js. j < i" for js ks
    using that assms(2,5) router_wfD(4,5) [OF assms(1)]
    by (induction js) auto
  have "connection_loop dial (i # ks) w = ret (0, w1)" for ks
    using assms(2-4,6) router_wfD(4,5) [OF assms(1)]
    by (simp add: connectNeighbor_def set_link_def w1_def)
  then have c: "connection dial w = ret (0, w1)"
    unfolding connection_def split by (subst skip) auto
  have wf1: "router_wf (rs w1)" using assms(1) by (simp add: router_wf_def w1_def)
  have n: "nR (rs w1) = nR (rs w)" by (simp add: w1_def)
  have r: "aget (DVTable (rs w1)) (ownIndex (rs w1)) = ret (DVTable (rs w1) ! own (rs w1))"
    using aget_nat [of "own (rs w1)" "DVTable (rs w1)"] router_wfD(1,2,6) [OF wf1] by simp
  have skip': "announce_loop t (js @ ks) w1 = announce_loop t ks w1" if "\<forall>j \<in> set js. j < i" for t js ks
    using that assms(2,5) router_wfD(5) [OF assms(1)]
    by (induction js) (auto simp: w1_def)
  have "announce_loop t (i # ks) w1 = halt (Exit 0)" for t ks
    using assms(2,3,7) router_wfD(5) [OF assms(1)]
    by (simp add: w1_def read_sd_def send_msg_def get_sock_def)
  then have "announce_loop t [0..<nR (rs w1)] w1 = halt (Exit 0)" for t
    unfolding n split by (subst skip') auto
  then show ?thesis by (simp add: dv_func_def c r)
qed

theorem unreachable_neighbour_exits_witness:
  "dv_func (\<lambda>a p. None) \<lparr>rs = fresh\<lparr>connected := [0, 0, 0]\<rparr>, socks = Map.empty\<rparr> = halt (Exit 0)"
  by (rule unreachable_neighbour_exits [where i = 1]) (simp_all add: router_wf_def fresh_def demo_defs)

text \<open>the reply to \<open>SHOW\<close> announces in its header the length of the text that the buffer held
  before the table was printed into it; the data that follows is the new table with its NUL. On the
  first \<open>SHOW\<close> of a connection the buffer is fresh memory.\<close>

theorem show_announces_old_length:
  assumes "socks w sd = Some c" "txq c = []" "gen_RTable (rs w) = ret t"
  shows "show_func w sd None = halt Uninitialised \<and>
    show_func w sd (Some old) = ret (Some t, put_sock w sd (c\<lparr>sent := sent c @
      message_s_bytes (rip_msgGeneration RESPONSE (ownRID (rs w)) (-1) (numDV (rs w)) (int (length old) + 1)) @
      str_bytes t @ [0]\<rparr>))"
proof -
  let ?m = "rip_msgGeneration RESPONSE (ownRID (rs w)) (-1) (numDV (rs w)) (int (length old) + 1)"
  let ?c1 = "c\<lparr>sent := sent c @ message_s_bytes ?m\<rparr>"
  have m: "send_msg w sd ?m = ret (put_sock w sd ?c1)" by (rule send_msg_all [OF assms(1,2)])
  have n: "int (length t) + 1 = int (length (str_bytes t @ [0 :: byte]))" by simp
  have d: "send_data (put_sock w sd ?c1) sd (int (length t) + 1) (str_bytes t @ [0])
      = ret (put_sock (put_sock w sd ?c1) sd (?c1\<lparr>sent := sent ?c1 @ (str_bytes t @ [0])\<rparr>))"
    unfolding n by (rule send_data_all) (simp_all add: assms(2))
  have "show_func w sd (Some old) = ret (Some t, put_sock (put_sock w sd ?c1) sd (?c1\<lparr>sent := sent ?c1 @ (str_bytes t @ [0])\<rparr>))"
    unfolding show_func_def option.case m andthen_simps put_sock_rs assms(3) d ..
  then show ?thesis by (simp add: show_func_def)
qed

theorem show_announces_old_length_witness:
  "\<exists>t c. t \<noteq> [] \<and> show_func fresh_world 4 (Some []) = ret (Some t, put_sock fresh_world 4 c) \<and>
     sent c = message_s_bytes (rip_msgGeneration RESPONSE 1 (-1) 0 1) @ str_bytes t @ [0]"
proof -
  define t where "t = table_text (rs fresh_world) [0..<nR (rs fresh_world)]"
  have u: "[0..<3] = [0, 1, 2 :: nat]" by (simp add: upt_rec)
  have t: "t = ''2 2 2 '' @ [CHR 0x0A] @ ''3 3 7 '' @ [CHR 0x0A]"
    by (simp add: t_def table_text_def entry_line_def fresh_defs u show_int_def show_nat.simps digit_def char_of_def bit_0)
  then have l: "t \<noteq> []" "length t = 14" by simp_all
  have "\<forall>d \<in> set [0..<nR (rs fresh_world)]. d < nR (rs fresh_world) \<and>
      (rt_available (rs fresh_world) ! d = 1 \<longrightarrow> routing_table (rs fresh_world) ! d \<noteq> None)"
    using all_less_3 [of "\<lambda>d. rt_available fresh ! d = 1 \<longrightarrow> routing_table fresh ! d \<noteq> None"]
    by (auto simp: fresh_defs less_Suc_eq numeral_eq_Suc)
  from gen_RTable_loop_text [OF fresh_wf this, of "[]"] l(2)
  have g: "gen_RTable (rs fresh_world) = ret t"
    by (simp add: gen_RTable_def t_def)
  have "socks fresh_world 4 = Some idle" "txq idle = []" by (simp_all add: fresh_world_def)
  from show_announces_old_length [OF this g, of "[]"]
  have "show_func fresh_world 4 (Some []) = ret (Some t, put_sock fresh_world 4 (idle\<lparr>sent :=
      message_s_bytes (rip_msgGeneration RESPONSE 1 (-1) 0 1) @ str_bytes t @ [0]\<rparr>))"
    by (simp add: fresh_facts) (simp add: fresh_defs)
  with l(1) show ?thesis by force
qed

end
