(* ===== verification/RouterAgent.thy ===== *)
theory RouterAgent
  imports RouterSpec
begin

text \<open>
  The agent (\<open>router/agent.c\<close>): it connects to one router, sends it a \<open>DV\<close> command and leaves.
  The property at the end follows the command into the router.
\<close>

section \<open>The program\<close>

definition main_task :: "dial \<Rightarrow> 32 word \<Rightarrow> 16 word \<Rightarrow> conn run" where
  "main_task dial a p = (case dial a p of
     None \<Rightarrow> halt (Exit 1)
   | Some (fd, c) \<Rightarrow> andthen (rip_msgSender (rip_msgGeneration DV (-1) (-1) (-1) 0) c) (\<lambda>(len, c). ret c))"

text \<open>\<open>inet_addr\<close> returns \<open>-1\<close> for a malformed address, and for \<open>255.255.255.255\<close>.\<close>

definition agent_main :: "dial \<Rightarrow> string list \<Rightarrow> conn run" where
  "agent_main dial args =
     (if length args \<noteq> 3 then halt (Exit 1)
      else if inet_addr (args ! 1) = -1 then halt (Exit 1)
      else main_task dial (inet_addr (args ! 1)) (word_of_int (atoi (args ! 2))))"

section \<open>The command on its way\<close>

text \<open>C35: when the agent's run succeeds, the bytes it has sent make the router it reached send its
  own row to every neighbour.\<close>

theorem agent_triggers_announcement:
  assumes "agent_main dial args = ret c" "dial (inet_addr (args ! 1)) (word_of_int (atoi (args ! 2))) = Some (fd, idle)"
    and "router_wf (rs w)" "links_up w" "not_a_link w sd"
    and "socks w sd = Some r" "rxq r = [RxData (sent c)]"
  shows "\<exists>w'. request_response dial' sd buf DVRow w = ret (1, buf, DVRow, w') \<and> rs w' = rs w \<and>
    (\<forall>i < nR (rs w). lc (rs w) i \<noteq> -1 \<longrightarrow> (\<exists>x ci. router_sd (router_set (rs w) ! i) = Some x \<and>
       socks w x = Some ci \<and> socks w' x = Some (ci\<lparr>sent := sent ci @ announcement (rs w)\<rparr>)))"
proof -
  let ?m = "rip_host DV (-1) (-1) (-1) 0" and ?w = "put_sock w sd (r\<lparr>rxq := []\<rparr>)"
  have "sent c = message_s_bytes (rip_msgGeneration DV (-1) (-1) (-1) 0)"
    using assms(1,2)
    by (auto simp: agent_main_def main_task_def rip_msgSender_def conn_send_def split: if_splits)
  with assms(7) have h: "rip_msgReceiver r = ret (20, ?m, r\<lparr>rxq := []\<rparr>)"
    using rip_msgReceiver_generated [of r DV "-1" "-1" "-1" 0 "[]" "[]"] by simp
  have up: "links_up ?w" using other_sock_links_up [OF assms(4,5) refl refl refl] by (simp add: put_sock_def)
  have wf: "router_wf (rs ?w)" using assms(3) by simp
  obtain w' where w': "dv_func dial' ?w = ret w'" "announced_to ?w {0..<nR (rs ?w)} w'"
    by (rule dv_func_links_up [OF wf up])
  have "request_response dial' sd buf DVRow w = ret (1, buf, DVRow, w')"
    unfolding request_response_def get_sock_Some [OF assms(6)] h andthen_simps prod.case Let_def
    by (simp add: rip_host_def rip_magicNum_def agent_def rip_types w'(1))
  moreover have "\<exists>x ci. router_sd (router_set (rs w) ! i) = Some x \<and> socks w x = Some ci \<and>
      socks w' x = Some (ci\<lparr>sent := sent ci @ announcement (rs w)\<rparr>)" if i: "i < nR (rs w)" "lc (rs w) i \<noteq> -1" for i
  proof -
    from links_upD(1) [OF assms(4) i] obtain x ci where
      x: "router_sd (router_set (rs w) ! i) = Some x" "socks w x = Some ci" by (rule link_upE)
    have "x \<noteq> sd" using assms(5) x(1) i by (auto simp: not_a_link_def names_sd_def)
    moreover have "\<exists>i \<in> {0..<nR (rs ?w)}. lc (rs ?w) i \<noteq> -1 \<and> router_sd (router_set (rs ?w) ! i) = Some x"
      using i x(1) by auto
    ultimately show ?thesis using w'(2) x by (simp add: announced_to_def put_sock_def)
  qed
  ultimately show ?thesis using w'(2) by (auto simp: announced_to_def)
qed

theorem agent_triggers_announcement_witness:
  "\<exists>c w'. agent_main (\<lambda>a p. Some (3, idle)) [''agent'', ''127.0.0.1'', ''13001''] = ret c \<and>
     request_response (\<lambda>a p. None) 6 None [] (put_sock fresh_world 6 (idle\<lparr>rxq := [RxData (sent c)]\<rparr>))
       = ret (1, None, [], w') \<and> (\<exists>ci. socks w' 4 = Some ci \<and> sent ci = announcement (rs fresh_world))"
proof -
  let ?w = "\<lambda>c. put_sock fresh_world 6 (idle\<lparr>rxq := [RxData (sent c)]\<rparr>)"
  have "inet_addr ''127.0.0.1'' \<noteq> -1" by code_simp
  then obtain c where c: "agent_main (\<lambda>a p. Some (3, idle)) [''agent'', ''127.0.0.1'', ''13001''] = ret c"
    by (simp add: agent_main_def main_task_def rip_msgSender_def conn_send_def)
  have up: "links_up (?w c)" "not_a_link (?w c) 6"
    by (simp_all add: links_up_def not_a_link_def names_sd_def link_up_def put_sock_def fresh_defs all_less_3
      atLeast0LessThan lessThan_nat_numeral lessThan_Suc)
  have wf: "router_wf (rs (?w c))" using fresh_wf by simp
  obtain w' where w': "request_response (\<lambda>a p. None) 6 None [] (?w c) = ret (1, None, [], w')"
    and n: "\<forall>i < 3. lc (rs fresh_world) i \<noteq> -1 \<longrightarrow> (\<exists>x ci. router_sd (router_set (rs fresh_world) ! i) = Some x \<and>
       socks (?w c) x = Some ci \<and> socks w' x = Some (ci\<lparr>sent := sent ci @ announcement (rs fresh_world)\<rparr>))"
    using agent_triggers_announcement [OF c refl wf up put_sock_socks, of "\<lambda>a p. None" None "[]"]
    by (auto simp: fresh_facts)
  have "\<exists>ci. socks w' 4 = Some ci \<and> sent ci = announcement (rs fresh_world)"
    using n [rule_format, of 1] by (auto simp: put_sock_def fresh_defs)
  with c w' show ?thesis by blast
qed

end
