(* ===== verification/RouterLinks.thy ===== *)
theory RouterLinks
  imports RouterSpec
begin

text \<open>
  One router among routers with fixed links (\<open>routing\<close>, \<open>recompute\<close> and \<open>dv_func\<close> in \<open>router/router.c\<close>): the costs of
  walks, what a router's tables promise about them, and that serving a neighbour's row keeps the promise.
\<close>

section \<open>Serving a row\<close>

text \<open>What \<open>routing\<close> does with the bytes of a row once they have arrived, up to the announcement.\<close>

definition serve_row :: "rstate \<Rightarrow> byte list \<Rightarrow> int \<Rightarrow> int \<Rightarrow> (byte list \<times> bool \<times> rstate) run" where
  "serve_row s DVRow sz n_RID =
     andthen (cint (numDV s + 1)) (\<lambda>n.
     let s = s\<lparr>numDV := n\<rparr>;
         DVRow = ntohl_row (nR s) DVRow
     in andthen (copy_row s (RID_to_Index s n_RID) DVRow sz) (\<lambda>s.
        andthen (recompute s) (\<lambda>(ch, s). ret (DVRow, ch, s))))"

lemma routing_serves_row:
  "routing dial w sd DVRow sz n_RID =
     andthen (get_sock w sd) (\<lambda>c.
     andthen (rip_dataReceiver sz DVRow c) (\<lambda>(got, DVRow, c).
     andthen (serve_row (rs w) DVRow sz n_RID) (\<lambda>(DVRow, ch, s).
     let w = (put_sock w sd c)\<lparr>rs := s\<rparr> in
     if ch then andthen (dv_func dial w) (\<lambda>w. ret (DVRow, w)) else ret (DVRow, w))))"
  by (simp add: routing_def serve_row_def Let_def andthen_assoc split_def if_distrib cong: if_cong)

lemma RID_to_Index_numDV [simp]: "RID_to_Index (s\<lparr>numDV := n\<rparr>) rid = RID_to_Index s rid"
  by (simp add: RID_to_Index_def)

lemma serve_row_recomputes:
  assumes "router_wf s" "k < nR s" "length row = nR s" "row_ok row" "RID_to_Index s rid = int k" "0 \<le> numDV s" "numDV s < int_max"
  shows "serve_row s (dv_wire row) (4 * numRouter s) rid =
    andthen (recompute (with_row s k row)) (\<lambda>(ch, s'). ret (row_bytes row, ch, s'))"
proof -
  let ?s = "s\<lparr>numDV := numDV s + 1\<rparr>"
  have "ntohl_row (nR ?s) (dv_wire row) = row_bytes row" using ntohl_row_dv_wire [of row "[]"] assms(3) by simp
  moreover have "router_wf ?s" using assms(1) by (simp add: router_wf_def)
  then have "copy_row ?s (int k) (row_bytes row) (4 * numRouter s) = ret (with_row s k row)"
    using copy_row_whole [of ?s k row "[]"] assms(2-4) by (simp add: with_row_def)
  ultimately show ?thesis using assms(5-7) by (simp add: serve_row_def Let_def)
qed

section \<open>The specification\<close>

text \<open>The costs of walks over the links; -1 is no link.\<close>

inductive walk :: "(nat \<Rightarrow> nat \<Rightarrow> int) \<Rightarrow> nat \<Rightarrow> nat \<Rightarrow> nat \<Rightarrow> int \<Rightarrow> bool" for c N where
  here: "i < N \<Longrightarrow> walk c N i i 0"
| hop: "i < N \<Longrightarrow> j < N \<Longrightarrow> c i j \<noteq> -1 \<Longrightarrow> walk c N j d w \<Longrightarrow> walk c N i d (c i j + w)"

definition links_ok :: "(nat \<Rightarrow> nat \<Rightarrow> int) \<Rightarrow> nat \<Rightarrow> bool" where
  "links_ok c N \<longleftrightarrow> (\<forall>i < N. \<forall>j < N. c i j = -1 \<or> 1 \<le> c i j \<and> c i j < 10000) \<and>
     (\<forall>i < N. \<forall>j < N. c i j \<noteq> -1 \<longrightarrow> c j i \<noteq> -1) \<and> (\<forall>i < N. c i i = -1)"

text \<open>A cost is that of the cheapest walk, or -1 when no walk is cheaper than 10000.\<close>

definition cheapest :: "(nat \<Rightarrow> nat \<Rightarrow> int) \<Rightarrow> nat \<Rightarrow> nat \<Rightarrow> nat \<Rightarrow> int \<Rightarrow> bool" where
  "cheapest c N i d v \<longleftrightarrow> (if v = -1 then \<forall>w. walk c N i d w \<longrightarrow> 10000 \<le> w else walk c N i d v \<and> (\<forall>w. walk c N i d w \<longrightarrow> v \<le> w))"

text \<open>The tables right after the start: the own row holds the links, every other row only the router itself.\<close>

definition links_of :: "(nat \<Rightarrow> nat \<Rightarrow> int) \<Rightarrow> nat \<Rightarrow> nat \<Rightarrow> rstate \<Rightarrow> bool" where
  "links_of c N i s \<longleftrightarrow> router_wf s \<and> nR s = N \<and> own s = i \<and> (\<forall>j < N. lc s j = c i j)"

definition started :: "(nat \<Rightarrow> nat \<Rightarrow> int) \<Rightarrow> nat \<Rightarrow> nat \<Rightarrow> rstate \<Rightarrow> bool" where
  "started c N i s \<longleftrightarrow> links_of c N i s \<and> numDV s = 0 \<and>
     (\<forall>j < N. \<forall>d < N. dv s j d = (if j = d then 0 else if j = i then c i d else -1)) \<and>
     (\<forall>d < N. c i d \<noteq> -1 \<longrightarrow> rt_available s ! d = 1 \<and> routing_table s ! d =
        Some \<lparr>dest_RID = RID (router_set s ! d), nextHop_RID = RID (router_set s ! d), pathCost = c i d\<rparr>)"

lemma recompute_keeps:
  assumes "router_wf s" "k < nR s" "length row = nR s" "recompute (with_row s k row) = ret (ch, s')"
  shows "router_wf s'" "connected s' = connected s" "router_set s' = router_set s" "numRouter s' = numRouter s"
proof -
  have "recomputed (with_row s k row) {0..<nR (with_row s k row)} s'"
    by (rule recompute_ret(2) [OF with_row_wf [OF assms(1-3)] assms(4)])
  then have "same_links (with_row s k row) s'" and wf: "router_wf s'" by (auto simp: recomputed_def)
  from same_linksD [OF this(1)] wf show "router_wf s'" "connected s' = connected s" "router_set s' = router_set s" "numRouter s' = numRouter s"
    by (simp_all add: with_row_def)
qed

section \<open>One router\<close>

text \<open>The order of the costs: no path is as bad as 10000, the cost at which \<open>min_DV\<close> gives up.\<close>

definition cost_of :: "int \<Rightarrow> int" where
  "cost_of v = (if v = -1 then 10000 else v)"

definition no_worse :: "nat \<Rightarrow> int list \<Rightarrow> int list \<Rightarrow> bool" where
  "no_worse N old new \<longleftrightarrow> (\<forall>d < N. cost_of (new ! d) \<le> cost_of (old ! d))"

text \<open>A row that router \<open>j\<close> can have announced: every cost in it is that of a walk.\<close>

definition good_row :: "(nat \<Rightarrow> nat \<Rightarrow> int) \<Rightarrow> nat \<Rightarrow> nat \<Rightarrow> int list \<Rightarrow> bool" where
  "good_row c N j row \<longleftrightarrow> length row = N \<and> row ! j = 0 \<and>
     (\<forall>d < N. row ! d = -1 \<or> 0 \<le> row ! d \<and> row ! d < 10000 \<and> walk c N j d (row ! d))"

text \<open>The entry of a destination names a neighbour through which the cost is achieved.\<close>

definition route_via :: "rstate \<Rightarrow> nat \<Rightarrow> bool" where
  "route_via s d \<longleftrightarrow> rt_available s ! d = 1 \<and> (\<exists>k. eligible s d k \<and> via_cost s d k = dv s (own s) d \<and>
     routing_table s ! d = Some \<lparr>dest_RID = RID (router_set s ! d), nextHop_RID = RID (router_set s ! k),
        pathCost = dv s (own s) d\<rparr>)"

definition node_ok :: "(nat \<Rightarrow> nat \<Rightarrow> int) \<Rightarrow> nat \<Rightarrow> nat \<Rightarrow> rstate \<Rightarrow> bool" where
  "node_ok c N i s \<longleftrightarrow> links_of c N i s \<and> 0 \<le> numDV s \<and> (\<forall>j < N. good_row c N j (DVTable s ! j)) \<and>
     (\<forall>d < N. d \<noteq> i \<longrightarrow> dv s i d = snd (best s d) \<and> (dv s i d \<noteq> -1 \<longrightarrow> route_via s d))"

lemma walk_ends: "walk c N i d w \<Longrightarrow> i < N \<and> d < N"
  by (induction rule: walk.induct) auto

lemma no_worse_refl [simp]: "no_worse N r r"
  by (simp add: no_worse_def)

lemma no_worse_trans: "no_worse N a b \<Longrightarrow> no_worse N b d \<Longrightarrow> no_worse N a d"
  by (auto simp: no_worse_def intro: order_trans)

lemma good_rowD:
  assumes "good_row c N j row"
  shows "length row = N" "row ! j = 0"
    "d < N \<Longrightarrow> row ! d \<noteq> -1 \<Longrightarrow> 0 \<le> row ! d \<and> row ! d < 10000 \<and> walk c N j d (row ! d)"
    "d < N \<Longrightarrow> -1 \<le> row ! d \<and> row ! d < 10000"
  using assms by (force simp: good_row_def)+

lemma good_row_ok: "good_row c N j row \<Longrightarrow> row_ok row"
  by (force simp: good_row_def row_ok_def list_all_length)

text \<open>The least cost over the neighbours, when every neighbour's offer is positive.\<close>

lemma best_least:
  assumes "\<forall>k. eligible s d k \<longrightarrow> 1 \<le> via_cost s d k"
  shows "\<forall>k. eligible s d k \<longrightarrow> cost_of (snd (best s d)) \<le> via_cost s d k"
    and "snd (best s d) \<noteq> -1 \<Longrightarrow> \<exists>k. eligible s d k \<and> fst (best s d) = int k \<and> snd (best s d) = via_cost s d k \<and>
      via_cost s d k < 10000"
proof -
  show "\<forall>k. eligible s d k \<longrightarrow> cost_of (snd (best s d)) \<le> via_cost s d k"
    by (rule best_cases [of s d "fst (best s d)" "snd (best s d)"]) (use assms in \<open>fastforce simp: cost_of_def\<close>)+
  show "\<exists>k. eligible s d k \<and> fst (best s d) = int k \<and> snd (best s d) = via_cost s d k \<and> via_cost s d k < 10000"
    if "snd (best s d) \<noteq> -1"
    by (rule best_cases [of s d "fst (best s d)" "snd (best s d)"]) (use that in auto)
qed

lemma cost_of_le: "v < 10000 \<Longrightarrow> v \<noteq> -1 \<Longrightarrow> cost_of w \<le> cost_of v \<Longrightarrow> w \<noteq> -1 \<and> w \<le> v"
  by (auto simp: cost_of_def split: if_splits)

lemma links_ofD:
  assumes "links_of c N i s"
  shows "router_wf s" "nR s = N" "own s = i" "j < N \<Longrightarrow> lc s j = c i j" "i < N" "numRouter s = int N"
  using assms router_wfD(2,3) [of s] by (auto simp: links_of_def)

lemma eligible_links:
  "links_of c N i s \<Longrightarrow> eligible s d k \<longleftrightarrow> k < N \<and> k \<noteq> i \<and> c i k \<noteq> -1 \<and> dv s k d \<noteq> -1"
  using links_ofD [of c N i s] by (auto simp: eligible_def)

lemma via_cost_links: "links_of c N i s \<Longrightarrow> k < N \<Longrightarrow> via_cost s d k = c i k + dv s k d"
  using links_ofD [of c N i s] by (simp add: via_cost_def)

lemma via_cost_walk:
  assumes "links_ok c N" "links_of c N i s" "\<forall>j < N. j \<noteq> i \<longrightarrow> good_row c N j (DVTable s ! j)" "eligible s d k" "d < N"
  shows "1 \<le> via_cost s d k" "walk c N i d (via_cost s d k)"
proof -
  have k: "k < N" "k \<noteq> i" "c i k \<noteq> -1" "dv s k d \<noteq> -1" "i < N"
    using assms(4) eligible_links [OF assms(2)] links_ofD(5) [OF assms(2)] by auto
  then have g: "good_row c N k (DVTable s ! k)" using assms(3) by blast
  have v: "via_cost s d k = c i k + dv s k d" by (rule via_cost_links [OF assms(2) k(1)])
  have "1 \<le> c i k" using assms(1) k by (auto simp: links_ok_def)
  with good_rowD(3) [OF g assms(5) k(4)] show "1 \<le> via_cost s d k" by (simp add: v)
  show "walk c N i d (via_cost s d k)"
    unfolding v by (rule walk.hop) (use k good_rowD(3) [OF g assms(5) k(4)] in auto)
qed

lemma links_bounded:
  assumes "links_ok c N" "links_of c N i s" "\<forall>j < N. j \<noteq> i \<longrightarrow> good_row c N j (DVTable s ! j)"
  shows "costs_bounded s"
proof -
  have "-1 \<le> c i k \<and> c i k \<le> 1000000000" if "k < N" for k
    using assms(1) links_ofD(5) [OF assms(2)] that by (force simp: links_ok_def)
  moreover have "-1 \<le> dv s k d \<and> dv s k d \<le> 1000000000" if "k < N" "k \<noteq> i" "d < N" for k d
    using good_rowD(4) [of c N k "DVTable s ! k" d] assms(3) that by force
  ultimately show ?thesis using links_ofD [OF assms(2)] by (simp add: costs_bounded_def)
qed

text \<open>Better rows of the neighbours never make a cost worse, and an unchanged cost keeps its next hop.\<close>

lemma best_mono:
  assumes L: "links_ok c N" "links_of c N i s" "links_of c N i s1"
    and g: "\<forall>j < N. j \<noteq> i \<longrightarrow> good_row c N j (DVTable s ! j)" "\<forall>j < N. j \<noteq> i \<longrightarrow> good_row c N j (DVTable s1 ! j)"
    and le: "\<forall>j < N. j \<noteq> i \<longrightarrow> no_worse N (DVTable s ! j) (DVTable s1 ! j)" and d: "d < N"
  shows "cost_of (snd (best s1 d)) \<le> cost_of (snd (best s d))"
    and "eligible s d k \<Longrightarrow> via_cost s d k = snd (best s d) \<Longrightarrow> snd (best s1 d) = snd (best s d) \<Longrightarrow> snd (best s d) \<noteq> -1 \<Longrightarrow>
      eligible s1 d k \<and> via_cost s1 d k = snd (best s d)"
proof -
  note b = best_least [of s d] and b1 = best_least [of s1 d]
  have pos: "\<forall>k. eligible s d k \<longrightarrow> 1 \<le> via_cost s d k" "\<forall>k. eligible s1 d k \<longrightarrow> 1 \<le> via_cost s1 d k"
    using via_cost_walk(1) [OF L(1,2) g(1) _ d] via_cost_walk(1) [OF L(1,3) g(2) _ d] by blast+
  have e: "eligible s1 d k \<and> via_cost s1 d k \<le> via_cost s d k" if "eligible s d k" for k
  proof -
    have k: "k < N" "k \<noteq> i" "c i k \<noteq> -1" "dv s k d \<noteq> -1" using that eligible_links [OF L(2)] by auto
    have "dv s k d < 10000" using good_rowD(4) [of c N k "DVTable s ! k" d] g(1) k d by blast
    moreover have "cost_of (dv s1 k d) \<le> cost_of (dv s k d)" using le k d by (simp add: no_worse_def)
    ultimately have "dv s1 k d \<noteq> -1 \<and> dv s1 k d \<le> dv s k d" using cost_of_le k(4) by blast
    with k show ?thesis
      unfolding eligible_links [OF L(3)] via_cost_links [OF L(2) k(1)] via_cost_links [OF L(3) k(1)] by simp
  qed
  show le': "cost_of (snd (best s1 d)) \<le> cost_of (snd (best s d))"
  proof (cases "snd (best s d) = -1")
    case True
    have "cost_of (snd (best s1 d)) \<le> 10000"
      using b1(2) [OF pos(2)] by (cases "snd (best s1 d) = -1") (auto simp: cost_of_def)
    with True show ?thesis by (simp add: cost_of_def)
  next
    case False
    then obtain k where k: "eligible s d k" "snd (best s d) = via_cost s d k" using b(2) [OF pos(1)] by blast
    have "cost_of (snd (best s1 d)) \<le> via_cost s1 d k" using b1(1) [OF pos(2)] e [OF k(1)] by blast
    also have "\<dots> \<le> via_cost s d k" using e [OF k(1)] by blast
    finally show ?thesis using False k(2) by (simp add: cost_of_def)
  qed
  show "eligible s1 d k \<and> via_cost s1 d k = snd (best s d)"
    if k: "eligible s d k" "via_cost s d k = snd (best s d)" "snd (best s1 d) = snd (best s d)" "snd (best s d) \<noteq> -1"
  proof -
    have "cost_of (snd (best s1 d)) \<le> via_cost s1 d k" using b1(1) [OF pos(2)] e [OF k(1)] by blast
    with k e [OF k(1)] show ?thesis by (simp add: cost_of_def)
  qed
qed

text \<open>Serving a row of router \<open>k\<close> that is no worse than the stored one.\<close>

definition served :: "nat \<Rightarrow> nat \<Rightarrow> rstate \<Rightarrow> nat \<Rightarrow> int list \<Rightarrow> bool \<Rightarrow> rstate \<Rightarrow> bool" where
  "served N i s k row ch s' \<longleftrightarrow> ch = (DVTable s' ! i \<noteq> DVTable s ! i) \<and> no_worse N (DVTable s ! i) (DVTable s' ! i) \<and>
     (\<forall>j < N. j \<noteq> i \<longrightarrow> DVTable s' ! j = (if j = k then row else DVTable s ! j)) \<and>
     ownRID s' = ownRID s \<and> numRouter s' = numRouter s \<and> router_set s' = router_set s \<and> numDV s' = numDV s + 1"

lemma recompute_links:
  assumes L: "links_ok c N" "links_of c N i s" "\<forall>j < N. j \<noteq> i \<longrightarrow> good_row c N j (DVTable s ! j)"
  obtains s' where "recompute s = ret (\<exists>d < N. d \<noteq> i \<and> snd (best s d) \<noteq> dv s i d, s')" "recomputed s {0..<nR s} s'"
    "same_links s s'" "links_of c N i s'" "\<And>d. d < N \<Longrightarrow> dv s' i d = (if d = i then dv s i i else snd (best s d))"
    "\<And>j. j < N \<Longrightarrow> j \<noteq> i \<Longrightarrow> DVTable s' ! j = DVTable s ! j"
    "\<And>d j. eligible s' d j = eligible s d j" "\<And>d j. eligible s d j \<Longrightarrow> via_cost s' d j = via_cost s d j"
proof -
  note l = links_ofD [OF L(2)]
  obtain s' where r: "recompute s = ret (\<exists>d < nR s. d \<noteq> own s \<and> snd (best s d) \<noteq> dv s (own s) d, s')"
    and c: "recomputed s {0..<nR s} s'"
    by (rule recompute_spec [OF l(1) links_bounded [OF L]])
  then have sl: "same_links s s'" and wf': "router_wf s'" by (auto simp: recomputed_def)
  note f = same_linksD [OF sl]
  have ls': "links_of c N i s'" using wf' f l(2-4) by (auto simp: links_of_def)
  have D: "DVTable s' ! j = DVTable s ! j" if "j < N" "j \<noteq> i" for j using f(7) [of j] that l(2,3) by simp
  have e: "eligible s' d j = eligible s d j" for d j
    unfolding eligible_links [OF ls'] eligible_links [OF L(2)] using D by auto
  have v: "via_cost s' d j = via_cost s d j" if "eligible s d j" for d j
    using that D via_cost_links [OF ls'] via_cost_links [OF L(2)] by (simp add: eligible_links [OF L(2)])
  show thesis
    using that [OF _ c sl ls' _ D e v] r recomputed_cost [OF c] l(2,3) by simp
qed

lemma own_row_good:
  assumes L: "links_ok c N" "links_of c N i s" "\<forall>j < N. j \<noteq> i \<longrightarrow> good_row c N j (DVTable s ! j)"
    and s': "links_of c N i s'" "\<And>d. d < N \<Longrightarrow> dv s' i d = (if d = i then 0 else snd (best s d))"
  shows "good_row c N i (DVTable s' ! i)"
proof -
  note l' = links_ofD [OF s'(1)]
  have "dv s' i d = -1 \<or> 0 \<le> dv s' i d \<and> dv s' i d < 10000 \<and> walk c N i d (dv s' i d)" if d: "d < N" for d
  proof (cases "d = i \<or> snd (best s d) = -1")
    case True
    then show ?thesis using s'(2) [OF d] walk.here [OF d, of c] by auto
  next
    case False
    have "\<forall>j. eligible s d j \<longrightarrow> 1 \<le> via_cost s d j" using via_cost_walk(1) [OF L _ d] by blast
    with False obtain j where "eligible s d j" "snd (best s d) = via_cost s d j" "via_cost s d j < 10000"
      using best_least(2) by blast
    with via_cost_walk [OF L _ d] s'(2) [OF d] False show ?thesis by force
  qed
  then show ?thesis using s'(2) [OF l'(5)] router_wfD(9) [OF l'(1), of i] l'(2,5) by (simp add: good_row_def)
qed

text \<open>A changed destination gets the entry of its new next hop; an unchanged one keeps an entry that still holds.\<close>

lemma route_recomputed:
  assumes L: "links_ok c N" "links_of c N i s" "\<forall>j < N. j \<noteq> i \<longrightarrow> good_row c N j (DVTable s ! j)"
    and s': "recomputed s {0..<nR s} s'" "same_links s s'" "links_of c N i s'" "\<And>d j. eligible s' d j = eligible s d j"
      "\<And>d j. eligible s d j \<Longrightarrow> via_cost s' d j = via_cost s d j"
    and d: "d < N" "d \<noteq> i" "dv s' i d = snd (best s d)" "dv s' i d \<noteq> -1"
    and old: "snd (best s d) = dv s i d \<Longrightarrow> route_via s d"
  shows "route_via s' d"
proof (cases "snd (best s d) = dv s i d")
  case True
  then have "routing_table s' ! d = routing_table s ! d \<and> rt_available s' ! d = rt_available s ! d"
    using recomputed_entry [OF s'(1), of d] d(1) links_ofD(2,3) [OF L(2)] by simp
  with old [OF True] show ?thesis
    using True d s'(4,5) links_ofD(3) [OF L(2)] links_ofD(3) [OF s'(3)] same_linksD(6) [OF s'(2)] by (auto simp: route_via_def)
next
  case False
  have "\<forall>j. eligible s d j \<longrightarrow> 1 \<le> via_cost s d j" using via_cost_walk(1) [OF L _ d(1)] by blast
  then obtain j where j: "eligible s d j" "fst (best s d) = int j" "snd (best s d) = via_cost s d j"
    using best_least(2) [of s d] d(3,4) by metis
  then have "rt_available s' ! d = 1 \<and> routing_table s' ! d = Some (best_entry s d)"
    using recomputed_entry [OF s'(1), of d] d False links_ofD(2,3) [OF L(2)] by simp
  with j d(3) s'(4,5) links_ofD(3) [OF s'(3)] same_linksD(6) [OF s'(2)] show ?thesis
    by (auto simp: route_via_def best_entry_def)
qed

lemma recompute_served:
  assumes L: "links_ok c N" and ok: "node_ok c N i s" and k: "k < N" "k \<noteq> i"
    and row: "good_row c N k row" "no_worse N (DVTable s ! k) row"
  obtains ch s' where "recompute (with_row s k row) = ret (ch, s')" "node_ok c N i s'" "served N i s k row ch s'"
proof -
  let ?s1 = "with_row s k row"
  from ok have ls: "links_of c N i s" and nd: "0 \<le> numDV s" and g: "\<forall>j < N. good_row c N j (DVTable s ! j)"
    and be: "\<And>d. d < N \<Longrightarrow> d \<noteq> i \<Longrightarrow> dv s i d = snd (best s d)"
    and rt: "\<And>d. d < N \<Longrightarrow> d \<noteq> i \<Longrightarrow> dv s i d \<noteq> -1 \<Longrightarrow> route_via s d" by (auto simp: node_ok_def)
  note l = links_ofD [OF ls] and wf = router_wfD [OF links_ofD(1) [OF ls]]
  have wf1: "router_wf ?s1" using with_row_wf [OF l(1)] k(1) good_rowD(1) [OF row(1)] l(2) by simp
  have f1: "nR ?s1 = N" "own ?s1 = i" "router_set ?s1 = router_set s" "ownRID ?s1 = ownRID s" "numRouter ?s1 = numRouter s"
    "numDV ?s1 = numDV s + 1" "rt_available ?s1 = rt_available s" "routing_table ?s1 = routing_table s"
    using l by (simp_all add: with_row_def)
  have D1: "DVTable ?s1 ! j = (if j = k then row else DVTable s ! j)" if "j < N" for j
    using that k(1) wf(6) l(2) by (simp add: with_row_def nth_list_update)
  have ls1: "links_of c N i ?s1" using wf1 f1 l(4) by (simp add: links_of_def)
  have g1: "\<forall>j < N. j \<noteq> i \<longrightarrow> good_row c N j (DVTable ?s1 ! j)" using g row(1) D1 by simp
  have le1: "\<forall>j < N. j \<noteq> i \<longrightarrow> no_worse N (DVTable s ! j) (DVTable ?s1 ! j)" using row(2) D1 by simp
  have g0: "\<forall>j < N. j \<noteq> i \<longrightarrow> good_row c N j (DVTable s ! j)" using g by simp
  note mono = best_mono [OF L ls ls1 g0 g1 le1]
  have own1: "dv ?s1 i d = dv s i d" for d using D1 [OF l(5)] k(2) by simp
  have gi: "length (DVTable s ! i) = N" "dv s i i = 0" using g l(5) good_rowD by blast+
  obtain s' where r: "recompute ?s1 = ret (\<exists>d < N. d \<noteq> i \<and> snd (best ?s1 d) \<noteq> dv ?s1 i d, s')"
    and c: "recomputed ?s1 {0..<nR ?s1} s'" and sl: "same_links ?s1 s'" and ls': "links_of c N i s'"
    and own'': "\<And>d. d < N \<Longrightarrow> dv s' i d = (if d = i then dv ?s1 i i else snd (best ?s1 d))"
    and D': "\<And>j. j < N \<Longrightarrow> j \<noteq> i \<Longrightarrow> DVTable s' ! j = DVTable ?s1 ! j"
    and ev: "\<And>d j. eligible s' d j = eligible ?s1 d j" "\<And>d j. eligible ?s1 d j \<Longrightarrow> via_cost s' d j = via_cost ?s1 d j"
    using recompute_links [OF L ls1 g1] by blast
  note f' = same_linksD(1-6) [OF sl, unfolded f1]
  have own': "dv s' i d = (if d = i then 0 else snd (best ?s1 d))" if "d < N" for d
    using own'' [OF that] own1 gi(2) by simp
  have good': "good_row c N i (DVTable s' ! i)" by (rule own_row_good [OF L ls1 g1 ls' own'])
  have route: "route_via s' d" if d: "d < N" "d \<noteq> i" "dv s' i d \<noteq> -1" for d
  proof (rule route_recomputed [OF L ls1 g1 c sl ls' ev])
    assume same: "snd (best ?s1 d) = dv ?s1 i d"
    with own' own1 d have n: "dv s i d \<noteq> -1" "snd (best ?s1 d) = snd (best s d)" using be by simp_all
    from rt [OF d(1,2) n(1)] mono(2) [OF d(1)] n be [OF d(1,2)] show "route_via ?s1 d"
      unfolding route_via_def f1 own1 l(3) by metis
  qed (use d own' in auto)
  have "\<forall>j < N. good_row c N j (DVTable s' ! j)"
    using good' g1 D' by metis
  then have "node_ok c N i s'"
    using ls' nd f' own' best_same_links [OF sl] route by (auto simp: node_ok_def)
  moreover have "no_worse N (DVTable s ! i) (DVTable s' ! i)"
    unfolding no_worse_def using own' mono(1) be gi(2) by auto
  moreover have "(\<exists>d < N. d \<noteq> i \<and> snd (best ?s1 d) \<noteq> dv ?s1 i d) = (DVTable s' ! i \<noteq> DVTable s ! i)"
    using own' own1 gi good_rowD(1) [OF good'] by (auto simp: list_eq_iff_nth_eq)
  ultimately show thesis
    using r that D' D1 f' by (simp add: served_def)
qed

end
