(* ===== verification/RouterConverge.thy ===== *)
theory RouterConverge
  imports RouterLinks
begin

text \<open>
  Routers together: a network in which every router runs the handlers of \<open>router/router.c\<close> and the announcements travel in
  order over the links. The specification is the cost of the cheapest walk; the theorems say that the announcements
  run out and that the tables then hold that cost and a next hop that achieves it.
\<close>

section \<open>The network\<close>

text \<open>
  The routers by index, the rows in flight from one router to another, oldest first, and which routers have announced
  their row at all.
\<close>

record net =
  node :: "nat \<Rightarrow> rstate"
  wire :: "nat \<Rightarrow> nat \<Rightarrow> int list list"
  told :: "nat \<Rightarrow> bool"

abbreviation own_row :: "net \<Rightarrow> nat \<Rightarrow> int list" where
  "own_row nt i \<equiv> DVTable (node nt i) ! i"

text \<open>\<open>dv_func\<close> sends the own row to every router with a link.\<close>

definition announce :: "nat \<Rightarrow> net \<Rightarrow> net" where
  "announce i nt = nt\<lparr>wire := (wire nt)(i := (\<lambda>j. if j < nR (node nt i) \<and> lc (node nt i) j \<noteq> -1 then wire nt i j @ [own_row nt i] else wire nt i j)),
     told := (told nt)(i := True)\<rparr>"

text \<open>The oldest row of \<open>j\<close>'s link to \<open>i\<close> is served.\<close>

definition after_serve :: "net \<Rightarrow> nat \<Rightarrow> nat \<Rightarrow> int list list \<Rightarrow> rstate \<Rightarrow> net" where
  "after_serve nt i j rows s = nt\<lparr>node := (node nt)(i := s), wire := (wire nt)(j := (wire nt j)(i := rows))\<rparr>"

inductive net_serve :: "nat \<Rightarrow> net \<Rightarrow> net \<Rightarrow> bool" for N where
  serve: "i < N \<Longrightarrow> j < N \<Longrightarrow> wire nt j i = row # rows \<Longrightarrow>
     serve_row (node nt i) (dv_wire row) (4 * numRouter (node nt i)) (ownRID (node nt j)) = ret (bs, ch, s) \<Longrightarrow>
     nt' = after_serve nt i j rows s \<Longrightarrow> net_serve N nt (if ch then announce i nt' else nt')"

text \<open>The agent's \<open>DV\<close> makes a router announce its row.\<close>

inductive net_step :: "nat \<Rightarrow> net \<Rightarrow> net \<Rightarrow> bool" for N where
  start: "i < N \<Longrightarrow> net_step N nt (announce i nt)"
| step: "net_serve N nt nt' \<Longrightarrow> net_step N nt nt'"

inductive_cases net_serveE: "net_serve N nt nt'"
inductive_cases net_stepE: "net_step N nt nt'"

definition quiet :: "nat \<Rightarrow> net \<Rightarrow> bool" where
  "quiet N nt \<longleftrightarrow> (\<forall>i < N. \<forall>j < N. wire nt i j = [])"

definition ids_known :: "nat \<Rightarrow> net \<Rightarrow> bool" where
  "ids_known N nt \<longleftrightarrow> (\<forall>i < N. \<forall>j < N. RID_to_Index (node nt i) (ownRID (node nt j)) = int j)"

definition net_started :: "(nat \<Rightarrow> nat \<Rightarrow> int) \<Rightarrow> nat \<Rightarrow> net \<Rightarrow> bool" where
  "net_started c N nt \<longleftrightarrow> (\<forall>i < N. started c N i (node nt i)) \<and> ids_known N nt \<and> (\<forall>i. told nt i = False) \<and> (\<forall>i j. wire nt i j = [])"

section \<open>The invariant of the network\<close>

text \<open>The rows of \<open>j\<close> on their way to \<open>i\<close>: the one \<open>i\<close> has stored, those in flight, and the one \<open>j\<close> has now.\<close>

definition rows_of :: "net \<Rightarrow> nat \<Rightarrow> nat \<Rightarrow> int list list" where
  "rows_of nt i j = DVTable (node nt i) ! j # wire nt j i"

definition in_order :: "nat \<Rightarrow> int list list \<Rightarrow> bool" where
  "in_order N rows \<longleftrightarrow> sorted_wrt (no_worse N) rows"

definition link_ok :: "(nat \<Rightarrow> nat \<Rightarrow> int) \<Rightarrow> nat \<Rightarrow> net \<Rightarrow> nat \<Rightarrow> nat \<Rightarrow> bool" where
  "link_ok c N nt i j \<longleftrightarrow> in_order N (rows_of nt i j @ [own_row nt j]) \<and> (\<forall>row \<in> set (wire nt j i). good_row c N j row) \<and>
     (wire nt j i \<noteq> [] \<longrightarrow> c j i \<noteq> -1)"

definition told_ok :: "(nat \<Rightarrow> nat \<Rightarrow> int) \<Rightarrow> net \<Rightarrow> nat \<Rightarrow> nat \<Rightarrow> bool" where
  "told_ok c nt i j \<longleftrightarrow> (told nt j \<and> c j i \<noteq> -1 \<longrightarrow> last (rows_of nt i j) = own_row nt j)"

text \<open>\<open>U\<close> holds the routers whose row has changed and that have not announced it yet.\<close>

definition net_ok :: "(nat \<Rightarrow> nat \<Rightarrow> int) \<Rightarrow> nat \<Rightarrow> nat set \<Rightarrow> net \<Rightarrow> bool" where
  "net_ok c N U nt \<longleftrightarrow> links_ok c N \<and> ids_known N nt \<and> (\<forall>i < N. node_ok c N i (node nt i)) \<and> (\<forall>i < N. wire nt i i = []) \<and>
     (\<forall>i < N. \<forall>j < N. i \<noteq> j \<longrightarrow> link_ok c N nt i j \<and> (j \<notin> U \<longrightarrow> told_ok c nt i j))"

lemma in_order_Cons: "in_order N (r # q # xs) \<longleftrightarrow> no_worse N r q \<and> in_order N (q # xs)"
  by (auto simp: in_order_def intro: no_worse_trans)

lemma in_order_append: "in_order N (xs @ [a]) \<Longrightarrow> no_worse N a b \<Longrightarrow> in_order N (xs @ [b]) \<and> in_order N (xs @ [b, b])"
  by (auto simp: in_order_def sorted_wrt_append intro: no_worse_trans)

lemma net_okD:
  assumes "net_ok c N U nt"
  shows "links_ok c N" "ids_known N nt" "i < N \<Longrightarrow> node_ok c N i (node nt i)" "i < N \<Longrightarrow> wire nt i i = []"
    "i < N \<Longrightarrow> j < N \<Longrightarrow> i \<noteq> j \<Longrightarrow> link_ok c N nt i j"
    "i < N \<Longrightarrow> j < N \<Longrightarrow> i \<noteq> j \<Longrightarrow> j \<notin> U \<Longrightarrow> told_ok c nt i j"
  using assms by (auto simp: net_ok_def)

text \<open>Announcing settles a router's debt.\<close>

lemma announce_ok:
  assumes ok: "net_ok c N U nt" and i: "i < N"
  shows "net_ok c N (U - {i}) (announce i nt)"
proof -
  let ?nt = "announce i nt"
  have n: "node_ok c N i (node nt i)" and L: "links_ok c N" using net_okD [OF ok] i by auto
  then have ls: "links_of c N i (node nt i)" and g: "good_row c N i (own_row nt i)"
    using i by (auto simp: node_ok_def)
  have w: "wire ?nt k j = (if k = i \<and> j < N \<and> c i j \<noteq> -1 then wire nt i j @ [own_row nt i] else wire nt k j)" for k j
    using links_ofD(2,4) [OF ls] by (auto simp: announce_def)
  have nd: "node ?nt = node nt" by (simp add: announce_def)
  have "link_ok c N ?nt k j \<and> (j \<notin> U - {i} \<longrightarrow> told_ok c ?nt k j)" if kj: "k < N" "j < N" "k \<noteq> j" for k j
  proof -
    have lk: "link_ok c N nt k j" by (rule net_okD(5) [OF ok kj])
    show ?thesis
    proof (cases "j = i \<and> c j k \<noteq> -1")
      case True
      then have "wire ?nt j k = wire nt j k @ [own_row nt j]" using w [of j k] kj by auto
      with lk in_order_append [of N "rows_of nt k j" "own_row nt j"] g True show ?thesis
        by (auto simp: link_ok_def told_ok_def rows_of_def nd)
    next
      case False
      then have "wire ?nt j k = wire nt j k" "told ?nt j \<and> c j k \<noteq> -1 \<longrightarrow> told nt j \<and> j \<noteq> i"
        using w kj by (auto simp: announce_def)
      with lk net_okD(6) [OF ok kj] show ?thesis by (auto simp: link_ok_def told_ok_def rows_of_def nd)
    qed
  qed
  moreover have "wire ?nt k k = []" if "k < N" for k
    using net_okD(4) [OF ok that] that L by (auto simp: w links_ok_def)
  ultimately show ?thesis using net_okD(1-3) [OF ok] by (simp add: net_ok_def ids_known_def nd)
qed

lemma after_serve_ok:
  assumes ok: "net_ok c N {} nt" and ij: "i < N" "j < N" "i \<noteq> j" and w: "wire nt j i = row # rows"
    and s: "node_ok c N i s" "served N i (node nt i) j row ch s"
  shows "net_ok c N (if ch then {i} else {}) (after_serve nt i j rows s)"
proof -
  let ?nt = "after_serve nt i j rows s"
  have own: "own_row ?nt k = (if k = i then DVTable s ! i else own_row nt k)" for k by (simp add: after_serve_def)
  have le: "no_worse N (own_row nt i) (own_row ?nt i)" and ch: "ch = (DVTable s ! i \<noteq> own_row nt i)"
    using s(2) own by (auto simp: served_def)
  have rows: "rows_of ?nt k l = (if k = i \<and> l = j then tl (rows_of nt i j) else rows_of nt k l)" if "k < N" "l < N" "k \<noteq> l" for k l
    using s(2) that w by (auto simp: rows_of_def after_serve_def served_def)
  have wl: "set (wire ?nt l k) \<subseteq> set (wire nt l k)" for k l using w by (auto simp: after_serve_def)
  have lk: "link_ok c N ?nt k l" if kl: "k < N" "l < N" "k \<noteq> l" for k l
  proof -
    have o: "in_order N (rows_of nt k l @ [own_row nt l])" and gl: "\<forall>r \<in> set (wire nt l k). good_row c N l r"
      "wire nt l k \<noteq> [] \<longrightarrow> c l k \<noteq> -1" using net_okD(5) [OF ok kl] by (auto simp: link_ok_def)
    have "in_order N (rows_of ?nt k l @ [own_row nt l])"
      using o w rows [OF kl] in_order_Cons by (auto simp: rows_of_def)
    then have "in_order N (rows_of ?nt k l @ [own_row ?nt l])" using in_order_append le own by (cases "l = i") auto
    with gl wl [of l k] show ?thesis by (auto simp: link_ok_def)
  qed
  have tl: "told_ok c ?nt k l" if kl: "k < N" "l < N" "k \<noteq> l" "l \<notin> (if ch then {i} else {})" for k l
  proof -
    have "own_row ?nt l = own_row nt l" using own ch kl(4) by auto
    moreover have "last (rows_of ?nt k l) = last (rows_of nt k l)" using rows [OF kl(1-3)] w by (simp add: rows_of_def)
    moreover have "told ?nt = told nt" by (simp add: after_serve_def)
    ultimately show ?thesis using net_okD(6) [OF ok kl(1-3)] by (simp add: told_ok_def)
  qed
  have "ids_known N ?nt"
    using net_okD(2) [OF ok] s(2) by (auto simp: ids_known_def after_serve_def served_def RID_to_Index_def)
  moreover have "wire ?nt k k = []" if "k < N" for k using net_okD(4) [OF ok that] ij(3) by (auto simp: after_serve_def)
  moreover have "node_ok c N k (node ?nt k)" if "k < N" for k using net_okD(3) [OF ok that] s(1) by (simp add: after_serve_def)
  ultimately show ?thesis using net_okD(1) [OF ok] lk tl by (simp add: net_ok_def)
qed

lemma head_served:
  assumes ok: "net_ok c N {} nt" and ij: "i < N" "j < N" and w: "wire nt j i = row # rows"
    and n: "numDV (node nt i) < int_max"
  obtains ch s where "i \<noteq> j" "node_ok c N i s" "served N i (node nt i) j row ch s"
    "serve_row (node nt i) (dv_wire row) (4 * numRouter (node nt i)) (ownRID (node nt j)) = ret (row_bytes row, ch, s)"
proof -
  have ne: "i \<noteq> j" using net_okD(4) [OF ok ij(1)] w by auto
  have nd: "node_ok c N i (node nt i)" by (rule net_okD(3) [OF ok ij(1)])
  then have ls: "links_of c N i (node nt i)" and n0: "0 \<le> numDV (node nt i)" by (auto simp: node_ok_def)
  have g: "good_row c N j row" and le: "no_worse N (DVTable (node nt i) ! j) row"
    using net_okD(5) [OF ok ij ne] w by (auto simp: link_ok_def rows_of_def in_order_Cons)
  obtain ch s where r: "recompute (with_row (node nt i) j row) = ret (ch, s)" "node_ok c N i s" "served N i (node nt i) j row ch s"
    by (rule recompute_served [OF net_okD(1) [OF ok] nd ij(2) ne [symmetric] g le])
  have "RID_to_Index (node nt i) (ownRID (node nt j)) = int j" using net_okD(2) [OF ok] ij by (simp add: ids_known_def)
  with serve_row_recomputes [of "node nt i" j row "ownRID (node nt j)"] links_ofD(1,2) [OF ls] ij(2) good_rowD(1) [OF g]
    good_row_ok [OF g] n0 n r(1)
  have "serve_row (node nt i) (dv_wire row) (4 * numRouter (node nt i)) (ownRID (node nt j)) = ret (row_bytes row, ch, s)" by simp
  with ne r(2,3) show thesis by (rule that)
qed

lemma net_serve_cases:
  assumes "net_serve N nt nt'" "net_ok c N {} nt"
  obtains i j row rows ch s where "i < N" "j < N" "i \<noteq> j" "wire nt j i = row # rows" "node_ok c N i s"
    "served N i (node nt i) j row ch s"
    "nt' = (if ch then announce i (after_serve nt i j rows s) else after_serve nt i j rows s)"
proof -
  from assms(1) obtain i j row rows bs ch s where w: "i < N" "j < N" "wire nt j i = row # rows"
    and r: "serve_row (node nt i) (dv_wire row) (4 * numRouter (node nt i)) (ownRID (node nt j)) = ret (bs, ch, s)"
    and nt': "nt' = (if ch then announce i (after_serve nt i j rows s) else after_serve nt i j rows s)"
    by (rule net_serveE)
  have n: "numDV (node nt i) < int_max"
  proof (rule ccontr)
    assume "\<not> numDV (node nt i) < int_max"
    then have "cint (numDV (node nt i) + 1) = halt Overflow" by (simp add: cint_def)
    with r show False by (simp add: serve_row_def)
  qed
  from head_served [OF assms(2) w n] r have "i \<noteq> j" "node_ok c N i s" "served N i (node nt i) j row ch s" by auto
  with w nt' show thesis using that by blast
qed

lemma net_serve_ok:
  assumes "net_serve N nt nt'" "net_ok c N {} nt"
  shows "net_ok c N {} nt'"
proof (rule net_serve_cases [OF assms])
  fix i j row rows ch s
  assume h: "i < N" "j < N" "i \<noteq> j" "wire nt j i = row # rows" "node_ok c N i s" "served N i (node nt i) j row ch s"
    "nt' = (if ch then announce i (after_serve nt i j rows s) else after_serve nt i j rows s)"
  from after_serve_ok [OF assms(2) h(1-6)] announce_ok [of c N "{i}" "after_serve nt i j rows s" i] h(1,7)
  show ?thesis by (cases ch) auto
qed

lemma net_step_ok: "net_step N nt nt' \<Longrightarrow> net_ok c N {} nt \<Longrightarrow> net_ok c N {} nt'"
  by (erule net_stepE) (use announce_ok [of c N "{}"] net_serve_ok in auto)

interpretation network: invariant_system "net_step N" "net_ok c N {}" for c N
  by unfold_locales (rule net_step_ok)

interpretation serving: invariant_system "net_serve N" "net_ok c N {}" for c N
  by unfold_locales (rule net_serve_ok)

text \<open>The tables right after the start satisfy it.\<close>

lemma started_node_ok:
  assumes L: "links_ok c N" and st: "started c N i s"
  shows "node_ok c N i s"
proof -
  from st have ls: "links_of c N i s" and n: "0 \<le> numDV s"
    and dv: "\<And>j d. j < N \<Longrightarrow> d < N \<Longrightarrow> dv s j d = (if j = d then 0 else if j = i then c i d else -1)"
    and rt: "\<And>d. d < N \<Longrightarrow> c i d \<noteq> -1 \<Longrightarrow> rt_available s ! d = 1 \<and> routing_table s ! d =
        Some \<lparr>dest_RID = RID (router_set s ! d), nextHop_RID = RID (router_set s ! d), pathCost = c i d\<rparr>"
    by (auto simp: started_def)
  note l = links_ofD [OF ls]
  have c: "c i d \<noteq> -1 \<Longrightarrow> d < N \<Longrightarrow> 1 \<le> c i d \<and> c i d < 10000" for d using L l(5) by (auto simp: links_ok_def)
  have g: "good_row c N j (DVTable s ! j)" if j: "j < N" for j
    unfolding good_row_def
  proof (intro conjI allI impI)
    show "length (DVTable s ! j) = N" using router_wfD(9) [OF l(1), of j] j l(2) by simp
    show "dv s j j = 0" using dv j by simp
    fix d assume d: "d < N"
    have "walk c N j d (c j d + 0)" if "c j d \<noteq> -1" by (intro walk.hop walk.here) (use j d that in auto)
    then show "dv s j d = -1 \<or> 0 \<le> dv s j d \<and> dv s j d < 10000 \<and> walk c N j d (dv s j d)"
      using dv [OF j d] c [OF _ d] walk.here [OF d, of c] by auto
  qed
  have e: "eligible s d k \<longleftrightarrow> k = d \<and> c i d \<noteq> -1" if d: "d < N" "d \<noteq> i" for d k
    using dv [of k d] d by (auto simp: eligible_links [OF ls] split: if_splits)
  have v: "via_cost s d d = c i d" if "d < N" for d using via_cost_links [OF ls that] dv [OF that that] by simp
  have b: "snd (best s d) = c i d" if d: "d < N" "d \<noteq> i" for d
  proof (rule best_cases [of s d "fst (best s d)" "snd (best s d)"])
    assume "snd (best s d) = -1" "\<forall>k. eligible s d k \<longrightarrow> via_cost s d k \<ge> 10000 \<or> (\<exists>j. eligible s d j \<and> via_cost s d j = -1)"
    with c [OF _ d(1)] v [OF d(1)] show ?thesis by (force simp: e [OF d])
  qed (use v [OF d(1)] in \<open>auto simp: e [OF d]\<close>)
  have "route_via s d" if d: "d < N" "d \<noteq> i" "dv s i d \<noteq> -1" for d
    using rt [OF d(1)] dv [OF l(5) d(1)] d e [OF d(1,2), of d] v [OF d(1)] by (auto simp: route_via_def l(3) intro!: exI [of _ d])
  then show ?thesis using ls n g b dv l(5) by (auto simp: node_ok_def)
qed

lemma started_ok:
  assumes L: "links_ok c N" and st: "net_started c N nt"
  shows "net_ok c N {} nt"
proof -
  from st have s: "\<And>i. i < N \<Longrightarrow> started c N i (node nt i)" and w: "\<And>i j. wire nt i j = []" "\<And>i. \<not> told nt i" "ids_known N nt"
    by (auto simp: net_started_def)
  have "no_worse N (DVTable (node nt i) ! j) (own_row nt j)" if ij: "i < N" "j < N" "i \<noteq> j" for i j
    unfolding no_worse_def
  proof (intro allI impI)
    fix d assume d: "d < N"
    have "-1 \<le> c j d \<and> c j d < 10000" using L ij(2) d by (force simp: links_ok_def)
    with s [OF ij(1)] s [OF ij(2)] ij d show "cost_of (dv (node nt j) j d) \<le> cost_of (dv (node nt i) j d)"
      by (auto simp: started_def cost_of_def)
  qed
  then show ?thesis
    using w L started_node_ok [OF L s]
    by (simp add: net_ok_def link_ok_def told_ok_def rows_of_def in_order_def)
qed

section \<open>The announcements run out\<close>

definition in_flight :: "nat \<Rightarrow> net \<Rightarrow> nat" where
  "in_flight N nt = (\<Sum>i < N. \<Sum>j < N. length (wire nt i j))"

definition row_sum :: "nat \<Rightarrow> int list \<Rightarrow> nat" where
  "row_sum N row = (\<Sum>d < N. nat (cost_of (row ! d)))"

definition potential :: "nat \<Rightarrow> net \<Rightarrow> nat" where
  "potential N nt = (\<Sum>i < N. row_sum N (own_row nt i)) * (N + 1) + in_flight N nt"

lemma sum_one_changed:
  fixes f g :: "nat \<Rightarrow> nat"
  assumes "i < N" "\<And>j. j < N \<Longrightarrow> j \<noteq> i \<Longrightarrow> g j = f j" "g i + k = f i"
  shows "(\<Sum>j < N. g j) + k = (\<Sum>j < N. f j)"
proof -
  have "(\<Sum>j < N. g j) = g i + (\<Sum>j \<in> {..<N} - {i}. g j)" "(\<Sum>j < N. f j) = f i + (\<Sum>j \<in> {..<N} - {i}. f j)"
    using assms(1) by (auto intro: sum.remove)
  moreover have "(\<Sum>j \<in> {..<N} - {i}. g j) = (\<Sum>j \<in> {..<N} - {i}. f j)" by (rule sum.cong) (use assms(2) in auto)
  ultimately show ?thesis using assms(3) by simp
qed

lemma in_flight_after_serve:
  assumes "i < N" "j < N" "wire nt j i = row # rows"
  shows "in_flight N (after_serve nt i j rows s) + 1 = in_flight N nt"
  unfolding in_flight_def
  by (rule sum_one_changed [OF assms(2)])
    (auto simp: after_serve_def assms(3) intro: sum_one_changed [OF assms(1), of _ _ 1, simplified])

lemma in_flight_announce: "i < N \<Longrightarrow> in_flight N (announce i nt) \<le> in_flight N nt + N"
proof -
  assume i: "i < N"
  have "in_flight N (announce i nt) \<le> (\<Sum>a < N. (\<Sum>b < N. length (wire nt a b)) + (if a = i then N else 0))"
    unfolding in_flight_def
  proof (rule sum_mono)
    fix a
    have "(\<Sum>b < N. length (wire (announce i nt) a b)) \<le> (\<Sum>b < N. length (wire nt a b) + (if a = i then 1 else 0))"
      by (rule sum_mono) (simp add: announce_def)
    then show "(\<Sum>b < N. length (wire (announce i nt) a b)) \<le> (\<Sum>b < N. length (wire nt a b)) + (if a = i then N else 0)"
      by (auto simp: sum.distrib split: if_splits)
  qed
  also have "\<dots> = in_flight N nt + N" using i by (simp add: sum.distrib in_flight_def)
  finally show ?thesis .
qed

lemma row_sum_le: "no_worse N old new \<Longrightarrow> row_sum N new \<le> row_sum N old"
  unfolding row_sum_def no_worse_def by (rule sum_mono) (auto intro: nat_mono)

lemma cost_of_nonneg: "-1 \<le> v \<Longrightarrow> 0 \<le> cost_of v"
  by (simp add: cost_of_def)

lemma row_sum_less:
  assumes "good_row c N i old" "good_row c N i new" "no_worse N old new" "new \<noteq> old"
  shows "row_sum N new < row_sum N old"
proof -
  from assms(1,2,4) obtain d where d: "d < N" "new ! d \<noteq> old ! d" by (auto simp: good_row_def list_eq_iff_nth_eq)
  have r: "-1 \<le> old ! d \<and> old ! d < 10000" "-1 \<le> new ! d \<and> new ! d < 10000"
    using good_rowD(4) assms(1,2) d(1) by blast+
  have "cost_of (new ! d) \<le> cost_of (old ! d)" using assms(3) d(1) by (simp add: no_worse_def)
  with r d(2) have "nat (cost_of (new ! d)) < nat (cost_of (old ! d))" by (auto simp: cost_of_def split: if_splits)
  moreover have "\<forall>d \<in> {..<N}. nat (cost_of (new ! d)) \<le> nat (cost_of (old ! d))"
    using assms(3) by (auto simp: no_worse_def intro: nat_mono)
  ultimately show ?thesis unfolding row_sum_def using d(1) by (intro sum_strict_mono_ex1) auto
qed

lemma potential_decreases:
  assumes "net_serve N nt nt'" "net_ok c N {} nt"
  shows "potential N nt' < potential N nt"
proof (rule net_serve_cases [OF assms])
  fix i j row rows ch s
  assume h: "i < N" "j < N" "i \<noteq> j" "wire nt j i = row # rows" "node_ok c N i s" "served N i (node nt i) j row ch s"
    "nt' = (if ch then announce i (after_serve nt i j rows s) else after_serve nt i j rows s)"
  let ?R = "\<lambda>nt. \<Sum>i < N. row_sum N (own_row nt i)" and ?nt = "after_serve nt i j rows s"
  have fl: "in_flight N ?nt + 1 = in_flight N nt" by (rule in_flight_after_serve [OF h(1,2,4)])
  have own: "own_row ?nt i = DVTable s ! i" "\<And>k. k \<noteq> i \<Longrightarrow> own_row ?nt k = own_row nt k" by (simp_all add: after_serve_def)
  have le: "no_worse N (own_row nt i) (DVTable s ! i)" and ch: "ch = (DVTable s ! i \<noteq> own_row nt i)"
    using h(6) by (auto simp: served_def)
  have R: "?R ?nt + (row_sum N (own_row nt i) - row_sum N (DVTable s ! i)) = ?R nt"
    by (rule sum_one_changed [OF h(1)]) (use own row_sum_le [OF le] in auto)
  show ?thesis
  proof (cases ch)
    case False
    with R fl own ch h(7) show ?thesis by (simp add: potential_def)
  next
    case True
    have g: "good_row c N i (own_row nt i)" "good_row c N i (DVTable s ! i)"
      using net_okD(3) [OF assms(2) h(1)] h(1,5) by (auto simp: node_ok_def)
    have "row_sum N (DVTable s ! i) < row_sum N (own_row nt i)" by (rule row_sum_less [OF g le]) (use ch True in simp)
    with R have "?R ?nt + 1 \<le> ?R nt" by simp
    then have "(?R ?nt + 1) * (N + 1) \<le> ?R nt * (N + 1)" by (rule mult_le_mono1)
    moreover have "in_flight N nt' \<le> in_flight N ?nt + N" using in_flight_announce [OF h(1)] h(7) True by simp
    moreover have "?R nt' = ?R ?nt" using h(7) True by (simp add: announce_def)
    ultimately show ?thesis using fl by (simp add: potential_def algebra_simps)
  qed
qed

lemma row_sum_bound: "good_row c N i row \<Longrightarrow> row_sum N row \<le> N * 10000"
proof -
  assume g: "good_row c N i row"
  have "row_sum N row \<le> (\<Sum>d < N. 10000)"
    unfolding row_sum_def
  proof (rule sum_mono)
    fix d assume "d \<in> {..<N}"
    then have "row ! d < 10000" using good_rowD(4) [OF g] by blast
    then show "nat (cost_of (row ! d)) \<le> 10000" by (simp add: cost_of_def nat_le_iff)
  qed
  then show ?thesis by simp
qed

lemma potential_bound:
  assumes "net_ok c N {} nt"
  shows "potential N nt \<le> 10000 * N * N * (N + 1) + in_flight N nt"
proof -
  have "(\<Sum>i < N. row_sum N (own_row nt i)) \<le> (\<Sum>i < N. N * 10000)"
  proof (rule sum_mono)
    fix i assume "i \<in> {..<N}"
    then have "node_ok c N i (node nt i)" "i < N" using net_okD(3) [OF assms] by auto
    then show "row_sum N (own_row nt i) \<le> N * 10000" using row_sum_bound by (auto simp: node_ok_def)
  qed
  then have "(\<Sum>i < N. row_sum N (own_row nt i)) * (N + 1) \<le> (10000 * N * N) * (N + 1)"
    by (intro mult_le_mono1) (simp add: mult.commute mult.left_commute)
  then show ?thesis by (simp add: potential_def)
qed

lemma serving_bounded:
  "(net_serve N ^^ n) nt nt' \<Longrightarrow> net_ok c N {} nt \<Longrightarrow> n + potential N nt' \<le> potential N nt \<and> net_ok c N {} nt'"
proof (induction n arbitrary: nt')
  case (Suc n)
  then obtain nt1 where s: "(net_serve N ^^ n) nt nt1" "net_serve N nt1 nt'" by (auto elim: relpowp_Suc_E)
  with Suc.IH Suc.prems(2) potential_decreases [OF s(2)] net_serve_ok [OF s(2)] show ?case by fastforce
qed simp

text \<open>The counter of received rows cannot overflow when it leaves room for what is still to come.\<close>

lemma serving_counts:
  assumes "net_serve N nt nt'" "net_ok c N {} nt"
  shows "numDV (node nt' k) + int (potential N nt') \<le> numDV (node nt k) + int (potential N nt)"
proof (rule net_serve_cases [OF assms])
  fix i j row rows ch s
  assume h: "served N i (node nt i) j row ch s"
    "nt' = (if ch then announce i (after_serve nt i j rows s) else after_serve nt i j rows s)"
  then have "numDV (node nt' k) \<le> numDV (node nt k) + 1"
    by (auto simp: served_def after_serve_def announce_def)
  with potential_decreases [OF assms] show ?thesis by linarith
qed

lemma told_serve: "net_serve N nt nt' \<Longrightarrow> told nt i \<Longrightarrow> told nt' i"
  by (erule net_serveE) (auto simp: after_serve_def announce_def)

lemma serve_possible:
  assumes ok: "net_ok c N {} nt" and q: "\<not> quiet N nt" and n: "\<forall>i < N. numDV (node nt i) < int_max"
  shows "\<exists>nt'. net_serve N nt nt'"
proof -
  from q obtain i j row rows where ij: "i < N" "j < N" "wire nt j i = row # rows" by (auto simp: quiet_def neq_Nil_conv)
  obtain ch s where "serve_row (node nt i) (dv_wire row) (4 * numRouter (node nt i)) (ownRID (node nt j)) = ret (row_bytes row, ch, s)"
    by (rule head_served [OF ok ij]) (use n ij(1) in auto)
  from net_serve.serve [OF ij this refl] show ?thesis by blast
qed

lemma potential_pos: "\<not> quiet N nt \<Longrightarrow> 0 < potential N nt"
proof -
  assume "\<not> quiet N nt"
  then obtain i j where "i < N" "j < N" "wire nt i j \<noteq> []" by (auto simp: quiet_def)
  then have "0 < (\<Sum>j < N. length (wire nt i j))" by (intro sum_pos2 [of _ j]) simp_all
  with \<open>i < N\<close> have "0 < in_flight N nt" unfolding in_flight_def
    using sum_pos2 [of "{..<N}" i "\<lambda>i. \<Sum>j < N. length (wire nt i j)"] by simp
  then show ?thesis by (simp add: potential_def)
qed

lemma serving_room:
  "(net_serve N ^^ n) nt nt' \<Longrightarrow> net_ok c N {} nt \<Longrightarrow> numDV (node nt' k) + int (potential N nt') \<le> numDV (node nt k) + int (potential N nt)"
proof (induction n arbitrary: nt')
  case (Suc n)
  then obtain nt1 where s: "(net_serve N ^^ n) nt nt1" "net_serve N nt1 nt'" by (auto elim: relpowp_Suc_E)
  with Suc.IH [OF s(1) Suc.prems(2)] serving_counts [OF s(2), of c k] serving_bounded [OF s(1) Suc.prems(2)] show ?case by linarith
qed simp

lemma serving_continues:
  assumes "(net_serve N ^^ n) nt nt'" "net_ok c N {} nt" "\<forall>i < N. numDV (node nt i) + int (potential N nt) \<le> int_max"
  shows "quiet N nt' \<or> (\<exists>nt''. net_serve N nt' nt'')"
proof (cases "quiet N nt'")
  case False
  have "numDV (node nt' i) < int_max" if "i < N" for i
    using serving_room [OF assms(1,2), of i] assms(3) that potential_pos [OF False] by (smt (verit) of_nat_0_less_iff)
  with serve_possible [OF _ False] serving_bounded [OF assms(1,2)] show ?thesis by blast
qed simp

lemma serving_settles:
  assumes "net_ok c N {} nt" "\<forall>i < N. numDV (node nt i) + int (potential N nt) \<le> int_max"
  shows "\<exists>n nt'. (net_serve N ^^ n) nt nt' \<and> quiet N nt'"
proof (rule ccontr)
  assume no: "\<not> ?thesis"
  have "\<exists>nt'. (net_serve N ^^ n) nt nt'" for n
  proof (induction n)
    case (Suc n)
    then obtain nt' where "(net_serve N ^^ n) nt nt'" by blast
    with no serving_continues [OF this assms] show ?case by (auto intro: relpowp_Suc_I)
  qed auto
  then obtain nt' where "(net_serve N ^^ Suc (potential N nt)) nt nt'" by blast
  from serving_bounded [OF this assms(1)] show False by simp
qed

section \<open>What quiet tables hold\<close>

lemma walk_nonneg: "walk c N i d w \<Longrightarrow> links_ok c N \<Longrightarrow> 0 \<le> w"
proof (induction rule: walk.induct)
  case (hop i j d w)
  then have "1 \<le> c i j" unfolding links_ok_def by blast
  with hop show ?case by simp
qed simp

lemma quiet_rows:
  assumes "net_ok c N {} nt" "quiet N nt" "told nt j" "i < N" "j < N" "c i j \<noteq> -1"
  shows "DVTable (node nt i) ! j = own_row nt j" "i \<noteq> j"
proof -
  have L: "links_ok c N" by (rule net_okD(1) [OF assms(1)])
  with assms(4-6) show ne: "i \<noteq> j" unfolding links_ok_def by blast
  have "c j i \<noteq> -1" using L assms(4-6) unfolding links_ok_def by blast
  then show "DVTable (node nt i) ! j = own_row nt j"
    using net_okD(6) [OF assms(1,4,5) ne] assms(2-5) by (simp add: told_ok_def rows_of_def quiet_def)
qed

lemma quiet_upper:
  assumes ok: "net_ok c N {} nt" and q: "quiet N nt" and t: "\<forall>i < N. told nt i"
  shows "walk c N i d w \<Longrightarrow> cost_of (dv (node nt i) i d) \<le> w"
proof (induction rule: walk.induct)
  case (here i)
  then show ?case using net_okD(3) [OF ok here] by (simp add: node_ok_def good_row_def cost_of_def)
next
  case (hop i j d w)
  have L: "links_ok c N" by (rule net_okD(1) [OF ok])
  have n: "node_ok c N i (node nt i)" by (rule net_okD(3) [OF ok hop(1)])
  then have ls: "links_of c N i (node nt i)" and g: "\<forall>j < N. good_row c N j (DVTable (node nt i) ! j)" by (auto simp: node_ok_def)
  have d: "d < N" using walk_ends hop(4) by blast
  have w: "0 \<le> w" "1 \<le> c i j" using walk_nonneg [OF hop(4) L] L hop(1-3) unfolding links_ok_def by blast+
  note r = quiet_rows [OF ok q _ hop(1-3)]
  have le10: "cost_of (dv (node nt i) i d) \<le> 10000"
    using g hop(1) d good_rowD(4) by (fastforce simp: cost_of_def)
  show ?case
  proof (cases "d = i \<or> dv (node nt j) j d = -1")
    case True
    then show ?thesis
    proof
      assume "d = i"
      then show ?thesis using g hop(1) w good_rowD(2) by (force simp: cost_of_def)
    next
      assume "dv (node nt j) j d = -1"
      with hop(5) w le10 show ?thesis by (simp add: cost_of_def)
    qed
  next
    case False
    have e: "eligible (node nt i) d j" "via_cost (node nt i) d j = c i j + dv (node nt j) j d"
      using False r t hop(2,3) by (auto simp: eligible_links [OF ls] via_cost_links [OF ls hop(2)])
    have "\<forall>k. eligible (node nt i) d k \<longrightarrow> 1 \<le> via_cost (node nt i) d k" using via_cost_walk(1) [OF L ls _ _ d] g by blast
    from best_least(1) [OF this] e have "cost_of (snd (best (node nt i) d)) \<le> c i j + dv (node nt j) j d" by metis
    with n False d hop(5) show ?thesis by (auto simp: node_ok_def cost_of_def split: if_splits)
  qed
qed

lemma quiet_cheapest:
  assumes ok: "net_ok c N {} nt" and q: "quiet N nt" and t: "\<forall>i < N. told nt i" and d: "i < N" "d < N"
  shows "cheapest c N i d (dv (node nt i) i d)"
proof -
  have "good_row c N i (own_row nt i)" using net_okD(3) [OF ok d(1)] d(1) by (simp add: node_ok_def)
  from good_rowD(3) [OF this d(2)] quiet_upper [OF ok q t, of i d] show ?thesis
    by (auto simp: cheapest_def cost_of_def)
qed

text \<open>The entry of a reachable destination, by the ids of the routers.\<close>

lemma node_route:
  assumes ok: "net_ok c N {} nt" and d: "i < N" "d < N" "d \<noteq> i" and v: "dv (node nt i) i d \<noteq> -1"
  shows "rt_available (node nt i) ! d = 1 \<and> (\<exists>k < N. c i k \<noteq> -1 \<and> dv (node nt i) k d \<noteq> -1 \<and>
    dv (node nt i) i d = c i k + dv (node nt i) k d \<and> routing_table (node nt i) ! d =
      Some \<lparr>dest_RID = ownRID (node nt d), nextHop_RID = ownRID (node nt k), pathCost = dv (node nt i) i d\<rparr>)"
proof -
  have n: "node_ok c N i (node nt i)" by (rule net_okD(3) [OF ok d(1)])
  then have ls: "links_of c N i (node nt i)" and r: "route_via (node nt i) d" using d v by (auto simp: node_ok_def)
  have id: "RID (router_set (node nt i) ! k) = ownRID (node nt k)" if "k < N" for k
  proof -
    have "RID_to_Index (node nt i) (ownRID (node nt k)) = int k" using net_okD(2) [OF ok] d(1) that by (simp add: ids_known_def)
    with links_ofD(1) [OF ls] show ?thesis by (cases rule: RID_to_Index_cases [where rid = "ownRID (node nt k)"]) auto
  qed
  with r d(2) show ?thesis
    by (auto simp: route_via_def links_ofD(3) [OF ls] eligible_links [OF ls] via_cost_links [OF ls])
qed

text \<open>A packet on its way to \<open>d\<close>, forwarded by the routing tables, and what its hops cost.\<close>

inductive travels :: "(nat \<Rightarrow> nat \<Rightarrow> int) \<Rightarrow> net \<Rightarrow> nat \<Rightarrow> nat \<Rightarrow> int \<Rightarrow> bool" for c nt d where
  arrived: "travels c nt d d 0"
| forward: "i \<noteq> d \<Longrightarrow> routing_table (node nt i) ! d = Some e \<Longrightarrow> RID_to_Index (node nt i) (nextHop_RID e) = int k \<Longrightarrow>
     c i k \<noteq> -1 \<Longrightarrow> travels c nt d k w \<Longrightarrow> travels c nt d i (c i k + w)"

lemma quiet_travels:
  assumes ok: "net_ok c N {} nt" and q: "quiet N nt" and t: "\<forall>i < N. told nt i" and d: "d < N"
  shows "i < N \<Longrightarrow> dv (node nt i) i d \<noteq> -1 \<Longrightarrow> travels c nt d i (dv (node nt i) i d)"
proof (induction "nat (dv (node nt i) i d)" arbitrary: i rule: less_induct)
  case less
  have good: "good_row c N j (own_row nt j)" if "j < N" for j using net_okD(3) [OF ok that] that by (simp add: node_ok_def)
  show ?case
  proof (cases "i = d")
    case True
    then show ?thesis using good_rowD(2) [OF good [OF d]] travels.arrived [of c nt d] by simp
  next
    case False
    from node_route [OF ok less.prems(1) d _ less.prems(2)] False obtain k where k: "k < N" "c i k \<noteq> -1" "dv (node nt i) k d \<noteq> -1"
      "dv (node nt i) i d = c i k + dv (node nt i) k d" and e: "routing_table (node nt i) ! d =
      Some \<lparr>dest_RID = ownRID (node nt d), nextHop_RID = ownRID (node nt k), pathCost = dv (node nt i) i d\<rparr>" by blast
    have r: "DVTable (node nt i) ! k = own_row nt k" using quiet_rows(1) [OF ok q _ less.prems(1) k(1,2)] t k(1) by blast
    have "1 \<le> c i k" using net_okD(1) [OF ok] less.prems(1) k(1,2) unfolding links_ok_def by blast
    moreover have "0 \<le> dv (node nt k) k d" using good_rowD(3) [OF good [OF k(1)] d] k(3) r by simp
    ultimately have "travels c nt d k (dv (node nt k) k d)" using k r by (intro less.hyps) auto
    moreover have "RID_to_Index (node nt i) (ownRID (node nt k)) = int k" using net_okD(2) [OF ok] less.prems(1) k(1) by (simp add: ids_known_def)
    ultimately have "travels c nt d i (c i k + dv (node nt k) k d)" by (intro travels.forward [OF False e]) (use k(2) in simp_all)
    with k(4) r show ?thesis by simp
  qed
qed

end
