(* ===== verification/RouterFiles.thy ===== *)
theory RouterFiles
  imports RouterLinks
begin

text \<open>
  The configuration files of the router as text: what \<open>mapRLocation\<close> and \<open>mapTopology\<close> in \<open>router/router.c\<close> make of a
  location file and a topology file in the format of \<open>router/RL.txt\<close> and \<open>router/TC.txt\<close>.
\<close>

section \<open>Reading printed numbers\<close>

fun print_fields :: "char list \<Rightarrow> int list \<Rightarrow> string" where
  "print_fields (c # cs) (i # is) = show_int i @ c # print_fields cs is"
| "print_fields [] (i # is) = show_int i"
| "print_fields _ [] = []"

lemma scan_int_space: "list_all isspace ws \<Longrightarrow> scan_int (ws @ s) = scan_int s"
  by (simp add: scan_int_def list_all_iff)

lemma scan_int_printed: "list_all isspace ws \<Longrightarrow> \<not> starts_digit r \<Longrightarrow> is_int i \<Longrightarrow> scan_int (ws @ show_int i @ r) = Some (i, r)"
  using scan_int_show_int [of r i] by (simp add: scan_int_space)

lemma scan_fields_printed:
  assumes "list_all isspace ws" "length is = Suc (length cs)" "\<forall>c \<in> set cs. digit_val c = None" "\<not> starts_digit r" "list_all is_int is"
  shows "scan_fields cs (ws @ print_fields cs is @ r) = (is, r)"
  using assms
proof (induction cs "is" arbitrary: ws rule: print_fields.induct)
  case (1 c cs i "is")
  then have "\<not> starts_digit (c # print_fields cs is @ r)" by (simp add: starts_digit_def)
  from scan_int_printed [OF "1.prems"(1) this] "1.prems"(5)
  have s: "scan_int (ws @ show_int i @ c # print_fields cs is @ r) = Some (i, c # print_fields cs is @ r)" by simp
  have "scan_fields cs ([] @ print_fields cs is @ r) = (is, r)" using "1.prems" by (intro "1.IH") auto
  with s show ?case by (subst scan_fields.simps) (simp add: scan_char_def)
next
  case (2 i "is")
  then show ?case using scan_int_printed [of ws r i] by (subst scan_fields.simps) simp
qed simp

section \<open>The files\<close>

text \<open>A first line with the number of lines, then the lines. A location line has six numbers, each of them an \<open>int\<close>.\<close>

definition line_ok :: "int list \<Rightarrow> bool" where
  "line_ok fs \<longleftrightarrow> length fs = 6 \<and> list_all is_int fs"

definition newline :: string where
  "newline = [CHR 0x0A]"

definition file_text :: "char list \<Rightarrow> int list list \<Rightarrow> string" where
  "file_text seps rows = concat (map (\<lambda>fs. newline @ print_fields seps fs) rows)"

abbreviation location_seps :: "char list" where
  "location_seps \<equiv> [CHR ''.'', CHR ''.'', CHR ''.'', CHR '','', CHR '','']"

abbreviation edge_seps :: "char list" where
  "edge_seps \<equiv> [CHR '','', CHR '','']"

definition location_file :: "int list list \<Rightarrow> string" where
  "location_file rows = show_int (int (length rows)) @ file_text location_seps rows"

definition topology_file :: "int list list \<Rightarrow> string" where
  "topology_file es = show_int (int (length es)) @ file_text edge_seps es"

lemma newline_space: "list_all isspace newline" "\<not> starts_digit (newline @ s)"
  by (simp_all add: newline_def isspace_def starts_digit_def digit_val_def)

lemma file_text_no_digit: "\<not> starts_digit (file_text seps rows)"
  using newline_space(2) by (cases rows) (simp_all add: file_text_def starts_digit_def)

lemma seps_no_digit: "\<forall>c \<in> set location_seps. digit_val c = None" "\<forall>c \<in> set edge_seps. digit_val c = None"
  by (simp_all add: digit_val_def)

lemma scan_file_line:
  assumes "length fs = Suc (length seps)" "\<forall>c \<in> set seps. digit_val c = None" "list_all is_int fs"
  shows "scan_fields seps (file_text seps (fs # rows)) = (fs, file_text seps rows)"
  using scan_fields_printed [OF newline_space(1) assms(1,2) file_text_no_digit assms(3)] by (simp add: file_text_def)

section \<open>Locations\<close>

text \<open>The tables while the lines are read: \<open>o\<close> is the index of the own id.\<close>

definition reading :: "int list \<Rightarrow> nat \<Rightarrow> nat \<Rightarrow> rstate \<Rightarrow> bool" where
  "reading ids me i s \<longleftrightarrow> (\<exists>t x. s = (init_tables (ids ! me) (int (length ids)))\<lparr>router_set := t, ownIndex := x\<rparr> \<and>
     length t = length ids \<and> (\<forall>j < length ids. linkCost (t ! j) = -1) \<and> (\<forall>j < i. RID (t ! j) = ids ! j) \<and>
     (me < i \<longrightarrow> x = int me))"

lemma location_loop_reads:
  assumes "list_all line_ok rows" "reading ids me i s" "i + length rows = length ids"
    "\<forall>k < length rows. rows ! k ! 5 = ids ! (i + k)" "distinct ids" "me < length ids"
  shows "\<exists>s'. location_loop [i..<length ids] (file_text location_seps rows) s = ret s' \<and> reading ids me (length ids) s'"
  using assms(1-4)
proof (induction rows arbitrary: i s)
  case Nil
  then show ?case by simp
next
  case (Cons fs rows)
  then have i: "i < length ids" and fs: "length fs = 6" "list_all is_int fs" "fs ! 5 = ids ! i"
    by (auto simp: line_ok_def)
  from Cons.prems(2) obtain t x where s: "s = (init_tables (ids ! me) (int (length ids)))\<lparr>router_set := t, ownIndex := x\<rparr>"
    and t: "length t = length ids" "\<forall>j < length ids. linkCost (t ! j) = -1" "\<forall>j < i. RID (t ! j) = ids ! j" "me < i \<longrightarrow> x = int me"
    by (auto simp: reading_def)
  let ?r = "(t ! i)\<lparr>port := word_of_int (fs ! 4), RID := fs ! 5, ip := inet_addr (domain_text fs)\<rparr>"
  let ?x = "if fs ! 5 = ids ! me then int i else x"
  let ?s1 = "s\<lparr>router_set := t[i := ?r], ownIndex := ?x\<rparr>"
  have x: "me < Suc i \<longrightarrow> ?x = int me"
    using t(4) i assms(5,6) fs(3) by (auto simp: less_Suc_eq nth_eq_iff_index_eq)
  have "reading ids me (Suc i) ?s1"
    unfolding reading_def by (rule exI [of _ "t[i := ?r]"], rule exI [of _ ?x]) (use s t i fs(3) x in \<open>auto simp: nth_list_update less_Suc_eq\<close>)
  moreover have "\<forall>k < length rows. rows ! k ! 5 = ids ! (Suc i + k)" using Cons.prems(4) by force
  ultimately obtain s' where s': "location_loop [Suc i..<length ids] (file_text location_seps rows) ?s1 = ret s'"
    "reading ids me (length ids) s'"
    using Cons.IH [of "Suc i" ?s1] Cons.prems(1,3) by auto
  have "ownRID s = ids ! me" "router_set s = t" "ownIndex s = x" by (simp_all add: s init_tables_def)
  with s'(1) i t(1) fs(1,2) have "location_loop [i..<length ids] (file_text location_seps (fs # rows)) s = ret s'"
    using scan_file_line [OF _ seps_no_digit(1) fs(2), of rows] by (cases "fs ! 5 = ids ! me") (simp_all add: upt_conv_Cons)
  with s'(2) show ?case by blast
qed

lemma mapRLocation_reads:
  assumes "list_all line_ok rows" "distinct (map (\<lambda>fs. fs ! 5) rows)" "me < length rows" "is_int (int (length rows))"
  shows "\<exists>s. mapRLocation (rows ! me ! 5) (Some (location_file rows)) = ret s \<and> reading (map (\<lambda>fs. fs ! 5) rows) me (length rows) s"
proof -
  let ?ids = "map (\<lambda>fs. fs ! 5) rows"
  have "reading ?ids me 0 (init_tables (?ids ! me) (int (length ?ids)))"
    unfolding reading_def by (rule exI, rule exI [of _ 0]) (auto simp: init_tables_def)
  from location_loop_reads [OF assms(1) this] assms(2,3) show ?thesis
    using scan_int_show_int [OF file_text_no_digit [of location_seps rows] assms(4)] assms(3)
    by (simp add: mapRLocation_def location_file_def)
qed

section \<open>Topology\<close>

text \<open>The lines of a topology file by indices: from, to and the cost of the link. A later line replaces an earlier one.\<close>

type_synonym edge = "nat \<times> nat \<times> int"

definition set_cost :: "edge \<Rightarrow> (nat \<Rightarrow> nat \<Rightarrow> int) \<Rightarrow> nat \<Rightarrow> nat \<Rightarrow> int" where
  "set_cost = (\<lambda>(a, b, v) c. c(a := (c a)(b := v)))"

definition topology_cost :: "edge list \<Rightarrow> nat \<Rightarrow> nat \<Rightarrow> int" where
  "topology_cost es = fold set_cost es (\<lambda>i j. -1)"

definition edge_ok :: "nat \<Rightarrow> edge \<Rightarrow> bool" where
  "edge_ok N = (\<lambda>(a, b, v). a < N \<and> b < N \<and> a \<noteq> b \<and> v \<noteq> -1 \<and> is_int v)"

definition edge_rows :: "int list \<Rightarrow> edge list \<Rightarrow> int list list" where
  "edge_rows ids es = map (\<lambda>(a, b, v). [ids ! a, ids ! b, v]) es"

text \<open>The ids in the tables.\<close>

definition ids_are :: "int list \<Rightarrow> nat \<Rightarrow> rstate \<Rightarrow> bool" where
  "ids_are ids me s \<longleftrightarrow> distinct ids \<and> me < length ids \<and> map RID (router_set s) = ids \<and> ownRID s = ids ! me"

lemma ids_are_index:
  assumes "ids_are ids me s" "router_wf s" "k < length ids"
  shows "RID_to_Index s (ids ! k) = int k" "RID (router_set s ! k) = ids ! k"
proof -
  have l: "length ids = nR s" using assms(1) router_wfD(5) [OF assms(2)] by (auto simp: ids_are_def)
  then show r: "RID (router_set s ! k) = ids ! k" using assms router_wfD(5) [OF assms(2)] by (auto simp: ids_are_def)
  show "RID_to_Index s (ids ! k) = int k"
    using RID_to_Index_own_id [OF assms(2), of k] assms(1,3) l r by (simp add: ids_are_def)
qed

lemma add_edge_started:
  assumes st: "started c N me s" and ids: "ids_are ids me s" and b: "b < N" "b \<noteq> me" "v \<noteq> -1"
  shows "\<exists>s'. add_edge s (ids ! me) (ids ! b) v = ret s' \<and> started (set_cost (me, b, v) c) N me s' \<and> ids_are ids me s'"
proof -
  from st have ls: "links_of c N me s" and wf: "router_wf s" by (auto simp: started_def links_of_def)
  note l = links_ofD [OF ls] and w = router_wfD [OF wf]
  have len: "length ids = N" using ids w(5) l(2) by (auto simp: ids_are_def)
  then have ix: "RID_to_Index s (ids ! me) = int me" "RID_to_Index s (ids ! b) = int b" "RID (router_set s ! b) = ids ! b"
    using ids_are_index [OF ids wf] b(1) l(5) by simp_all
  let ?s1 = "s\<lparr>DVTable := (DVTable s)[me := (DVTable s ! me)[b := v]]\<rparr>"
  let ?e = "\<lparr>dest_RID = ids ! b, nextHop_RID = ids ! b, pathCost = v\<rparr>"
  let ?s2 = "?s1\<lparr>rt_available := (rt_available s)[b := 1], routing_table := (routing_table s)[b := Some ?e]\<rparr>"
  let ?s3 = "?s2\<lparr>router_set := (router_set s)[b := (router_set s ! b)\<lparr>linkCost := v\<rparr>]\<rparr>"
  have "dv_set s (int me) (int b) v = ret ?s1" using dv_set_wf [OF wf] l(2,5) b(1) by simp
  moreover have wf1: "router_wf ?s1" using wf w(6,9) l(2,5) b(1) by (auto simp: router_wf_def list_all_length nth_list_update)
  moreover have "setNextHop ?s1 (int b) (int b) v = ret ?s2"
    using index_to_RID_wf [OF wf1, of b] b(1) l(2) w(7,8) ix(3) by (simp add: setNextHop_def)
  ultimately have a: "add_edge s (ids ! me) (ids ! b) v = ret ?s3"
    using ids b w(5) l(2) ix by (simp add: add_edge_def ids_are_def)
  have wf3: "router_wf ?s3" using wf1 by (simp add: router_wf_def)
  have D: "dv ?s3 j d = (if j = me \<and> d = b then v else dv s j d)" if "j < N" "d < N" for j d
    using that w(6,9) l(2) b(1) by (cases "j = me"; cases "d = b") simp_all
  have R: "lc ?s3 j = (if j = b then v else lc s j)" "RID (router_set ?s3 ! j) = RID (router_set s ! j)" if "j < N" for j
    using that w(5) l(2) b(1) by (cases "j = b"; simp)+
  have C: "set_cost (me, b, v) c me j = (if j = b then v else c me j)" for j by (simp add: set_cost_def)
  have "links_of (set_cost (me, b, v) c) N me ?s3"
    using wf3 l(2-4) R(1) by (simp add: links_of_def C)
  then have "started (set_cost (me, b, v) c) N me ?s3"
    using st D R(2) b ix(3) w(7,8) l(2) by (auto simp: started_def C nth_list_update)
  moreover have "ids_are ids me ?s3"
    using ids by (auto simp: ids_are_def map_update list_update_same_conv w(5) l(2) b(1))
  ultimately show ?thesis using a by blast
qed

lemma started_other:
  assumes "a \<noteq> me" "started c N me s"
  shows "started (set_cost (a, b, v) c) N me s"
proof -
  have "set_cost (a, b, v) c me = c me" using assms(1) by (simp add: set_cost_def)
  with assms(2) show ?thesis by (simp add: started_def links_of_def)
qed

lemma topology_loop_reads:
  assumes "started c N me s" "ids_are ids me s" "list_all (edge_ok N) es" "length ids = N" "list_all is_int ids"
  shows "\<exists>s'. topology_loop (length es) (file_text edge_seps (edge_rows ids es)) vs s = ret s' \<and>
     started (fold set_cost es c) N me s' \<and> ids_are ids me s'"
  using assms(1-3)
proof (induction es arbitrary: c s vs)
  case Nil
  then show ?case by simp
next
  case (Cons e es)
  obtain a b v where e: "e = (a, b, v)" by (metis prod_cases3)
  with Cons.prems(3) have k: "a < N" "b < N" "a \<noteq> b" "v \<noteq> -1" "is_int v" by (auto simp: edge_ok_def)
  have r: "list_all is_int [ids ! a, ids ! b, v]"
    using k assms(4,5) by (auto simp: list_all_iff)
  have sc: "scan_fields edge_seps (file_text edge_seps (edge_rows ids (e # es))) = ([ids ! a, ids ! b, v], file_text edge_seps (edge_rows ids es))"
    using scan_file_line [OF _ seps_no_digit(2) r, of "edge_rows ids es"] by (simp add: edge_rows_def e)
  have vs: "assign_edge [ids ! a, ids ! b, v] vs = (Some (ids ! a), Some (ids ! b), Some v)"
    by (cases vs) (simp add: assign_edge_def)
  have own: "ids ! a = ownRID s \<longleftrightarrow> a = me"
    using Cons.prems(2) k(1) assms(4) by (auto simp: ids_are_def nth_eq_iff_index_eq)
  show ?case
  proof (cases "a = me")
    case True
    then obtain s1 where s1: "add_edge s (ids ! a) (ids ! b) v = ret s1" "started (set_cost e c) N me s1" "ids_are ids me s1"
      using add_edge_started [OF Cons.prems(1,2)] k e by metis
    with Cons.IH [OF s1(2,3)] Cons.prems(3) sc vs own True show ?thesis by (simp add: read_var_def)
  next
    case False
    with Cons.IH [OF started_other [OF False Cons.prems(1)] Cons.prems(2)] Cons.prems(3) sc vs own e show ?thesis
      by (simp add: read_var_def)
  qed
qed

text \<open>A router that starts with two such files.\<close>

lemma reading_started:
  assumes "reading ids me (length ids) s" "me < length ids" "distinct ids"
  shows "started (\<lambda>i j. -1) (length ids) me s \<and> ids_are ids me s"
proof -
  from assms(1,2) obtain t where s: "s = (init_tables (ids ! me) (int (length ids)))\<lparr>router_set := t, ownIndex := int me\<rparr>"
    and t: "length t = length ids" "\<forall>j < length ids. linkCost (t ! j) = -1" "\<forall>j < length ids. RID (t ! j) = ids ! j"
    by (auto simp: reading_def)
  have "router_wf s" unfolding s using t(1) assms(2) by (auto simp: router_wf_def init_tables_def list_all_length)
  moreover have "map RID t = ids" using t by (auto simp: list_eq_iff_nth_eq)
  ultimately show ?thesis
    using t assms(2,3) by (auto simp: started_def links_of_def ids_are_def s init_tables_def)
qed

lemma router_start_started:
  assumes "list_all line_ok rows" "distinct (map (\<lambda>fs. fs ! 5) rows)" "list_all (edge_ok (length rows)) es" "me < length rows"
    "is_int (int (length rows))" "is_int (int (length es))"
  shows "\<exists>s. router_start (show_int (rows ! me ! 5)) (Some (location_file rows))
      (Some (topology_file (edge_rows (map (\<lambda>fs. fs ! 5) rows) es))) = ret s \<and>
    started (topology_cost es) (length rows) me s \<and> ids_are (map (\<lambda>fs. fs ! 5) rows) me s"
proof -
  let ?ids = "map (\<lambda>fs. fs ! 5) rows"
  obtain s0 where s0: "mapRLocation (rows ! me ! 5) (Some (location_file rows)) = ret s0" "reading ?ids me (length rows) s0"
    using mapRLocation_reads [OF assms(1,2,4,5)] by blast
  have ids: "list_all is_int ?ids" using assms(1) by (auto simp: list_all_iff line_ok_def)
  from reading_started [of ?ids me s0] s0(2) assms(2,4) have st: "started (\<lambda>i j. -1) (length rows) me s0" "ids_are ?ids me s0" by simp_all
  have n: "length (edge_rows ?ids es) = length es" by (simp add: edge_rows_def)
  obtain s where s: "topology_loop (length es) (file_text edge_seps (edge_rows ?ids es)) (None, None, None) s0 = ret s"
    "started (topology_cost es) (length rows) me s" "ids_are ?ids me s"
    using topology_loop_reads [OF st assms(3) _ ids, of "(None, None, None)"] by (auto simp: topology_cost_def)
  have "atoi (show_int (rows ! me ! 5)) = rows ! me ! 5"
    using scan_int_show_int [of "[]" "rows ! me ! 5"] ids assms(4) by (simp add: atoi_def starts_digit_def list_all_length)
  with s0(1) s(1) have "router_start (show_int (rows ! me ! 5)) (Some (location_file rows)) (Some (topology_file (edge_rows ?ids es))) = ret s"
    using scan_int_show_int [OF file_text_no_digit [of edge_seps "edge_rows ?ids es"] assms(6)] n
    by (simp add: router_start_def mapTopology_def topology_file_def)
  with s(2,3) show ?thesis by blast
qed

end
