(* ===== verification/RouterSettle.thy ===== *)
theory RouterSettle
  imports RouterConverge RouterFiles
begin

text \<open>
  What a network of routers reaches: the properties of \<open>RouterConverge\<close> from the start of the processes on, and that the
  handler of an announcement takes the step of the network. The witnesses run on the three routers of \<open>router/RL.txt\<close>
  and \<open>router/TC.txt\<close>.
\<close>

section \<open>Starting from the files\<close>

definition start_state :: "int list list \<Rightarrow> edge list \<Rightarrow> nat \<Rightarrow> rstate" where
  "start_state locs es me = (case router_start (show_int (locs ! me ! 5)) (Some (location_file locs))
       (Some (topology_file (edge_rows (map (\<lambda>fs. fs ! 5) locs) es))) of
     Some (Inr s) \<Rightarrow> s | _ \<Rightarrow> init_tables 0 0)"

definition start_net :: "int list list \<Rightarrow> edge list \<Rightarrow> net" where
  "start_net locs es = \<lparr>node = start_state locs es, wire = (\<lambda>i j. []), told = (\<lambda>i. False)\<rparr>"

text \<open>The numbers of the files are \<open>int\<close>s, the ids differ, and an edge joins two different routers of the location file.\<close>

definition files_ok :: "int list list \<Rightarrow> edge list \<Rightarrow> bool" where
  "files_ok locs es \<longleftrightarrow> list_all line_ok locs \<and> distinct (map (\<lambda>fs. fs ! 5) locs) \<and> list_all (edge_ok (length locs)) es \<and>
     is_int (int (length locs)) \<and> is_int (int (length es))"

lemma start_state_started:
  assumes "files_ok locs es" "me < length locs"
  shows "started (topology_cost es) (length locs) me (start_state locs es me) \<and>
    ids_are (map (\<lambda>fs. fs ! 5) locs) me (start_state locs es me)"
  using router_start_started [of locs es me] assms by (auto simp: files_ok_def start_state_def)

lemma start_net_started:
  assumes "files_ok locs es"
  shows "net_started (topology_cost es) (length locs) (start_net locs es)"
proof -
  let ?ids = "map (\<lambda>fs. fs ! 5) locs"
  have "RID_to_Index (start_state locs es i) (ownRID (start_state locs es j)) = int j" if ij: "i < length locs" "j < length locs" for i j
  proof -
    note i = start_state_started [OF assms ij(1)] and j = start_state_started [OF assms ij(2)]
    have "router_wf (start_state locs es i)" using i by (auto simp: started_def links_of_def)
    with i j ids_are_index(1) [of ?ids i "start_state locs es i" j] ij(2) show ?thesis by (simp add: ids_are_def)
  qed
  then show ?thesis
    using start_state_started [OF assms] by (simp add: net_started_def start_net_def ids_known_def)
qed

section \<open>The routers of the repository\<close>

definition repo_locs :: "int list list" where
  "repo_locs = [[127, 0, 0, 1, 13001, 1], [127, 0, 0, 1, 13002, 2], [127, 0, 0, 1, 13003, 3]]"

definition repo_edges :: "edge list" where
  "repo_edges = [(0, 1, 2), (1, 0, 2), (0, 2, 7), (2, 0, 7), (1, 2, 1), (2, 1, 1)]"

abbreviation repo_net :: net where
  "repo_net \<equiv> start_net repo_locs repo_edges"

abbreviation repo_cost :: "nat \<Rightarrow> nat \<Rightarrow> int" where
  "repo_cost \<equiv> topology_cost repo_edges"

lemma repo_files:
  "location_file repo_locs = ''3'' @ newline @ ''127.0.0.1,13001,1'' @ newline @ ''127.0.0.1,13002,2'' @ newline @ ''127.0.0.1,13003,3''"
  "topology_file (edge_rows (map (\<lambda>fs. fs ! 5) repo_locs) repo_edges) = ''6'' @ newline @ ''1,2,2'' @ newline @ ''2,1,2'' @ newline @
     ''1,3,7'' @ newline @ ''3,1,7'' @ newline @ ''2,3,1'' @ newline @ ''3,2,1''"
  by (simp_all add: location_file_def topology_file_def file_text_def repo_locs_def repo_edges_def edge_rows_def newline_def
      show_int_def show_nat.simps digit_def char_of_def bit_0)

lemma repo_files_ok: "files_ok repo_locs repo_edges" and repo_length: "length repo_locs = 3"
  by (simp_all add: files_ok_def line_ok_def is_int_def repo_locs_def repo_edges_def edge_ok_def)

lemma repo_cost_eq: "repo_cost i j = (if i < 3 \<and> j < 3 then [[-1, 2, 7], [2, -1, 1], [7, 1, -1]] ! i ! j else -1)"
  by (auto simp: topology_cost_def repo_edges_def set_cost_def less_Suc_eq numeral_eq_Suc)

lemma repo_links_ok: "links_ok repo_cost 3"
  unfolding links_ok_def all_less_3 by (simp add: repo_cost_eq)

lemma repo_started: "net_started repo_cost 3 repo_net"
  using start_net_started [OF repo_files_ok] by (simp add: repo_length)

text \<open>Every router announces once, and the announcements are served until none is left.\<close>

abbreviation repo_told :: net where
  "repo_told \<equiv> announce 2 (announce 1 (announce 0 repo_net))"

lemma repo_told_reached: "(net_step 3)\<^sup>*\<^sup>* repo_net repo_told"
  by (rule rtranclp.rtrancl_into_rtrancl [OF rtranclp.rtrancl_into_rtrancl [OF r_into_rtranclp]]; rule net_step.start) simp_all

lemma repo_told_all: "\<forall>i < 3. told repo_told i"
  by (simp add: all_less_3 announce_def)

lemma repo_node_ok: "i < 3 \<Longrightarrow> started repo_cost 3 i (node repo_net i)"
  using repo_started by (simp add: net_started_def)

lemma repo_in_flight: "in_flight 3 repo_told \<le> 9"
proof -
  have "in_flight 3 repo_net = 0" by (simp add: in_flight_def start_net_def)
  with in_flight_announce [of 0 3 repo_net] in_flight_announce [of 1 3 "announce 0 repo_net"]
    in_flight_announce [of 2 3 "announce 1 (announce 0 repo_net)"] show ?thesis by simp
qed

lemma repo_told_ok: "net_ok repo_cost 3 {} repo_told"
  by (rule network.reach_inv [OF repo_told_reached]) (rule started_ok [OF repo_links_ok repo_started])

lemma repo_room: "\<forall>i < 3. numDV (node repo_told i) + int (potential 3 repo_told) \<le> int_max"
proof -
  have "numDV (node repo_told i) = 0" if "i < 3" for i
    using repo_node_ok [OF that] by (simp add: announce_def started_def)
  moreover have "potential 3 repo_told \<le> 360009"
    using potential_bound [OF repo_told_ok] repo_in_flight by simp
  ultimately show ?thesis by simp
qed

lemma serving_told: "(net_serve N ^^ n) nt nt' \<Longrightarrow> (net_step N)\<^sup>*\<^sup>* nt nt' \<and> (\<forall>i. told nt i \<longrightarrow> told nt' i)"
proof (induction n arbitrary: nt')
  case (Suc n)
  then obtain nt1 where s: "(net_serve N ^^ n) nt nt1" "net_serve N nt1 nt'" by (auto elim: relpowp_Suc_E)
  with Suc.IH [OF s(1)] told_serve [OF s(2)] net_step.step [OF s(2)] show ?case by (auto intro: rtranclp.rtrancl_into_rtrancl)
qed simp

lemma repo_settles:
  obtains n nt where "(net_serve 3 ^^ n) repo_told nt" "(net_step 3)\<^sup>*\<^sup>* repo_net nt" "quiet 3 nt" "\<forall>i < 3. told nt i"
proof -
  obtain n nt where s: "(net_serve 3 ^^ n) repo_told nt" "quiet 3 nt"
    using serving_settles [OF repo_told_ok repo_room] by blast
  from serving_told [OF s(1)] repo_told_all have "(net_step 3)\<^sup>*\<^sup>* repo_told nt" "\<forall>i < 3. told nt i" by auto
  with that [OF s(1) _ s(2)] repo_told_reached show thesis by (meson rtranclp_trans)
qed

text \<open>The walk from router 1 over router 2 to router 3 is the cheapest, at cost 3.\<close>

lemma repo_walk_least: "walk repo_cost 3 i d w \<Longrightarrow> d = 2 \<Longrightarrow> [3, 1, 0] ! i \<le> w"
proof (induction rule: walk.induct)
  case (hop i j d w)
  then have "[3, 1, 0] ! j \<le> w" "repo_cost i j \<noteq> -1" by simp_all
  with hop(1,2) show ?case by (auto simp: repo_cost_eq less_Suc_eq numeral_eq_Suc)
qed simp

lemma repo_cheapest: "cheapest repo_cost 3 0 2 v \<Longrightarrow> v = 3"
proof -
  have "walk repo_cost 3 0 2 (repo_cost 0 1 + (repo_cost 1 2 + 0))"
    by (intro walk.hop walk.here) (simp_all add: repo_cost_eq)
  then have "walk repo_cost 3 0 2 3" by (simp add: repo_cost_eq)
  moreover assume "cheapest repo_cost 3 0 2 v"
  ultimately show "v = 3" using repo_walk_least [of 0 2 v] by (fastforce simp: cheapest_def split: if_splits)
qed

lemma repo_settled_cost:
  assumes "(net_step 3)\<^sup>*\<^sup>* repo_net nt" "quiet 3 nt" "\<forall>i < 3. told nt i"
  shows "dv (node nt 0) 0 2 = 3"
  by (rule repo_cheapest [OF quiet_cheapest [OF network.reach_inv [OF assms(1) started_ok [OF repo_links_ok repo_started]] assms(2,3)]])
    simp_all

section \<open>The properties\<close>

lemma reached_ok: "links_ok c N \<Longrightarrow> net_started c N nt0 \<Longrightarrow> (net_step N)\<^sup>*\<^sup>* nt0 nt \<Longrightarrow> net_ok c N {} nt"
  by (rule network.reach_inv) (auto intro: started_ok)

text \<open>C22: from a location file and a topology file in the format of the repository, a router starts with the links of its
  own lines, a row that holds their costs, an available entry straight to each neighbour, and the other rows empty.\<close>

theorem configuration_read:
  assumes "files_ok locs es" "me < length locs"
  shows "\<exists>s. router_start (show_int (locs ! me ! 5)) (Some (location_file locs))
       (Some (topology_file (edge_rows (map (\<lambda>fs. fs ! 5) locs) es))) = ret s \<and>
     started (topology_cost es) (length locs) me s \<and> map RID (router_set s) = map (\<lambda>fs. fs ! 5) locs"
  using router_start_started [of locs es me] assms by (auto simp: files_ok_def ids_are_def)

theorem configuration_read_witness:
  "\<exists>s. router_start ''1'' (Some (''3'' @ newline @ ''127.0.0.1,13001,1'' @ newline @ ''127.0.0.1,13002,2'' @ newline @ ''127.0.0.1,13003,3''))
     (Some (''6'' @ newline @ ''1,2,2'' @ newline @ ''2,1,2'' @ newline @ ''1,3,7'' @ newline @ ''3,1,7'' @ newline @ ''2,3,1'' @ newline @ ''3,2,1''))
     = ret s \<and> dv s 0 1 = 2 \<and> dv s 0 2 = 7 \<and> dv s 1 2 = -1"
proof -
  have id: "show_int (repo_locs ! 0 ! 5) = ''1''"
    by (simp add: repo_locs_def show_int_def show_nat.simps digit_def char_of_def bit_0)
  have n: "0 < length repo_locs" by (simp add: repo_length)
  from configuration_read [OF repo_files_ok n, unfolded id repo_files repo_length] show ?thesis
    by (auto simp: started_def repo_cost_eq)
qed

text \<open>C20: at every moment, in whatever order announcements are made and served, a finite cost in a router's row is the cost of
  a real walk over the links, and the routing entry names a neighbour through which the tables reach it.\<close>

theorem costs_are_walks:
  assumes "links_ok c N" "net_started c N nt0" "(net_step N)\<^sup>*\<^sup>* nt0 nt" "i < N" "d < N" "d \<noteq> i" "dv (node nt i) i d \<noteq> -1"
  shows "walk c N i d (dv (node nt i) i d) \<and> dv (node nt i) i d < 10000 \<and> rt_available (node nt i) ! d = 1 \<and>
     (\<exists>k < N. c i k \<noteq> -1 \<and> dv (node nt i) k d \<noteq> -1 \<and> dv (node nt i) i d = c i k + dv (node nt i) k d \<and>
        routing_table (node nt i) ! d = Some \<lparr>dest_RID = ownRID (node nt d), nextHop_RID = ownRID (node nt k),
          pathCost = dv (node nt i) i d\<rparr>)"
proof -
  note ok = reached_ok [OF assms(1-3)]
  have n: "node_ok c N i (node nt i)" by (rule net_okD(3) [OF ok assms(4)])
  then have "good_row c N i (own_row nt i)" using assms(4) by (simp add: node_ok_def)
  with good_rowD(3) [OF this assms(5,7)] node_route [OF ok assms(4-7)] show ?thesis by metis
qed

theorem costs_are_walks_witness:
  "\<exists>nt. (net_step 3)\<^sup>*\<^sup>* repo_net nt \<and> dv (node nt 0) 0 2 = 3 \<and> walk repo_cost 3 0 2 3"
proof -
  obtain n nt where nt: "(net_step 3)\<^sup>*\<^sup>* repo_net nt" "quiet 3 nt" "\<forall>i < 3. told nt i" by (rule repo_settles)
  with costs_are_walks [OF repo_links_ok repo_started nt(1), of 0 2] repo_settled_cost [OF nt] show ?thesis by auto
qed

text \<open>C4: serving announcements, in whatever order, ends: a run of it takes at most as many steps as the costs can still
  drop and rows are in flight, and it can stop only when no row is in flight, as long as the message counters have room.\<close>

theorem every_run_settles:
  assumes "links_ok c N" "net_started c N nt0" "(net_step N)\<^sup>*\<^sup>* nt0 nt"
    and "\<forall>i < N. numDV (node nt i) + int (potential N nt) \<le> int_max" "(net_serve N ^^ n) nt nt'"
  shows "n \<le> 10000 * N * N * (N + 1) + in_flight N nt \<and> (quiet N nt' \<or> (\<exists>nt''. net_serve N nt' nt''))"
proof -
  note ok = reached_ok [OF assms(1-3)]
  have "n \<le> potential N nt" using serving_bounded [OF assms(5) ok] by simp
  then have "n \<le> 10000 * N * N * (N + 1) + in_flight N nt" using potential_bound [OF ok] by linarith
  moreover have "quiet N nt' \<or> (\<exists>nt''. net_serve N nt' nt'')"
    by (rule serving_continues [OF assms(5) ok assms(4)])
  ultimately show ?thesis ..
qed

theorem every_run_settles_witness:
  "\<exists>n nt. (net_serve 3 ^^ n) repo_told nt \<and> quiet 3 nt \<and> n \<le> 360009 \<and> (\<exists>nt. net_serve 3 repo_told nt)"
proof -
  obtain n nt where nt: "(net_serve 3 ^^ n) repo_told nt" "quiet 3 nt" by (rule repo_settles)
  have "n \<le> 360000 + in_flight 3 repo_told"
    using every_run_settles [OF repo_links_ok repo_started repo_told_reached repo_room nt(1)] by simp
  then have "n \<le> 360009" using repo_in_flight by simp
  moreover have w: "wire repo_told 0 1 \<noteq> []"
    using repo_node_ok [of 0] links_ofD [of repo_cost 3 0 "node repo_net 0"] by (simp add: announce_def started_def repo_cost_eq)
  have "\<not> quiet 3 repo_told"
  proof
    assume "quiet 3 repo_told"
    then have "wire repo_told 0 1 = []" unfolding quiet_def by simp
    with w show False by simp
  qed
  then have "\<exists>nt. net_serve 3 repo_told nt"
    using every_run_settles [OF repo_links_ok repo_started repo_told_reached repo_room, of 0 repo_told] by simp
  ultimately show ?thesis using nt by blast
qed

text \<open>C3: once every router has announced its row and no row is in flight, every row holds the cost of the cheapest walk to
  every destination (none when every walk costs 10000 or more).\<close>

theorem network_converges:
  assumes "links_ok c N" "net_started c N nt0" "(net_step N)\<^sup>*\<^sup>* nt0 nt" "\<forall>i < N. told nt i" "quiet N nt" "i < N" "d < N"
  shows "cheapest c N i d (dv (node nt i) i d)"
  by (rule quiet_cheapest [OF reached_ok [OF assms(1-3)] assms(5,4,6,7)])

theorem network_converges_witness:
  "\<exists>nt. (net_step 3)\<^sup>*\<^sup>* repo_net nt \<and> quiet 3 nt \<and> dv (node repo_net 0) 0 2 = 7 \<and> dv (node nt 0) 0 2 = 3"
proof -
  obtain n nt where nt: "(net_step 3)\<^sup>*\<^sup>* repo_net nt" "quiet 3 nt" "\<forall>i < 3. told nt i" by (rule repo_settles)
  have "cheapest repo_cost 3 0 2 (dv (node nt 0) 0 2)"
    by (rule network_converges [OF repo_links_ok repo_started nt(1,3,2)]) simp_all
  moreover have "dv (node repo_net 0) 0 2 = 7" using repo_node_ok [of 0] by (simp add: started_def repo_cost_eq)
  ultimately show ?thesis using nt repo_cheapest by blast
qed

text \<open>C19: a packet that follows the routing tables of such a network hop by hop arrives, at exactly the cost that the first
  router's table shows.\<close>

theorem packets_arrive:
  assumes "links_ok c N" "net_started c N nt0" "(net_step N)\<^sup>*\<^sup>* nt0 nt" "\<forall>i < N. told nt i" "quiet N nt" "i < N" "d < N"
    and "dv (node nt i) i d \<noteq> -1"
  shows "travels c nt d i (dv (node nt i) i d)"
  by (rule quiet_travels [OF reached_ok [OF assms(1-3)] assms(5,4,7,6,8)])

theorem packets_arrive_witness:
  "\<exists>nt. (net_step 3)\<^sup>*\<^sup>* repo_net nt \<and> quiet 3 nt \<and> travels repo_cost nt 2 0 3"
proof -
  obtain n nt where nt: "(net_step 3)\<^sup>*\<^sup>* repo_net nt" "quiet 3 nt" "\<forall>i < 3. told nt i" by (rule repo_settles)
  with packets_arrive [OF repo_links_ok repo_started nt(1,3,2), of 0 2] repo_settled_cost [OF nt] show ?thesis by auto
qed

text \<open>C13: the handler of an announcement takes the step of the network: the tables of the process become those of
  \<open>serve_row\<close>, and every neighbour's socket gets the new row exactly when the own row changed.\<close>

theorem handler_serves_row:
  assumes "links_ok c N" "node_ok c N i (rs w)" "good_row c N k row" "no_worse N (DVTable (rs w) ! k) row" "k < N" "k \<noteq> i"
    and "RID_to_Index (rs w) rid = int k" "int_min \<le> rid" "rid \<le> int_max" "4 * numRouter (rs w) \<le> int_max" "numDV (rs w) < int_max"
    and "socks w sd = Some c0" "rxq c0 = RxData (message_s_bytes (dvmsg rid (numRouter (rs w)))) # q"
      "healthy (c0\<lparr>rxq := q\<rparr>)" "pending (c0\<lparr>rxq := q\<rparr>) = dv_wire row @ rest"
    and "length DVRow = 4 * N" "links_up w" "not_a_link w sd"
  shows "\<exists>ch s w'. serve_row (rs w) (dv_wire row) (4 * numRouter (rs w)) rid = ret (row_bytes row, ch, s) \<and>
     request_response dial sd buf DVRow w = ret (1, buf, row_bytes row, w') \<and> rs w' = s \<and>
     (\<forall>j < N. c i j \<noteq> -1 \<longrightarrow> (\<exists>x cj. router_sd (router_set (rs w) ! j) = Some x \<and> socks w x = Some cj \<and>
        socks w' x = Some (cj\<lparr>sent := sent cj @ (if ch then announcement s else [])\<rparr>)))"
proof -
  from assms(2) have ls: "links_of c N i (rs w)" and nd: "0 \<le> numDV (rs w)" by (auto simp: node_ok_def)
  note l = links_ofD [OF ls]
  obtain ch s where r: "recompute (with_row (rs w) k row) = ret (ch, s)" and s: "node_ok c N i s" "served N i (rs w) k row ch s"
    by (rule recompute_served [OF assms(1,2,5,6,3,4)])
  have two: "2 \<le> nR (rs w)" using l(2,5) assms(5,6) by simp
  have row: "length row = nR (rs w)" "row_ok row" using good_rowD(1) [OF assms(3)] good_row_ok [OF assms(3)] l(2) by simp_all
  have k: "k < nR (rs w)" and DVRow: "length DVRow = 4 * nR (rs w)" using assms(5,16) l(2) by simp_all
  have sv: "serve_row (rs w) (dv_wire row) (4 * numRouter (rs w)) rid = ret (row_bytes row, ch, s)"
    using serve_row_recomputes [OF l(1) k row assms(7) nd assms(11)] r by simp
  obtain c' where rr: "request_response dial sd buf DVRow w =
      andthen (if ch then dv_func dial ((put_sock w sd c')\<lparr>rs := s\<rparr>) else ret ((put_sock w sd c')\<lparr>rs := s\<rparr>))
        (\<lambda>w. ret (1, buf, row_bytes row, w))"
    using request_response_DVMSG [OF l(1) two assms(10,12-15,8,9) row assms(7) k DVRow nd assms(11), of dial buf] r by auto
  obtain w' where w': "(if ch then dv_func dial ((put_sock w sd c')\<lparr>rs := s\<rparr>) else ret ((put_sock w sd c')\<lparr>rs := s\<rparr>)) = ret w'"
      "rs w' = s" "\<forall>j < nR (rs w). lc (rs w) j \<noteq> -1 \<longrightarrow> (\<exists>x cj. router_sd (router_set (rs w) ! j) = Some x \<and> socks w x = Some cj \<and>
        socks w' x = Some (cj\<lparr>sent := sent cj @ (if ch then announcement s else [])\<rparr>))"
    using announced_if_changed [OF assms(17,18) recompute_keeps [OF l(1) k row(1) r], of ch dial c'] by blast
  with rr sv show ?thesis using l(2,4) by auto
qed

theorem handler_serves_row_witness:
  "\<exists>s w'. serve_row (rs fresh_world) (dv_wire [2, 0, 1]) 12 2 = ret (row_bytes [2, 0, 1], True, s) \<and>
     request_response (\<lambda>a p. None) 9 None (replicate 12 0) fresh_world = ret (1, None, row_bytes [2, 0, 1], w') \<and> rs w' = s \<and>
     (\<exists>c. socks w' 5 = Some c \<and> sent c = announcement s)"
proof -
  have st: "started repo_cost 3 0 (rs fresh_world)"
    unfolding started_def links_of_def all_less_3 using fresh_wf by (simp add: fresh_facts repo_cost_eq) (simp add: fresh_defs)
  have ok: "node_ok repo_cost 3 0 (rs fresh_world)" by (rule started_node_ok [OF repo_links_ok st])
  have "walk repo_cost 3 1 0 (repo_cost 1 0 + 0)" "walk repo_cost 3 1 2 (repo_cost 1 2 + 0)" "walk repo_cost 3 1 1 0"
    by (intro walk.hop walk.here; simp add: repo_cost_eq)+
  then have g: "good_row repo_cost 3 1 [2, 0, 1]" unfolding good_row_def all_less_3 by (simp add: repo_cost_eq)
  have le: "no_worse 3 (DVTable (rs fresh_world) ! 1) [2, 0, 1]"
    unfolding no_worse_def all_less_3 by (simp add: cost_of_def fresh_defs)
  obtain ch s w' where r: "serve_row (rs fresh_world) (dv_wire [2, 0, 1]) (4 * numRouter (rs fresh_world)) 2 = ret (row_bytes [2, 0, 1], ch, s)"
    "request_response (\<lambda>a p. None) 9 None (replicate 12 0) fresh_world = ret (1, None, row_bytes [2, 0, 1], w')" "rs w' = s"
    and x: "\<forall>j < 3. repo_cost 0 j \<noteq> -1 \<longrightarrow> (\<exists>x cj. router_sd (router_set (rs fresh_world) ! j) = Some x \<and> socks fresh_world x = Some cj \<and>
        socks w' x = Some (cj\<lparr>sent := sent cj @ (if ch then announcement s else [])\<rparr>))"
    using handler_serves_row [OF repo_links_ok ok g le _ _ fresh_facts(5) _ _ _ _ fresh_facts(7) fresh_segments _ fresh_links_up,
        of "replicate 12 0" "\<lambda>a p. None" None] unfolding fresh_facts by auto
  have "andthen (recompute (with_row (rs fresh_world) 1 [2, 0, 1])) (\<lambda>(ch, s). ret ch) = ret True" by code_simp
  moreover have "router_wf (rs fresh_world)" by (rule fresh_wf)
  then have "serve_row (rs fresh_world) (dv_wire [2, 0, 1]) (4 * numRouter (rs fresh_world)) 2
      = andthen (recompute (with_row (rs fresh_world) 1 [2, 0, 1])) (\<lambda>(ch, s'). ret (row_bytes [2, 0, 1], ch, s'))"
    by (rule serve_row_recomputes) (simp_all add: fresh_facts row_ok_def)
  ultimately have "ch" using r(1) by (auto simp: andthen_ret_iff)
  with x [rule_format, of 2] r show ?thesis by (auto simp: repo_cost_eq fresh_facts) (auto simp: fresh_defs)
qed

end
