(* ===== verification/Milestone2.thy ===== *)
theory Milestone2
  imports RouterSettle
begin

text \<open>
  The second milestone of the router (\<open>router/mile2.c\<close>), the version before \<open>router/router.c\<close>. Only what differs is
  defined here: the lookup of an id, the result of \<open>min_DV\<close>, the printed table and the reading of the topology, with the
  functions that call them. The connections, the announcements and the location file are those of the final version. The
  properties compare the two versions.
\<close>

section \<open>Tables\<close>

definition m2_index_to_RID :: "rstate \<Rightarrow> int \<Rightarrow> int run" where
  "m2_index_to_RID s i =
     (if i < numRouter s then andthen (aget (router_set s) i) (\<lambda>r. ret (RID r)) else ret (-1))"

definition m2_setNextHop :: "rstate \<Rightarrow> int \<Rightarrow> int \<Rightarrow> int \<Rightarrow> rstate run" where
  "m2_setNextHop s d_index nextHop_index cost =
     andthen (aset (rt_available s) d_index 1) (\<lambda>av.
     andthen (m2_index_to_RID s d_index) (\<lambda>dr.
     andthen (m2_index_to_RID s nextHop_index) (\<lambda>nr.
     andthen (aset (routing_table s) d_index
               (Some \<lparr>dest_RID = dr, nextHop_RID = nr, pathCost = cost\<rparr>)) (\<lambda>rt.
     ret (s\<lparr>rt_available := av, routing_table := rt\<rparr>)))))"

text \<open>The accumulator of the loop holds \<open>once\<close> and \<open>*min\<close>.\<close>

fun m2_min_loop :: "rstate \<Rightarrow> int \<Rightarrow> nat list \<Rightarrow> bool \<times> int \<Rightarrow> (bool \<times> int) run" where
  "m2_min_loop s d_index [] acc = ret acc"
| "m2_min_loop s d_index (k # ks) (once, mn) =
     (if int k \<noteq> ownIndex s then
        andthen (aget (router_set s) (int k)) (\<lambda>r.
        if linkCost r \<noteq> -1 then
          andthen (dv_get s (int k) d_index) (\<lambda>v.
          if v \<noteq> -1 then
            andthen (cint (linkCost r + v)) (\<lambda>cost.
            if \<not> once then m2_min_loop s d_index ks (True, cost)
            else if cost < mn then m2_min_loop s d_index ks (once, cost)
            else m2_min_loop s d_index ks (once, mn))
          else m2_min_loop s d_index ks (once, mn))
        else m2_min_loop s d_index ks (once, mn))
      else m2_min_loop s d_index ks (once, mn))"

text \<open>The next hop returned is the loop variable after the loop.\<close>

definition m2_min_DV :: "rstate \<Rightarrow> int \<Rightarrow> (int \<times> int) run" where
  "m2_min_DV s d_index =
     andthen (m2_min_loop s d_index [0..<nat (numRouter s)] (False, -1)) (\<lambda>(once, mn).
     let mn = (if mn \<ge> 1000 * 10 then -1 else mn)
     in if mn \<noteq> -1 then ret (int (nat (numRouter s)), mn) else ret (-1, mn))"

fun m2_recompute_loop :: "nat list \<Rightarrow> rstate \<Rightarrow> bool \<Rightarrow> (bool \<times> rstate) run" where
  "m2_recompute_loop [] s ischange = ret (ischange, s)"
| "m2_recompute_loop (d # ds) s ischange =
     (if int d \<noteq> ownIndex s then
        andthen (m2_min_DV s (int d)) (\<lambda>(nextHop, mn).
        andthen (dv_get s (ownIndex s) (int d)) (\<lambda>old.
        if mn \<noteq> old then
          andthen (dv_set s (ownIndex s) (int d) mn) (\<lambda>s.
          andthen (if nextHop \<noteq> -1 then m2_setNextHop s (int d) nextHop mn else ret s) (\<lambda>s.
          m2_recompute_loop ds s True))
        else m2_recompute_loop ds s ischange))
      else m2_recompute_loop ds s ischange)"

definition m2_recompute :: "rstate \<Rightarrow> (bool \<times> rstate) run" where
  "m2_recompute s = m2_recompute_loop [0..<nat (numRouter s)] s False"

definition m2_update_func :: "rstate \<Rightarrow> int \<Rightarrow> int \<Rightarrow> int \<Rightarrow> rstate run" where
  "m2_update_func s s_id d_id wgt =
     (let wgt = (if wgt = 1000 then -1 else wgt);
          i = RID_to_Index s d_id
      in andthen (aget (router_set s) i) (\<lambda>r.
         andthen (aset (router_set s) i (r\<lparr>linkCost := wgt\<rparr>)) (\<lambda>rs.
         andthen (m2_recompute (s\<lparr>router_set := rs\<rparr>)) (\<lambda>(ch, s). ret s))))"

section \<open>The printed table\<close>

text \<open>The text is appended to what the buffer holds; the loop ends at the first destination without an entry.\<close>

fun m2_gen_RTable_loop :: "rstate \<Rightarrow> nat list \<Rightarrow> string \<Rightarrow> string run" where
  "m2_gen_RTable_loop s [] buf = ret buf"
| "m2_gen_RTable_loop s (d # ds) buf =
     andthen (aget (rt_available s) (int d)) (\<lambda>av.
     if av = 1 then
       andthen (aget (routing_table s) (int d)) (\<lambda>e.
       case e of None \<Rightarrow> halt Uninitialised
       | Some e \<Rightarrow> m2_gen_RTable_loop s ds (buf @ show_int (dest_RID e) @ '' '' @
                     show_int (nextHop_RID e) @ '' '' @ show_int (pathCost e) @ '' '' @ [CHR 0x0A]))
     else ret buf)"

definition m2_gen_RTable :: "rstate \<Rightarrow> string \<Rightarrow> string run" where
  "m2_gen_RTable s buf = andthen (m2_gen_RTable_loop s [0..<nR s] buf) (\<lambda>t.
     if length t < 100000 then ret t else halt OutOfBounds)"

definition m2_show_func :: "world \<Rightarrow> int \<Rightarrow> string option \<Rightarrow> (string option \<times> world) run" where
  "m2_show_func w sd buf =
     (case buf of None \<Rightarrow> halt Uninitialised
      | Some old \<Rightarrow>
        andthen (send_msg w sd (rip_msgGeneration RESPONSE (ownRID (rs w)) (-1) (numDV (rs w)) (int (length old) + 1))) (\<lambda>w.
        andthen (m2_gen_RTable (rs w) old) (\<lambda>t.
        andthen (send_data w sd (int (length t) + 1) (str_bytes t @ [0])) (\<lambda>w.
        ret (Some t, w)))))"

section \<open>Handlers\<close>

definition m2_agent :: "dial \<Rightarrow> world \<Rightarrow> int \<Rightarrow> message_s \<Rightarrow> string option \<Rightarrow> (int \<times> string option \<times> world) run" where
  "m2_agent dial w sd m buf =
     (if mtype m = DV then andthen (dv_func dial w) (\<lambda>w. ret (1, buf, w))
      else if mtype m = UPDATE then
        andthen (m2_update_func (rs w) (sint (source m)) (sint (dest m)) (sint (weight m))) (\<lambda>s.
        ret (1, buf, w\<lparr>rs := s\<rparr>))
      else if mtype m = SHOW then andthen (m2_show_func w sd buf) (\<lambda>(buf, w). ret (1, buf, w))
      else if mtype m = RESET then ret (1, buf, w\<lparr>rs := reset_func (rs w)\<rparr>)
      else ret (0, buf, w))"

definition m2_routing :: "dial \<Rightarrow> world \<Rightarrow> int \<Rightarrow> byte list \<Rightarrow> int \<Rightarrow> int \<Rightarrow> (byte list \<times> world) run" where
  "m2_routing dial w sd DVRow sz n_RID =
     andthen (get_sock w sd) (\<lambda>c.
     andthen (rip_dataReceiver sz DVRow c) (\<lambda>(got, DVRow, c).
     andthen (cint (numDV (rs w) + 1)) (\<lambda>n.
     let w = put_sock w sd c;
         s = (rs w)\<lparr>numDV := n\<rparr>;
         DVRow = ntohl_row (nR s) DVRow
     in andthen (copy_row s (RID_to_Index s n_RID) DVRow sz) (\<lambda>s.
        andthen (m2_recompute s) (\<lambda>(ch, s).
        if ch then andthen (dv_func dial (w\<lparr>rs := s\<rparr>)) (\<lambda>w. ret (DVRow, w))
        else ret (DVRow, w\<lparr>rs := s\<rparr>))))))"

definition m2_request_response ::
  "dial \<Rightarrow> int \<Rightarrow> string option \<Rightarrow> byte list \<Rightarrow> world \<Rightarrow> (int \<times> string option \<times> byte list \<times> world) run" where
  "m2_request_response dial sd buf DVRow w =
     andthen (get_sock w sd) (\<lambda>c.
     andthen (rip_msgReceiver c) (\<lambda>(len, m, c).
     let w = put_sock w sd c in
     if protocol m = rip_magicNum \<and> len = 20 then
       (if mtype m = DVMSG then
          andthen (m2_routing dial w sd DVRow (sint (payload m)) (sint (source m))) (\<lambda>(DVRow, w).
          ret (1, buf, DVRow, w))
        else if mtype m = CLOSE then ret (0, buf, DVRow, w)
        else andthen (m2_agent dial w sd m buf) (\<lambda>(c, buf, w). ret (c, buf, DVRow, w)))
     else ret (0, buf, DVRow, w)))"

partial_function (option) m2_service_loop ::
  "dial \<Rightarrow> int \<Rightarrow> string option \<Rightarrow> byte list \<Rightarrow> world \<Rightarrow> world run" where
  "m2_service_loop dial sd buf DVRow w =
     (case m2_request_response dial sd buf DVRow w of
        None \<Rightarrow> None
      | Some r \<Rightarrow> (case r of
          Inl f \<Rightarrow> halt f
        | Inr (c, buf, DVRow, w) \<Rightarrow>
            if c \<noteq> 0 then m2_service_loop dial sd buf DVRow w else ret w))"

definition m2_serviceHandler :: "dial \<Rightarrow> int \<Rightarrow> byte list \<Rightarrow> world \<Rightarrow> world run" where
  "m2_serviceHandler dial sd DVRow w =
     andthen (m2_service_loop dial sd None DVRow w) (\<lambda>w. ret (client_close sd w))"

section \<open>Topology\<close>

text \<open>The entries of the routing table are not written here.\<close>

definition m2_add_edge :: "rstate \<Rightarrow> int \<Rightarrow> int \<Rightarrow> int \<Rightarrow> rstate run" where
  "m2_add_edge s s_id d_id cost =
     (let s_i = RID_to_Index s s_id; d_i = RID_to_Index s d_id
      in if s_id = ownRID s then
           andthen (dv_set s s_i d_i cost) (\<lambda>s.
           andthen (aget (router_set s) d_i) (\<lambda>r.
           andthen (aset (router_set s) d_i (r\<lparr>linkCost := cost\<rparr>)) (\<lambda>t.
           ret (s\<lparr>router_set := t\<rparr>))))
         else ret s)"

fun m2_topology_loop :: "nat \<Rightarrow> string \<Rightarrow> edge_vars \<Rightarrow> rstate \<Rightarrow> rstate run" where
  "m2_topology_loop 0 f v s = ret s"
| "m2_topology_loop (Suc n) f v s =
     (case scan_fields [CHR '','', CHR '',''] f of (fs, f) \<Rightarrow>
      (case assign_edge fs v of (a, b, c) \<Rightarrow>
        andthen (read_var a) (\<lambda>s_id.
        andthen (read_var b) (\<lambda>d_id.
        if s_id = ownRID s then
          andthen (read_var c) (\<lambda>cost.
          andthen (m2_add_edge s s_id d_id cost) (\<lambda>s. m2_topology_loop n f (a, b, c) s))
        else m2_topology_loop n f (a, b, c) s))))"

definition m2_mapTopology :: "rstate \<Rightarrow> string option \<Rightarrow> rstate run" where
  "m2_mapTopology s file =
     (case file of None \<Rightarrow> halt (Exit 0)
      | Some f \<Rightarrow> (case scan_int f of None \<Rightarrow> halt Uninitialised
          | Some (n, f) \<Rightarrow> m2_topology_loop (nat n) f (None, None, None) s))"

definition m2_router_start :: "string \<Rightarrow> string option \<Rightarrow> string option \<Rightarrow> rstate run" where
  "m2_router_start arg3 location topology =
     andthen (mapRLocation (atoi arg3) location) (\<lambda>s. m2_mapTopology s topology)"

section \<open>Runs side by side\<close>

abbreviation both :: "('a \<Rightarrow> 'b \<Rightarrow> bool) \<Rightarrow> 'a run \<Rightarrow> 'b run \<Rightarrow> bool" where
  "both P \<equiv> rel_option (rel_sum (=) P)"

lemma both_andthen:
  assumes "both P m n" "\<And>x y. P x y \<Longrightarrow> both Q (f x) (g y)"
  shows "both Q (andthen m f) (andthen n g)"
  using assms by (cases m; cases n) (auto simp: andthen_def elim!: rel_sum.cases split: sum.splits)

lemma both_same: "(\<And>x. P x x) \<Longrightarrow> both P m m"
  by (cases m rule: run_cases) auto

lemma both_andthen_same: "(\<And>x. m = ret x \<Longrightarrow> both Q (f x) (g x)) \<Longrightarrow> both Q (andthen m f) (andthen m g)"
  by (cases m rule: run_cases) auto

lemma both_left: "both P m n \<Longrightarrow> (\<And>x. m = ret x \<Longrightarrow> Q x) \<Longrightarrow> both (\<lambda>x y. P x y \<and> Q x) m n"
  by (cases m rule: run_cases; cases n rule: run_cases) auto

text \<open>States that differ in the routing table and its marks only.\<close>

definition apart :: "rstate \<Rightarrow> rstate \<Rightarrow> bool" where
  "apart t s \<longleftrightarrow> router_wf s \<and> (\<exists>A T. length A = nR s \<and> length T = nR s \<and> t = s\<lparr>rt_available := A, routing_table := T\<rparr>)"

definition worlds_apart :: "world \<Rightarrow> world \<Rightarrow> bool" where
  "worlds_apart v w \<longleftrightarrow> apart (rs v) (rs w) \<and> socks v = socks w"

lemma apartE:
  assumes "apart t s"
  obtains A T where "router_wf s" "length A = nR s" "length T = nR s" "t = s\<lparr>rt_available := A, routing_table := T\<rparr>"
  using assms by (auto simp: apart_def)

lemma apartI: "router_wf s \<Longrightarrow> length A = nR s \<Longrightarrow> length T = nR s \<Longrightarrow> apart (s\<lparr>rt_available := A, routing_table := T\<rparr>) s"
  by (auto simp: apart_def)

lemma apart_refl: "router_wf s \<Longrightarrow> apart s s"
  using apartI [of s "rt_available s" "routing_table s"] router_wfD(7,8) [of s] by simp

lemma apartD:
  assumes "apart t s"
  shows "router_wf s" "router_wf t" "numRouter t = numRouter s" "ownIndex t = ownIndex s" "ownRID t = ownRID s" "numDV t = numDV s"
    "connected t = connected s" "router_set t = router_set s" "DVTable t = DVTable s"
    "RID_to_Index t = RID_to_Index s"
  using assms by (auto simp: apart_def router_wf_def RID_to_Index_def)

section \<open>The same distances\<close>

lemma m2_min_loop_same:
  "apart t s \<Longrightarrow> m2_min_loop t d ks (once, mn) = andthen (min_DV_loop s d ks (once, mn, NH)) (\<lambda>(once, mn, NH). ret (once, mn))"
proof (induction ks arbitrary: once mn NH)
  case (Cons k ks)
  note IH = Cons.IH [OF Cons.prems] and f = apartD [OF Cons.prems]
  have dg: "dv_get t = dv_get s" by (intro ext) (simp add: dv_get_def f)
  show ?case
    by (auto simp: f dg IH andthen_assoc intro!: arg_cong2 [of _ _ _ _ andthen] ext)
qed simp

lemma m2_min_DV_same:
  assumes "apart t s"
  shows "m2_min_DV t d = andthen (min_DV s d) (\<lambda>(NH, mn). ret (if mn = -1 then -1 else int (nR s), mn))"
  unfolding m2_min_DV_def min_DV_def m2_min_loop_same [OF assms, of _ _ _ _ "-1"] apartD(3) [OF assms]
  by (auto simp: andthen_assoc Let_def split: prod.splits intro!: arg_cong2 [of _ _ _ _ andthen] ext)

lemma min_DV_hop:
  assumes "router_wf s" "d < nR s" "min_DV s (int d) = ret (NH, mn)"
  shows "mn = -1 \<and> NH = -1 \<or> mn \<noteq> -1 \<and> (\<exists>k < nR s. NH = int k)"
proof -
  have "best s d = (NH, mn)" using min_DV_ret [OF assms] by simp
  then show ?thesis by (rule best_cases) (auto simp: eligible_def)
qed

lemma dv_set_apart:
  assumes "apart t s" "i < nR s" "j < nR s"
  shows "\<exists>t' s'. dv_set t (int i) (int j) v = ret t' \<and> dv_set s (int i) (int j) v = ret s' \<and> apart t' s' \<and> nR s' = nR s \<and>
    own s' = own s \<and> RID_to_Index s' = RID_to_Index s \<and> routing_table t' = routing_table t \<and> router_set s' = router_set s"
proof (rule apartE [OF assms(1)])
  fix A T assume wf: "router_wf s" and T: "length A = nR s" "length T = nR s" "t = s\<lparr>rt_available := A, routing_table := T\<rparr>"
  note w = router_wfD [OF wf]
  let ?s = "s\<lparr>DVTable := (DVTable s)[i := (DVTable s ! i)[j := v]]\<rparr>"
  have wf': "router_wf ?s" using wf w(6,9) assms(2,3) by (auto simp: router_wf_def list_all_length nth_list_update)
  have "dv_set s (int i) (int j) v = ret ?s" by (rule dv_set_wf [OF wf assms(2,3)])
  moreover have "dv_set t (int i) (int j) v = ret (?s\<lparr>rt_available := A, routing_table := T\<rparr>)"
    using dv_set_wf [OF apartD(2) [OF assms(1)], of i j v] assms(2,3) by (simp add: T(3))
  moreover have "apart (?s\<lparr>rt_available := A, routing_table := T\<rparr>) ?s" by (rule apartI [OF wf']) (simp_all add: T(1,2))
  moreover have "RID_to_Index ?s = RID_to_Index s" by (intro ext) (simp add: RID_to_Index_def)
  ultimately show ?thesis by (simp add: T(3))
qed

lemma setNextHop_apart:
  assumes "apart t s" "d < nR s" "k < nR s"
  shows "\<exists>t' s'. m2_setNextHop t (int d) (int (nR s)) v = ret t' \<and> setNextHop s (int d) (int k) v = ret s' \<and> apart t' s' \<and>
    nR s' = nR s \<and> own s' = own s \<and> router_set s' = router_set s \<and>
    routing_table t' = (routing_table t)[d := Some \<lparr>dest_RID = RID (router_set s ! d), nextHop_RID = -1, pathCost = v\<rparr>]"
proof (rule apartE [OF assms(1)])
  fix A T assume wf: "router_wf s" and T: "length A = nR s" "length T = nR s" "t = s\<lparr>rt_available := A, routing_table := T\<rparr>"
  note w = router_wfD [OF wf]
  let ?e = "\<lambda>h. Some \<lparr>dest_RID = RID (router_set s ! d), nextHop_RID = h, pathCost = v\<rparr>"
  let ?s = "s\<lparr>rt_available := (rt_available s)[d := 1], routing_table := (routing_table s)[d := ?e (RID (router_set s ! k))]\<rparr>"
  have "int d < numRouter s" "\<not> int (nR s) < numRouter s" using assms(2) w(3) by linarith+
  then have "m2_index_to_RID t (int d) = ret (RID (router_set s ! d))" "m2_index_to_RID t (int (nR s)) = ret (-1)"
    using assms(2) w(5) by (simp_all add: m2_index_to_RID_def T(3))
  then have 1: "m2_setNextHop t (int d) (int (nR s)) v = ret (?s\<lparr>rt_available := A[d := 1], routing_table := T[d := ?e (-1)]\<rparr>)"
    using assms(2) T by (simp add: m2_setNextHop_def)
  have 2: "setNextHop s (int d) (int k) v = ret ?s"
    using assms(2,3) w(7,8) index_to_RID_wf [OF wf] by (simp add: setNextHop_def)
  have "router_wf ?s" using wf by (simp add: router_wf_def)
  then have "apart (?s\<lparr>rt_available := A[d := 1], routing_table := T[d := ?e (-1)]\<rparr>) ?s" by (rule apartI) (simp_all add: T(1,2))
  with 1 2 show ?thesis by (simp add: T(3))
qed

text \<open>The entries that a recomputation of the milestone writes have no next hop.\<close>

definition hops_lost :: "rstate \<Rightarrow> rstate \<Rightarrow> bool" where
  "hops_lost t t' \<longleftrightarrow> (\<forall>d < length (routing_table t). routing_table t' ! d = routing_table t ! d \<or>
     (\<exists>e. routing_table t' ! d = Some e \<and> nextHop_RID e = -1))"

lemma hops_lost_refl [simp]: "hops_lost t t"
  by (simp add: hops_lost_def)

lemma hops_lost_trans:
  "hops_lost t t' \<Longrightarrow> hops_lost t' t'' \<Longrightarrow> length (routing_table t') = length (routing_table t) \<Longrightarrow> hops_lost t t''"
  by (auto simp: hops_lost_def) metis

lemma hops_lost_update:
  assumes "routing_table t' = (routing_table t)[d := Some e]" "nextHop_RID e = -1"
  shows "hops_lost t t'"
  unfolding hops_lost_def
proof (intro allI impI)
  fix x assume "x < length (routing_table t)"
  then show "routing_table t' ! x = routing_table t ! x \<or> (\<exists>e. routing_table t' ! x = Some e \<and> nextHop_RID e = -1)"
    using assms by (cases "x = d") simp_all
qed

text \<open>What both versions store when the cost of a destination has changed.\<close>

lemma new_cost_apart:
  assumes "apart t s" "d < nR s" "min_DV s (int d) = ret (NH, mn)"
  shows "both (\<lambda>t' s'. apart t' s' \<and> nR s' = nR s \<and> hops_lost t t')
    (andthen (dv_set t (ownIndex s) (int d) mn) (\<lambda>t. if (if mn = -1 then -1 else int (nR s)) \<noteq> -1
        then m2_setNextHop t (int d) (if mn = -1 then -1 else int (nR s)) mn else ret t))
    (andthen (dv_set s (ownIndex s) (int d) mn) (\<lambda>s. if NH \<noteq> -1 then setNextHop s (int d) NH mn else ret s))"
proof -
  note f = apartD [OF assms(1)] and w = router_wfD [OF apartD(1) [OF assms(1)]]
  from dv_set_apart [OF assms(1) w(2) assms(2), of mn] obtain t1 s1 where
    1: "dv_set t (ownIndex s) (int d) mn = ret t1" "dv_set s (ownIndex s) (int d) mn = ret s1" "apart t1 s1" "nR s1 = nR s"
      "routing_table t1 = routing_table t"
    using w(1) by auto
  from min_DV_hop [OF f(1) assms(2,3)] show ?thesis
  proof (elim disjE conjE exE)
    assume "mn = -1" "NH = -1"
    with 1 show ?thesis by (simp add: hops_lost_def)
  next
    fix k assume k: "mn \<noteq> -1" "k < nR s" "NH = int k"
    from setNextHop_apart [OF 1(3), of d k mn] assms(2) k(2) 1(4) obtain t2 s2 where
      2: "m2_setNextHop t1 (int d) (int (nR s)) mn = ret t2" "setNextHop s1 (int d) (int k) mn = ret s2" "apart t2 s2" "nR s2 = nR s"
      "routing_table t2 = (routing_table t1)[d := Some \<lparr>dest_RID = RID (router_set s1 ! d), nextHop_RID = -1, pathCost = mn\<rparr>]"
      by auto
    from hops_lost_update [OF 2(5) [unfolded 1(5)]] 1 2 k show ?thesis by simp
  qed
qed

lemma m2_recompute_loop_same:
  assumes "apart t s" "\<forall>d \<in> set ds. d < nR s"
  shows "both (\<lambda>(ch, t') (ch', s'). ch = ch' \<and> apart t' s' \<and> hops_lost t t') (m2_recompute_loop ds t c) (recompute_loop ds s c)"
  using assms
proof (induction ds arbitrary: s t c)
  case Nil
  then show ?case by simp
next
  case (Cons d ds)
  note f = apartD [OF Cons.prems(1)]
  have d: "d < nR s" and dg: "dv_get t = dv_get s" using Cons.prems(2) by (auto intro!: ext simp: dv_get_def f)
  have next_: "both (\<lambda>(ch, t') (ch', s'). ch = ch' \<and> apart t' s' \<and> hops_lost t t') (m2_recompute_loop ds t1 c1) (recompute_loop ds s1 c1)"
    if "apart t1 s1 \<and> nR s1 = nR s \<and> hops_lost t t1" for t1 s1 c1
  proof -
    have l: "length (routing_table t1) = length (routing_table t)"
      using that Cons.prems(1) by (auto simp: apart_def)
    have "apart t1 s1" "\<forall>d \<in> set ds. d < nR s1" "hops_lost t t1" using Cons.prems(2) that by simp_all
    from Cons.IH [OF this(1,2)] show ?thesis
      by (rule option.rel_mono_strong, elim sum.rel_mono_strong) (use hops_lost_trans [OF \<open>hops_lost t t1\<close> _ l] in auto)
  qed
  have changed: "both (\<lambda>(ch, t') (ch', s'). ch = ch' \<and> apart t' s' \<and> hops_lost t t')
      (andthen (dv_set t (ownIndex s) (int d) mn) (\<lambda>t. andthen (if (if mn = -1 then -1 else int (nR s)) \<noteq> -1
        then m2_setNextHop t (int d) (if mn = -1 then -1 else int (nR s)) mn else ret t) (\<lambda>t. m2_recompute_loop ds t True)))
      (andthen (dv_set s (ownIndex s) (int d) mn) (\<lambda>s. andthen (if NH \<noteq> -1 then setNextHop s (int d) NH mn else ret s)
        (\<lambda>s. recompute_loop ds s True)))"
    if "min_DV s (int d) = ret (NH, mn)" for NH mn
    using both_andthen [OF new_cost_apart [OF Cons.prems(1) d that] next_] by (simp only: andthen_assoc)
  show ?case
    using next_ [of t s] Cons.prems(1) changed
    by (auto simp: m2_min_DV_same [OF Cons.prems(1)] f(4) dg andthen_assoc intro!: both_andthen_same split: prod.splits)
qed

lemma m2_recompute_same:
  "apart t s \<Longrightarrow> both (\<lambda>(ch, t') (ch', s'). ch = ch' \<and> apart t' s' \<and> hops_lost t t') (m2_recompute t) (recompute s)"
  unfolding m2_recompute_def recompute_def using m2_recompute_loop_same [of t s "[0..<nR s]" False] apartD(3) [of t s] by simp

section \<open>The same messages\<close>

text \<open>Announcing does not look at the routing table.\<close>

definition retable :: "int list \<Rightarrow> Entry option list \<Rightarrow> world \<Rightarrow> world" where
  "retable A T w = w\<lparr>rs := (rs w)\<lparr>rt_available := A, routing_table := T\<rparr>\<rparr>"

lemma retable_simps [simp]:
  "socks (retable A T w) = socks w" "rs (retable A T w) = (rs w)\<lparr>rt_available := A, routing_table := T\<rparr>"
  "put_sock (retable A T w) sd c = retable A T (put_sock w sd c)" "get_sock (retable A T w) sd = get_sock w sd"
  "(retable A T w)\<lparr>socks := S\<rparr> = retable A T (w\<lparr>socks := S\<rparr>)"
  by (simp_all add: retable_def put_sock_def get_sock_def)

lemma retable_send:
  "send_msg (retable A T w) sd m = andthen (send_msg w sd m) (\<lambda>w. ret (retable A T w))"
  "send_data (retable A T w) sd n b = andthen (send_data w sd n b) (\<lambda>w. ret (retable A T w))"
  by (auto simp: send_msg_def send_data_def andthen_assoc intro!: arg_cong2 [of _ _ _ _ andthen] ext)

lemma retable_set:
  "set_link (retable A T w) i r = andthen (set_link w i r) (\<lambda>w. ret (retable A T w))"
  "set_connected (retable A T w) i v = andthen (set_connected w i v) (\<lambda>w. ret (retable A T w))"
  by (auto simp: set_link_def set_connected_def andthen_assoc retable_def intro!: arg_cong2 [of _ _ _ _ andthen] ext)

lemma retable_connectNeighbor:
  "connectNeighbor dial (retable A T w) a p = (case connectNeighbor dial w a p of (fd, w) \<Rightarrow> (fd, retable A T w))"
  by (simp add: connectNeighbor_def split: option.splits)

lemma retable_connection_loop:
  "connection_loop dial is (retable A T w) = andthen (connection_loop dial is w) (\<lambda>(r, w). ret (r, retable A T w))"
proof (induction "is" arbitrary: w)
  case (Cons i "is")
  note IH = Cons.IH
  show ?case
    by (auto simp: IH retable_send retable_set retable_connectNeighbor andthen_assoc split: prod.splits
        intro!: arg_cong2 [of _ _ _ _ andthen] ext)
qed simp

lemma retable_announce_loop: "announce_loop temp is (retable A T w) = andthen (announce_loop temp is w) (\<lambda>w. ret (retable A T w))"
proof (induction "is" arbitrary: w)
  case (Cons i "is")
  note IH = Cons.IH
  show ?case
    by (auto simp: IH retable_send andthen_assoc intro!: arg_cong2 [of _ _ _ _ andthen] ext)
qed simp

lemma retable_dv_func: "dv_func dial (retable A T w) = andthen (dv_func dial w) (\<lambda>w. ret (retable A T w))"
  by (auto simp: dv_func_def connection_def retable_connection_loop retable_announce_loop andthen_assoc split: prod.splits
      intro!: arg_cong2 [of _ _ _ _ andthen] ext)

lemma worlds_apartE:
  assumes "worlds_apart v w"
  obtains A T where "router_wf (rs w)" "length A = nR (rs w)" "length T = nR (rs w)" "v = retable A T w"
  using assms by (auto simp: worlds_apart_def retable_def elim!: apartE intro!: world.equality)

lemma worlds_apartI: "router_wf (rs w) \<Longrightarrow> length A = nR (rs w) \<Longrightarrow> length T = nR (rs w) \<Longrightarrow> worlds_apart (retable A T w) w"
  by (simp add: worlds_apart_def apartI)

lemma dv_func_apart:
  assumes "worlds_apart v w"
  shows "both worlds_apart (dv_func dial v) (dv_func dial w)"
proof (rule worlds_apartE [OF assms])
  fix A T assume wf: "router_wf (rs w)" and T: "length A = nR (rs w)" "length T = nR (rs w)" "v = retable A T w"
  show ?thesis
  proof (cases "dv_func dial w" rule: run_cases)
    case (returns w')
    have "same_tables (rs w) (rs w')" by (rule dv_func_tables [OF returns])
    then have "router_wf (rs w')" "nR (rs w') = nR (rs w)" using same_tables_wf wf by (auto simp: same_tables_def)
    with returns T show ?thesis by (simp add: retable_dv_func worlds_apartI)
  qed (simp_all add: retable_dv_func T(3))
qed

lemma apart_updates:
  assumes "apart t s"
  shows "length R = nR s \<Longrightarrow> apart (t\<lparr>router_set := R\<rparr>) (s\<lparr>router_set := R\<rparr>)"
    "router_wf (s\<lparr>DVTable := D\<rparr>) \<Longrightarrow> apart (t\<lparr>DVTable := D\<rparr>) (s\<lparr>DVTable := D\<rparr>)"
    "apart (t\<lparr>numDV := k\<rparr>) (s\<lparr>numDV := k\<rparr>)"
proof -
  obtain A T where wf: "router_wf s" and T: "length A = nR s" "length T = nR s" "t = s\<lparr>rt_available := A, routing_table := T\<rparr>"
    using assms by (rule apartE)
  have "t\<lparr>router_set := R\<rparr> = s\<lparr>router_set := R\<rparr>\<lparr>rt_available := A, routing_table := T\<rparr>"
    "t\<lparr>DVTable := D\<rparr> = s\<lparr>DVTable := D\<rparr>\<lparr>rt_available := A, routing_table := T\<rparr>"
    "t\<lparr>numDV := k\<rparr> = s\<lparr>numDV := k\<rparr>\<lparr>rt_available := A, routing_table := T\<rparr>" unfolding T(3) by simp_all
  then show "length R = nR s \<Longrightarrow> apart (t\<lparr>router_set := R\<rparr>) (s\<lparr>router_set := R\<rparr>)"
    "router_wf (s\<lparr>DVTable := D\<rparr>) \<Longrightarrow> apart (t\<lparr>DVTable := D\<rparr>) (s\<lparr>DVTable := D\<rparr>)"
    "apart (t\<lparr>numDV := k\<rparr>) (s\<lparr>numDV := k\<rparr>)"
    using T(1,2) wf by (auto simp: router_wf_def intro!: apartI)
qed

lemma update_func_apart:
  assumes "apart t s"
  shows "both apart (m2_update_func t a d v) (update_func s a d v)"
proof -
  note f = apartD [OF assms] and w = router_wfD [OF apartD(1) [OF assms]]
  have "both apart (andthen (m2_recompute (t\<lparr>router_set := R\<rparr>)) (\<lambda>(ch, s). ret s)) (andthen (recompute (s\<lparr>router_set := R\<rparr>)) (\<lambda>(ch, s). ret s))"
    if "aset (router_set s) i r = ret R" for i r R
  proof -
    have "length R = nR s" using that w(5) by (auto simp: aset_ret)
    from m2_recompute_same [OF apart_updates(1) [OF assms this]] show ?thesis by (rule both_andthen) auto
  qed
  then show ?thesis
    unfolding m2_update_func_def update_func_def Let_def f by (intro both_andthen_same) auto
qed

lemma copy_row_apart:
  assumes "apart t s"
  shows "both apart (copy_row t i R n) (copy_row s i R n)"
proof -
  note f = apartD [OF assms]
  have e: "copy_row t i R n = andthen (copy_row s i R n) (\<lambda>s'. ret (t\<lparr>DVTable := DVTable s'\<rparr>))"
    by (auto simp: copy_row_def f andthen_assoc intro!: arg_cong2 [of _ _ _ _ andthen] ext)
  show ?thesis
  proof (cases "copy_row s i R n" rule: run_cases)
    case (returns s')
    from copy_row_ret [OF returns f(1)] obtain row where "router_wf s'" "s' = s\<lparr>DVTable := (DVTable s)[nat i := row]\<rparr>"
      by auto
    with apart_updates(2) [OF assms] returns show ?thesis by (auto simp: e)
  qed (simp_all add: e)
qed

lemma put_sock_apart: "worlds_apart v w \<Longrightarrow> worlds_apart (put_sock v sd c) (put_sock w sd c)"
  by (simp add: worlds_apart_def put_sock_def)

lemma set_rs_apart: "worlds_apart v w \<Longrightarrow> apart t s \<Longrightarrow> worlds_apart (v\<lparr>rs := t\<rparr>) (w\<lparr>rs := s\<rparr>)"
  by (simp add: worlds_apart_def)

lemma stored_apart:
  assumes "worlds_apart v w"
  shows "both (\<lambda>(R, v') (R', w'). R = R' \<and> worlds_apart v' w')
    (andthen (copy_row ((rs v)\<lparr>numDV := k\<rparr>) i R n) (\<lambda>s. andthen (m2_recompute s) (\<lambda>(ch, s).
       if ch then andthen (dv_func dial (v\<lparr>rs := s\<rparr>)) (\<lambda>w. ret (R, w)) else ret (R, v\<lparr>rs := s\<rparr>))))
    (andthen (copy_row ((rs w)\<lparr>numDV := k\<rparr>) i R n) (\<lambda>s. andthen (recompute s) (\<lambda>(ch, s).
       if ch then andthen (dv_func dial (w\<lparr>rs := s\<rparr>)) (\<lambda>w. ret (R, w)) else ret (R, w\<lparr>rs := s\<rparr>))))"
proof -
  have a: "apart ((rs v)\<lparr>numDV := k\<rparr>) ((rs w)\<lparr>numDV := k\<rparr>)"
    using assms apart_updates(3) by (simp add: worlds_apart_def)
  have "both (\<lambda>(R, v') (R', w'). R = R' \<and> worlds_apart v' w')
      (andthen (dv_func dial (v\<lparr>rs := t\<rparr>)) (\<lambda>w. ret (R, w))) (andthen (dv_func dial (w\<lparr>rs := s\<rparr>)) (\<lambda>w. ret (R, w)))" if "apart t s" for t s
    using set_rs_apart [OF assms that] by (intro both_andthen [OF dv_func_apart]) auto
  then show ?thesis
    by (intro both_andthen [OF copy_row_apart [OF a]] both_andthen [OF m2_recompute_same])
      (auto simp: set_rs_apart [OF assms] split: prod.splits)
qed

lemma routing_apart:
  assumes "worlds_apart v w"
  shows "both (\<lambda>(R, v') (R', w'). R = R' \<and> worlds_apart v' w') (m2_routing dial v sd DVRow n rid) (routing dial w sd DVRow n rid)"
proof -
  have a: "apart (rs v) (rs w)" and sk: "socks v = socks w" using assms by (auto simp: worlds_apart_def)
  note f = apartD [OF a]
  have g: "get_sock v sd = get_sock w sd" by (simp add: get_sock_def sk)
  have ix: "RID_to_Index ((rs v)\<lparr>numDV := k\<rparr>) rid = RID_to_Index ((rs w)\<lparr>numDV := k\<rparr>) rid" for k
    by (simp add: RID_to_Index_def f)
  have n: "nR ((rs v)\<lparr>numDV := k\<rparr>) = nR (rs w)" "nR ((rs w)\<lparr>numDV := k\<rparr>) = nR (rs w)" for k by (simp_all add: f)
  have "both (\<lambda>(R, v') (R', w'). R = R' \<and> worlds_apart v' w')
    (let w = put_sock v sd c; s = (rs w)\<lparr>numDV := k\<rparr>; R = ntohl_row (nR s) R in
       andthen (copy_row s (RID_to_Index s rid) R n) (\<lambda>s. andthen (m2_recompute s) (\<lambda>(ch, s).
         if ch then andthen (dv_func dial (w\<lparr>rs := s\<rparr>)) (\<lambda>w. ret (R, w)) else ret (R, w\<lparr>rs := s\<rparr>))))
    (let w = put_sock w sd c; s = (rs w)\<lparr>numDV := k\<rparr>; R = ntohl_row (nR s) R in
       andthen (copy_row s (RID_to_Index s rid) R n) (\<lambda>s. andthen (recompute s) (\<lambda>(ch, s).
         if ch then andthen (dv_func dial (w\<lparr>rs := s\<rparr>)) (\<lambda>w. ret (R, w)) else ret (R, w\<lparr>rs := s\<rparr>))))" for k c R
    unfolding Let_def put_sock_rs n ix
    by (rule stored_apart [OF put_sock_apart [OF assms], where k = k and c1 = c and sd1 = sd, unfolded put_sock_rs])
  then show ?thesis
    unfolding m2_routing_def routing_def g f(6) by (intro both_andthen_same) (auto intro!: both_andthen_same split: prod.splits)
qed

lemma agent_apart:
  assumes "worlds_apart v w" "mtype m \<noteq> SHOW"
  shows "both (\<lambda>(c, b, v') (c', b', w'). c = c' \<and> b = b' \<and> worlds_apart v' w') (m2_agent dial v sd m buf) (agent dial w sd m buf)"
proof -
  have a: "apart (rs v) (rs w)" using assms(1) by (simp add: worlds_apart_def)
  have "apart (reset_func (rs v)) (reset_func (rs w))" using apart_updates(3) [OF a] by (simp add: reset_func_def)
  then have "worlds_apart (v\<lparr>rs := reset_func (rs v)\<rparr>) (w\<lparr>rs := reset_func (rs w)\<rparr>)" by (rule set_rs_apart [OF assms(1)])
  with assms show ?thesis
    unfolding m2_agent_def agent_def
    by (auto intro!: both_andthen [OF dv_func_apart] both_andthen [OF update_func_apart [OF a]] set_rs_apart)
qed

section \<open>The same start\<close>

lemma dv_set_both:
  assumes "apart t s"
  shows "both apart (dv_set t i j v) (dv_set s i j v)"
proof -
  note f = apartD [OF assms]
  have e: "dv_set t i j v = andthen (dv_set s i j v) (\<lambda>s'. ret (t\<lparr>DVTable := DVTable s'\<rparr>))"
    by (auto simp: dv_set_def f andthen_assoc intro!: arg_cong2 [of _ _ _ _ andthen] ext)
  show ?thesis
  proof (cases "dv_set s i j v" rule: run_cases)
    case (returns s')
    from dv_set_ret [OF this f(1)] have "router_wf s'" "\<exists>D. s' = s\<lparr>DVTable := D\<rparr>" by blast+
    with apart_updates(2) [OF assms] returns show ?thesis by (auto simp: e)
  qed (simp_all add: e)
qed

lemma setNextHop_right:
  assumes "apart t s" "d < nR s"
  shows "\<exists>s'. setNextHop s (int d) (int d) v = ret s' \<and> apart t s'"
proof -
  note f = apartD [OF assms(1)] and w = router_wfD [OF apartD(1) [OF assms(1)]]
  obtain A T where T: "length A = nR s" "length T = nR s" "t = s\<lparr>rt_available := A, routing_table := T\<rparr>"
    using assms(1) by (rule apartE)
  let ?r = "RID (router_set s ! d)"
  let ?s = "s\<lparr>rt_available := (rt_available s)[d := 1], routing_table := (routing_table s)[d := Some \<lparr>dest_RID = ?r, nextHop_RID = ?r, pathCost = v\<rparr>]\<rparr>"
  have "setNextHop s (int d) (int d) v = ret ?s"
    using assms(2) w(7,8) index_to_RID_wf [OF f(1)] by (simp add: setNextHop_def)
  moreover have "router_wf ?s" using f(1) by (simp add: router_wf_def)
  then have "apart (?s\<lparr>rt_available := A, routing_table := T\<rparr>) ?s" by (rule apartI) (simp_all add: T)
  then have "apart t ?s" by (simp add: T(3))
  ultimately show ?thesis by blast
qed

lemma linked_apart:
  assumes "apart t1 s1" "d < nR s1"
  shows "both apart
    (andthen (aget (router_set t1) (int d)) (\<lambda>r. andthen (aset (router_set t1) (int d) (r\<lparr>linkCost := v\<rparr>)) (\<lambda>x. ret (t1\<lparr>router_set := x\<rparr>))))
    (andthen (if v \<noteq> -1 then setNextHop s1 (int d) (int d) v else ret s1) (\<lambda>s. andthen (aget (router_set s) (int d)) (\<lambda>r.
       andthen (aset (router_set s) (int d) (r\<lparr>linkCost := v\<rparr>)) (\<lambda>x. ret (s\<lparr>router_set := x\<rparr>)))))"
proof -
  have "\<exists>s2. (if v \<noteq> -1 then setNextHop s1 (int d) (int d) v else ret s1) = ret s2 \<and> apart t1 s2"
    using setNextHop_right [OF assms, of v] assms(1) by (cases "v = -1") auto
  then obtain s2 where s2: "(if v \<noteq> -1 then setNextHop s1 (int d) (int d) v else ret s1) = ret s2" "apart t1 s2" by blast
  note f2 = apartD [OF s2(2)]
  have "length R = nR s2" if "aset (router_set s2) (int d) r = ret R" for r R
    using that router_wfD(5) [OF f2(1)] by (auto simp: aset_ret)
  with s2 f2 apart_updates(1) [OF s2(2)] show ?thesis by (auto intro!: both_andthen_same)
qed

lemma add_edge_apart:
  assumes "apart t s"
  shows "both apart (m2_add_edge t a b v) (add_edge s a b v)"
proof (cases "a = ownRID s")
  case True
  note f = apartD [OF assms]
  show ?thesis
  proof (cases "dv_set s (RID_to_Index s a) (RID_to_Index s b) v" rule: run_cases)
    case (returns s1)
    with dv_set_both [OF assms, of "RID_to_Index s a" "RID_to_Index s b" v] obtain t1 where
      t1: "dv_set t (RID_to_Index s a) (RID_to_Index s b) v = ret t1" "apart t1 s1"
      by (cases "dv_set t (RID_to_Index s a) (RID_to_Index s b) v" rule: run_cases) auto
    obtain d where "RID_to_Index s b = int d" "d < nR s1"
      by (rule dv_set_ret [OF returns f(1)]) auto
    with linked_apart [OF t1(2), of d v] t1(1) returns True show ?thesis
      by (simp add: m2_add_edge_def add_edge_def Let_def f)
  next
    case diverges
    with dv_set_both [OF assms, of "RID_to_Index s a" "RID_to_Index s b" v] True show ?thesis
      by (simp add: m2_add_edge_def add_edge_def Let_def f)
  next
    case (faults e)
    with dv_set_both [OF assms, of "RID_to_Index s a" "RID_to_Index s b" v] True show ?thesis
      by (cases "dv_set t (RID_to_Index s a) (RID_to_Index s b) v" rule: run_cases) (auto simp: m2_add_edge_def add_edge_def Let_def f)
  qed
qed (use assms apartD [OF assms] in \<open>simp add: m2_add_edge_def add_edge_def\<close>)

lemma topology_loop_apart: "apart t s \<Longrightarrow> both apart (m2_topology_loop n f vs t) (topology_loop n f vs s)"
proof (induction n f vs s arbitrary: t rule: topology_loop.induct)
  case (2 n f v s)
  obtain fs f' where sc: "scan_fields [CHR '','', CHR '',''] f = (fs, f')" by (metis surj_pair)
  obtain a b c where v: "assign_edge fs v = (a, b, c)" by (metis prod_cases3)
  note IH = "2.IH" [OF sc [symmetric] v [symmetric] refl]
  show ?case
    using apartD(5) [OF "2.prems"] IH(2) [OF _ "2.prems"]
    by (auto simp: sc v intro!: both_andthen_same both_andthen [OF add_edge_apart [OF "2.prems"]] IH(1))
qed simp

lemma m2_edge_marks: "m2_add_edge s a b v = ret s' \<Longrightarrow> rt_available s' = rt_available s \<and> routing_table s' = routing_table s"
  by (auto simp: m2_add_edge_def Let_def dv_set_def split: if_splits)

lemma m2_topology_marks: "m2_topology_loop n f vs s = ret s' \<Longrightarrow> rt_available s' = rt_available s \<and> routing_table s' = routing_table s"
proof (induction n f vs s rule: m2_topology_loop.induct)
  case (2 n f v s)
  then show ?case by (auto dest!: m2_edge_marks split: prod.splits if_splits)
qed simp

lemma m2_gen_RTable_loop_prefix:
  assumes "router_wf s" "\<forall>d \<in> set ds. d < nR s \<and> rt_available s ! d = 1 \<and> routing_table s ! d \<noteq> None" "k < nR s" "rt_available s ! k \<noteq> 1"
  shows "m2_gen_RTable_loop s (ds @ k # ks) buf = ret (buf @ table_text s ds)"
  using assms(2)
proof (induction ds arbitrary: buf)
  case Nil
  then show ?case using assms(3,4) router_wfD(7) [OF assms(1)] by (simp add: table_text_def)
next
  case (Cons d ds)
  then obtain e where "routing_table s ! d = Some e" "d < nR s" "rt_available s ! d = 1"
    and IH: "\<And>buf. m2_gen_RTable_loop s (ds @ k # ks) buf = ret (buf @ table_text s ds)" by auto
  then show ?case
    using router_wfD(7,8) [OF assms(1)] by (simp add: table_text_def entry_line_def)
qed

section \<open>The properties\<close>

text \<open>C18: as long as nobody asks for the printed table, the milestone and the final version cannot be told apart: for the same
  message on the same sockets both stop with the same fault, both do not return, or both return with the same result, the same bytes
  on every socket, and the same distances.\<close>

theorem milestone2_same_protocol:
  assumes "worlds_apart v w" "\<forall>c len m c'. socks w sd = Some c \<longrightarrow> rip_msgReceiver c = ret (len, m, c') \<longrightarrow> mtype m \<noteq> SHOW"
  shows "both (\<lambda>(c, b, R, v') (c', b', R', w'). c = c' \<and> b = b' \<and> R = R' \<and> worlds_apart v' w')
    (m2_request_response dial sd buf DVRow v) (request_response dial sd buf DVRow w)"
proof -
  define P where "P = (\<lambda>(c :: int, b :: string option, R :: byte list, v') (c', b', R', w'). c = c' \<and> b = b' \<and> R = R' \<and> worlds_apart v' w')"
  have g: "get_sock v sd = get_sock w sd" using assms(1) by (simp add: get_sock_def worlds_apart_def)
  have r: "both P (andthen (m2_routing dial (put_sock v sd c) sd DVRow n rid) (\<lambda>(DVRow, w). ret (1, buf, DVRow, w)))
      (andthen (routing dial (put_sock w sd c) sd DVRow n rid) (\<lambda>(DVRow, w). ret (1, buf, DVRow, w)))" for c n rid
    by (rule both_andthen [OF routing_apart [OF put_sock_apart [OF assms(1)]]]) (auto simp: P_def)
  have a: "both P (andthen (m2_agent dial (put_sock v sd c) sd m buf) (\<lambda>(c, buf, w). ret (c, buf, DVRow, w)))
      (andthen (agent dial (put_sock w sd c) sd m buf) (\<lambda>(c, buf, w). ret (c, buf, DVRow, w)))" if "mtype m \<noteq> SHOW" for c m
    by (rule both_andthen [OF agent_apart [OF put_sock_apart [OF assms(1)] that]]) (auto simp: P_def)
  have z: "P (0, buf, DVRow, put_sock v sd c) (0, buf, DVRow, put_sock w sd c)" for c
    using put_sock_apart [OF assms(1)] by (simp add: P_def)
  have "both P (m2_request_response dial sd buf DVRow v) (request_response dial sd buf DVRow w)"
    unfolding m2_request_response_def request_response_def g Let_def
    apply (rule both_andthen_same)
    apply (rule both_andthen_same)
    subgoal for c x using r a z assms(2) by (cases x) auto
    done
  then show ?thesis by (simp only: P_def)
qed

theorem milestone2_same_protocol_witness:
  "\<exists>v' w'. m2_request_response (\<lambda>a p. None) 9 None (replicate 12 0) fresh_world = ret (1, None, row_bytes [2, 0, 1], v') \<and>
     request_response (\<lambda>a p. None) 9 None (replicate 12 0) fresh_world = ret (1, None, row_bytes [2, 0, 1], w') \<and>
     socks v' = socks w' \<and> DVTable (rs v') = DVTable (rs w')"
proof -
  have "worlds_apart fresh_world fresh_world" using apart_refl [OF fresh_wf] by (simp add: worlds_apart_def)
  moreover have "\<forall>c len m c'. socks fresh_world 9 = Some c \<longrightarrow> rip_msgReceiver c = ret (len, m, c') \<longrightarrow> mtype m \<noteq> SHOW"
    using fresh_header by (auto simp: fresh_facts rip_host_def rip_types)
  ultimately have b: "both (\<lambda>(c, b, R, v') (c', b', R', w'). c = c' \<and> b = b' \<and> R = R' \<and> worlds_apart v' w')
      (m2_request_response (\<lambda>a p. None) 9 None (replicate 12 0) fresh_world) (request_response (\<lambda>a p. None) 9 None (replicate 12 0) fresh_world)"
    by (rule milestone2_same_protocol)
  obtain w' where w': "request_response (\<lambda>a p. None) 9 None (replicate 12 0) fresh_world = ret (1, None, row_bytes [2, 0, 1], w')"
    using fresh_served by blast
  with b obtain v' where "m2_request_response (\<lambda>a p. None) 9 None (replicate 12 0) fresh_world = ret (1, None, row_bytes [2, 0, 1], v')" "worlds_apart v' w'"
    by (cases "m2_request_response (\<lambda>a p. None) 9 None (replicate 12 0) fresh_world" rule: run_cases) auto
  with w' show ?thesis by (auto simp: worlds_apart_def dest: apartD(9))
qed

text \<open>whatever a recomputation of the milestone writes into the routing table has no next hop: \<open>min_DV\<close> returns the loop
  variable, one behind the last router, and its id is -1.\<close>

theorem milestone2_loses_next_hop:
  assumes "router_wf s" "m2_recompute s = ret (ch, s')" "d < nR s" "routing_table s' ! d \<noteq> routing_table s ! d"
  shows "\<exists>e. routing_table s' ! d = Some e \<and> nextHop_RID e = -1"
proof -
  have "both (\<lambda>(ch, t') (ch', s'). ch = ch' \<and> apart t' s' \<and> hops_lost s t') (m2_recompute s) (recompute s)"
    by (rule m2_recompute_same [OF apart_refl [OF assms(1)]])
  then have "hops_lost s s'" by (cases "recompute s" rule: run_cases) (auto simp: assms(2))
  with assms(3,4) router_wfD(8) [OF assms(1)] show ?thesis by (auto simp: hops_lost_def)
qed

theorem milestone2_loses_next_hop_witness:
  "\<exists>s' e. m2_recompute demo = ret (True, s') \<and> routing_table s' ! 2 = Some e \<and> pathCost e = 3 \<and> nextHop_RID e = -1"
proof -
  have v: "andthen (m2_recompute demo) (\<lambda>(ch, t). ret (ch, routing_table t)) =
      ret (True, [None, demo_entry 2 2 2, demo_entry 3 (-1) 3])" by code_simp
  then obtain s' where s': "m2_recompute demo = ret (True, s')" "routing_table s' = [None, demo_entry 2 2 2, demo_entry 3 (-1) 3]"
    by auto
  have "\<exists>e. routing_table s' ! 2 = Some e \<and> nextHop_RID e = -1"
    by (rule milestone2_loses_next_hop [OF demo_wf s'(1)]) (simp_all add: s'(2) demo_defs)
  with s' show ?thesis by (auto simp: demo_entry_def)
qed

text \<open>the milestone prints the destinations before the first one that is not available, such as the router itself, and none
  behind it; the lines come after the text of the previous print.\<close>

theorem milestone2_table_stops:
  assumes "router_wf s" "k < nR s" "rt_available s ! k \<noteq> 1" "\<forall>d < k. rt_available s ! d = 1 \<and> routing_table s ! d \<noteq> None"
    and "length (old @ table_text s [0..<k]) < 100000"
  shows "m2_gen_RTable s old = ret (old @ table_text s [0..<k])"
proof -
  have "[0..<nR s] = [0..<k] @ k # [Suc k..<nR s]"
    using assms(2) by (metis le0 less_imp_le_nat upt_add_eq_append upt_conv_Cons le_add_diff_inverse)
  with m2_gen_RTable_loop_prefix [OF assms(1) _ assms(2,3), of "[0..<k]" "[Suc k..<nR s]" old] assms(2,4,5) show ?thesis
    by (simp add: m2_gen_RTable_def)
qed

theorem milestone2_table_stops_witness:
  "m2_gen_RTable demo ''old'' = ret ''old'' \<and> table_text demo [1, 2] = ''2 2 2 '' @ [CHR 0x0A] @ ''3 3 7 '' @ [CHR 0x0A]"
proof -
  have "m2_gen_RTable demo ''old'' = ret (''old'' @ table_text demo [0..<0])"
    by (rule milestone2_table_stops [OF demo_wf]) (simp_all add: demo_defs table_text_def)
  moreover have "table_text demo [1, 2] = ''2 2 2 '' @ [CHR 0x0A] @ ''3 3 7 '' @ [CHR 0x0A]"
    by (simp add: table_text_def entry_line_def demo_defs show_int_def show_nat.simps digit_def char_of_def bit_0)
  ultimately show ?thesis by (simp add: table_text_def)
qed

text \<open>started from the same files, the milestone has the same links and distances as the final version, but no entry: the
  direct links are not entered.\<close>

theorem milestone2_starts_without_entries:
  assumes "mapRLocation (atoi arg3) loc = ret s0" "router_wf s0"
  shows "both (\<lambda>t s. apart t s \<and> rt_available t = rt_available s0 \<and> routing_table t = routing_table s0)
    (m2_router_start arg3 loc topo) (router_start arg3 loc topo)"
proof -
  have "both apart (m2_mapTopology s0 topo) (mapTopology s0 topo)"
    unfolding m2_mapTopology_def mapTopology_def by (auto split: option.splits intro!: topology_loop_apart apart_refl [OF assms(2)])
  moreover have "m2_mapTopology s0 topo = ret t \<Longrightarrow> rt_available t = rt_available s0 \<and> routing_table t = routing_table s0" for t
    by (auto simp: m2_mapTopology_def dest: m2_topology_marks split: option.splits)
  ultimately show ?thesis
    unfolding m2_router_start_def router_start_def assms(1) andthen_simps by (rule both_left)
qed

theorem milestone2_starts_without_entries_witness:
  "\<exists>t s. m2_router_start ''1'' (Some (location_file repo_locs)) (Some (topology_file (edge_rows [1, 2, 3] repo_edges))) = ret t \<and>
     router_start ''1'' (Some (location_file repo_locs)) (Some (topology_file (edge_rows [1, 2, 3] repo_edges))) = ret s \<and>
     DVTable t = DVTable s \<and> rt_available t = [0, 0, 0] \<and> rt_available s ! 2 = 1"
proof -
  have id: "show_int (repo_locs ! 0 ! 5) = ''1''"
    by (simp add: repo_locs_def show_int_def show_nat.simps digit_def char_of_def bit_0)
  have ids: "map (\<lambda>fs. fs ! 5) repo_locs = [1, 2, 3]" by (simp add: repo_locs_def)
  have a: "atoi ''1'' = repo_locs ! 0 ! 5" by (simp add: atoi_def scan_int_def repo_locs_def isspace_def starts_digit_def digit_val_def)
  obtain s0 where s0: "mapRLocation (atoi ''1'') (Some (location_file repo_locs)) = ret s0" "reading [1, 2, 3] 0 3 s0"
    using mapRLocation_reads [of repo_locs 0] repo_files_ok by (auto simp: files_ok_def a ids repo_length)
  then have wf: "router_wf s0" "rt_available s0 = [0, 0, 0]"
    using reading_started [of "[1, 2, 3]" 0 s0]
    by (auto simp: started_def links_of_def reading_def init_tables_def numeral_eq_Suc)
  obtain s where s: "router_start ''1'' (Some (location_file repo_locs)) (Some (topology_file (edge_rows [1, 2, 3] repo_edges))) = ret s"
    "started repo_cost 3 0 s"
    using configuration_read [OF repo_files_ok, of 0] by (auto simp: id ids repo_length)
  with milestone2_starts_without_entries [OF s0(1) wf(1), of "Some (topology_file (edge_rows [1, 2, 3] repo_edges))"]
  obtain t where "m2_router_start ''1'' (Some (location_file repo_locs)) (Some (topology_file (edge_rows [1, 2, 3] repo_edges))) = ret t"
    "apart t s" "rt_available t = rt_available s0"
    by (cases "m2_router_start ''1'' (Some (location_file repo_locs)) (Some (topology_file (edge_rows [1, 2, 3] repo_edges)))" rule: run_cases) auto
  moreover have "rt_available s ! 2 = 1" using s(2) by (simp add: started_def repo_cost_eq)
  ultimately show ?thesis using s(1) wf(2) apartD(9) [of t s] by (intro exI [of _ t] exI [of _ s] conjI) simp_all
qed

end
