(* ===== verification/RouterCount.thy ===== *)
theory RouterCount
  imports RouterLinks
begin

text \<open>
  Two routers that have lost the rest of the network (\<open>routing\<close>, \<open>recompute\<close> and \<open>min_DV\<close> in \<open>router/router.c\<close>): what they
  tell each other about a destination that neither reaches any more. Each believes the other, adds the cost of their link
  and announces the sum, until \<open>min_DV\<close> gives up at 10000.
\<close>

section \<open>A router with one neighbour\<close>

definition only_link :: "nat \<Rightarrow> int \<Rightarrow> rstate \<Rightarrow> bool" where
  "only_link k v s \<longleftrightarrow> router_wf s \<and> k < nR s \<and> k \<noteq> own s \<and> 1 \<le> v \<and> v < 10000 \<and>
     (\<forall>j < nR s. lc s j = (if j = k then v else -1)) \<and> 0 \<le> numDV s \<and>
     (\<forall>j < nR s. \<forall>d < nR s. -1 \<le> dv s j d \<and> dv s j d < 10000)"

text \<open>What a router makes of a cost it hears over a link of cost \<open>v\<close>.\<close>

definition hears :: "int \<Rightarrow> int \<Rightarrow> int" where
  "hears v x = (if x = -1 \<or> 10000 \<le> v + x then -1 else v + x)"

lemma only_link_best:
  assumes "only_link k v s" "d < nR s"
  shows "snd (best s d) = hears v (dv s k d)"
proof -
  have k: "k < nR s" "k \<noteq> own s" "lc s k = v" "1 \<le> v" using assms(1) by (auto simp: only_link_def)
  have e: "eligible s d j \<longleftrightarrow> j = k \<and> dv s k d \<noteq> -1" for j using assms(1) k by (auto simp: only_link_def eligible_def split: if_splits)
  have v: "via_cost s d k = v + dv s k d" using k(3) by (simp add: via_cost_def)
  have ge: "-1 \<le> dv s k d" using assms k(1) by (auto simp: only_link_def)
  show ?thesis
  proof (rule best_cases [of s d "fst (best s d)" "snd (best s d)"])
    assume n: "snd (best s d) = -1" "\<forall>j. eligible s d j \<longrightarrow> via_cost s d j \<ge> 10000 \<or> (\<exists>i. eligible s d i \<and> via_cost s d i = -1)"
    have "dv s k d = -1 \<or> 10000 \<le> v + dv s k d"
    proof (rule ccontr)
      assume "\<not> ?thesis"
      with n(2) e have "via_cost s d k = -1" by (metis v)
      with v ge k(4) \<open>\<not> ?thesis\<close> show False by simp
    qed
    with n(1) show ?thesis by (simp add: hears_def)
  next
    fix j assume "eligible s d j" "snd (best s d) = via_cost s d j" "snd (best s d) < 10000"
    with e v show ?thesis by (simp add: hears_def)
  qed simp
qed

lemma only_link_serves:
  assumes s: "only_link k v s" and row: "length row = nR s" "\<forall>d < nR s. -1 \<le> row ! d \<and> row ! d < 10000"
    and id: "RID_to_Index s rid = int k" "numDV s < int_max"
  obtains ch s' where "serve_row s (dv_wire row) (4 * numRouter s) rid = ret (row_bytes row, ch, s')" "only_link k v s'"
    "\<And>d. d < nR s \<Longrightarrow> d \<noteq> own s \<Longrightarrow> dv s' (own s) d = hears v (row ! d)"
    "\<And>d. d < nR s \<Longrightarrow> d \<noteq> own s \<Longrightarrow> dv s' (own s) d \<noteq> dv s (own s) d \<Longrightarrow> ch"
    "ownRID s' = ownRID s" "own s' = own s" "nR s' = nR s" "RID_to_Index s' = RID_to_Index s" "numDV s' = numDV s + 1"
proof -
  let ?s1 = "with_row s k row"
  from s have wf: "router_wf s" and k: "k < nR s" "k \<noteq> own s" "1 \<le> v" "v < 10000" and n: "0 \<le> numDV s"
    and lc: "\<And>j. j < nR s \<Longrightarrow> lc s j = (if j = k then v else -1)"
    and dv: "\<And>j d. j < nR s \<Longrightarrow> d < nR s \<Longrightarrow> -1 \<le> dv s j d \<and> dv s j d < 10000" by (auto simp: only_link_def)
  note w = router_wfD [OF wf]
  have wf1: "router_wf ?s1" by (rule with_row_wf [OF wf k(1) row(1)])
  have f: "nR ?s1 = nR s" "own ?s1 = own s" "router_set ?s1 = router_set s" "numDV ?s1 = numDV s + 1" "ownRID ?s1 = ownRID s"
    "numRouter ?s1 = numRouter s" "ownIndex ?s1 = ownIndex s"
    by (simp_all add: with_row_def)
  have D: "DVTable ?s1 ! j = (if j = k then row else DVTable s ! j)" if "j < nR s" for j
    using that k(1) w(6) by (simp add: with_row_def nth_list_update)
  have s1: "only_link k v ?s1" using wf1 k n lc dv row(2) by (simp add: only_link_def f D)
  have "costs_bounded ?s1"
    unfolding costs_bounded_def f
  proof (intro allI impI conjI)
    fix j assume j: "j < nR s"
    show "-1 \<le> lc s j" "lc s j \<le> 1000000000" using lc [OF j] k by (simp_all split: if_splits)
    fix d assume d: "d < nR s"
    have "-1 \<le> dv ?s1 j d \<and> dv ?s1 j d < 10000" using D [OF j] dv [OF j d] row(2) d by simp
    then show "-1 \<le> dv ?s1 j d" "dv ?s1 j d \<le> 1000000000" by simp_all
  qed
  then obtain s' where r: "recompute ?s1 = ret (\<exists>d < nR ?s1. d \<noteq> own ?s1 \<and> snd (best ?s1 d) \<noteq> dv ?s1 (own ?s1) d, s')"
    and c: "recomputed ?s1 {0..<nR ?s1} s'" by (rule recompute_spec [OF wf1])
  then have sl: "same_links ?s1 s'" and wf': "router_wf s'" by (auto simp: recomputed_def)
  note L = same_linksD [OF sl, unfolded f]
  have own': "dv s' (own s) d = (if d \<noteq> own s then hears v (row ! d) else dv s (own s) d)" if "d < nR s" for d
    using recomputed_cost [OF c, of d] only_link_best [OF s1, of d] that k(1,2) w(2) by (simp add: f D)
  have h: "-1 \<le> hears v x \<and> hears v x < 10000" if "-1 \<le> x" for x using that k(3) by (simp add: hears_def)
  have "-1 \<le> dv s' j d \<and> dv s' j d < 10000" if "j < nR s" "d < nR s" for j d
    using that own' h row(2) dv L(7) [of j] by (cases "j = own s") (auto simp: D)
  then have "only_link k v s'" using wf' k n lc by (simp add: only_link_def L)
  moreover have "row_ok row" using row by (force simp: row_ok_def list_all_length)
  then have "serve_row s (dv_wire row) (4 * numRouter s) rid = andthen (recompute ?s1) (\<lambda>(ch, s'). ret (row_bytes row, ch, s'))"
    by (rule serve_row_recomputes [OF wf k(1) row(1) _ id(1) n id(2)])
  then have "serve_row s (dv_wire row) (4 * numRouter s) rid =
      ret (row_bytes row, \<exists>d < nR s. d \<noteq> own s \<and> hears v (row ! d) \<noteq> dv s (own s) d, s')"
    using r only_link_best [OF s1] k(1,2) w(2) by (simp add: f D cong: conj_cong)
  moreover have "RID_to_Index s' = RID_to_Index s" by (intro ext) (simp add: RID_to_Index_def L with_row_def)
  ultimately show thesis
    using that [of "\<exists>d < nR s. d \<noteq> own s \<and> hears v (row ! d) \<noteq> dv s (own s) d" s'] own' L by auto
qed

section \<open>Two routers\<close>

text \<open>The sender's row is served, changes the receiver's row, and so becomes the next row that is sent, the other way.\<close>

inductive bounces :: "nat \<Rightarrow> rstate \<Rightarrow> rstate \<Rightarrow> rstate \<Rightarrow> rstate \<Rightarrow> bool" where
  rest: "bounces 0 s t s t"
| bounce: "serve_row t (dv_wire (DVTable s ! own s)) (4 * numRouter t) (ownRID s) = ret (bs, True, t') \<Longrightarrow>
     bounces n t' s p q \<Longrightarrow> bounces (Suc n) s t p q"

definition pair :: "int \<Rightarrow> rstate \<Rightarrow> rstate \<Rightarrow> bool" where
  "pair v s t \<longleftrightarrow> only_link (own t) v s \<and> only_link (own s) v t \<and> nR s = nR t \<and>
     RID_to_Index s (ownRID t) = int (own t) \<and> RID_to_Index t (ownRID s) = int (own s)"

lemma pair_bounce:
  assumes p: "pair v s t" and d: "d < nR s" "d \<noteq> own t" and n: "numDV t < int_max"
    and ch: "hears v (dv s (own s) d) \<noteq> dv t (own t) d"
  obtains t' bs where "serve_row t (dv_wire (DVTable s ! own s)) (4 * numRouter t) (ownRID s) = ret (bs, True, t')" "pair v t' s"
    "dv t' (own t') d = hears v (dv s (own s) d)" "numDV t' = numDV t + 1" "own t' = own t" "nR t' = nR s"
proof -
  from p have s: "only_link (own t) v s" and t: "only_link (own s) v t" and nR: "nR s = nR t"
    and id: "RID_to_Index s (ownRID t) = int (own t)" "RID_to_Index t (ownRID s) = int (own s)" by (auto simp: pair_def)
  from s have wf: "router_wf s" and dv: "\<forall>d < nR s. -1 \<le> dv s (own s) d \<and> dv s (own s) d < 10000"
    using router_wfD(2) [of s] by (auto simp: only_link_def)
  have l: "length (DVTable s ! own s) = nR t" using router_wfD(2,9) [OF wf] nR by simp
  from only_link_serves [OF t l _ id(2) n] dv nR obtain ch' t' where
    t': "serve_row t (dv_wire (DVTable s ! own s)) (4 * numRouter t) (ownRID s) = ret (row_bytes (DVTable s ! own s), ch', t')"
      "only_link (own s) v t'" "\<And>d. d < nR t \<Longrightarrow> d \<noteq> own t \<Longrightarrow> dv t' (own t) d = hears v (dv s (own s) d)"
      "\<And>d. d < nR t \<Longrightarrow> d \<noteq> own t \<Longrightarrow> dv t' (own t) d \<noteq> dv t (own t) d \<Longrightarrow> ch'"
      "ownRID t' = ownRID t" "own t' = own t" "nR t' = nR t" "RID_to_Index t' = RID_to_Index t" "numDV t' = numDV t + 1" by auto
  have "ch'" using t'(3,4) d ch nR by simp
  moreover have "pair v t' s" using s t'(2,5-8) nR id by (simp add: pair_def)
  ultimately show thesis using that [of "row_bytes (DVTable s ! own s)" t'] t' d nR by simp
qed

text \<open>The sender's cost \<open>x\<close> grew over that of the receiver; \<open>m\<close> is the room that the message counters have.\<close>

definition counting :: "int \<Rightarrow> nat \<Rightarrow> int \<Rightarrow> int \<Rightarrow> rstate \<Rightarrow> rstate \<Rightarrow> bool" where
  "counting v d x m s t \<longleftrightarrow> pair v s t \<and> d < nR s \<and> d \<noteq> own s \<and> d \<noteq> own t \<and> dv s (own s) d = x \<and>
     0 \<le> dv t (own t) d \<and> dv t (own t) d < x \<and> numDV s + m \<le> int_max \<and> numDV t + m \<le> int_max"

lemma countingD:
  assumes "counting v d x m s t"
  shows "pair v s t" "d < nR s" "d \<noteq> own s" "d \<noteq> own t" "dv s (own s) d = x" "0 \<le> dv t (own t) d" "dv t (own t) d < x"
    "numDV s + m \<le> int_max" "numDV t + m \<le> int_max" "1 \<le> v" "nR t = nR s"
proof -
  from assms show p: "pair v s t" and "d < nR s" "d \<noteq> own s" "d \<noteq> own t" "dv s (own s) d = x" "0 \<le> dv t (own t) d" "dv t (own t) d < x"
    "numDV s + m \<le> int_max" "numDV t + m \<le> int_max" unfolding counting_def by blast+
  from p show "1 \<le> v" "nR t = nR s" unfolding pair_def only_link_def by (blast, simp)
qed

lemma counting_step:
  assumes c: "counting v d x (m + 1) s t" and m: "0 \<le> m" and x: "v + x < 10000"
  obtains t' bs where "serve_row t (dv_wire (DVTable s ! own s)) (4 * numRouter t) (ownRID s) = ret (bs, True, t')" "counting v d (v + x) m t' s"
proof -
  note k = countingD [OF c]
  have h: "hears v (dv s (own s) d) = v + x" using k(5-7) x by (simp add: hears_def)
  have n: "numDV t < int_max" "hears v (dv s (own s) d) \<noteq> dv t (own t) d" using k(7,9,10) m h by linarith+
  obtain t' bs where t': "serve_row t (dv_wire (DVTable s ! own s)) (4 * numRouter t) (ownRID s) = ret (bs, True, t')" "pair v t' s"
    "dv t' (own t') d = hears v (dv s (own s) d)" "numDV t' = numDV t + 1" "own t' = own t" "nR t' = nR s"
    by (rule pair_bounce [OF k(1,2,4) n])
  have "dv t' (own t') d = v + x" using t'(3) h by simp
  moreover have "0 \<le> x" "x < v + x" "numDV t' + m \<le> int_max" "numDV s + m \<le> int_max" using k(6-10) t'(4) by linarith+
  moreover have "d < nR t'" "d \<noteq> own t'" using k(2,4) t'(5,6) by simp_all
  ultimately have "counting v d (v + x) m t' s" using t'(2) k(3,5) by (simp add: counting_def)
  with t'(1) show thesis by (rule that)
qed

text \<open>While the sum stays below 10000, every announcement raises the cost by that of the link.\<close>

lemma counting_up:
  assumes "counting v d x (m + int n) s t" "0 \<le> m" "x + int n * v < 10000"
  shows "\<exists>p q. bounces n s t p q \<and> counting v d (x + int n * v) m p q"
  using assms
proof (induction n arbitrary: s t x)
  case 0
  then show ?case by (intro exI [of _ s] exI [of _ t]) (simp add: bounces.rest)
next
  case (Suc n)
  have e: "x + int (Suc n) * v = (v + x) + int n * v" by (simp add: distrib_right)
  have "0 \<le> int n * v" using countingD(10) [OF Suc.prems(1)] by simp
  with Suc.prems(3) e have x: "v + x < 10000" by linarith
  have "counting v d x ((m + int n) + 1) s t" using Suc.prems(1) by (simp add: ac_simps)
  then obtain t' bs where t': "serve_row t (dv_wire (DVTable s ! own s)) (4 * numRouter t) (ownRID s) = ret (bs, True, t')"
    "counting v d (v + x) (m + int n) t' s"
    using Suc.prems(2) by (elim counting_step [OF _ _ x]) auto
  from Suc.IH [OF t'(2) Suc.prems(2)] Suc.prems(3) obtain p q where "bounces n t' s p q" "counting v d ((v + x) + int n * v) m p q"
    unfolding e by blast
  with bounces.bounce [OF t'(1)] show ?case unfolding e by blast
qed

text \<open>Routers 1 and 2 of the repository: both links to router 3 are gone. Router 2 had it at cost 1 and has recomputed from the row of
  router 1, which reaches it at cost 3, over router 2.\<close>

definition lost_1 :: rstate where
  "lost_1 = demo\<lparr>router_set := [demo_link 1 (-1) None, demo_link 2 2 (Some 4), demo_link 3 (-1) (Some 5)],
     DVTable := [[0, 2, 3], [2, 0, 1], [3, 1, 0]]\<rparr>"

definition lost_2 :: rstate where
  "lost_2 = demo\<lparr>ownRID := 2, ownIndex := 1, router_set := [demo_link 1 2 (Some 4), demo_link 2 (-1) None, demo_link 3 (-1) (Some 5)],
     DVTable := [[0, 2, 3], [2, 0, 5], [3, 1, 0]]\<rparr>"

definition linked_2 :: rstate where
  "linked_2 = lost_2\<lparr>router_set := [demo_link 1 2 (Some 4), demo_link 2 (-1) None, demo_link 3 1 (Some 5)],
     DVTable := [[0, 2, 3], [2, 0, 1], [3, 1, 0]]\<rparr>"

lemma lost_only_link: "only_link 0 2 lost_2" "only_link 1 2 lost_1"
  unfolding only_link_def lost_1_def lost_2_def by (simp_all add: router_wf_def demo_defs all_less_3)

lemma lost_counting: "counting 2 2 5 4999 lost_2 lost_1"
proof -
  have "own lost_1 = 0" "own lost_2 = 1" "nR lost_1 = 3" "nR lost_2 = 3" by (simp_all add: lost_1_def lost_2_def demo_defs)
  moreover have "RID_to_Index lost_2 (ownRID lost_1) = 0" "RID_to_Index lost_1 (ownRID lost_2) = 1"
    by (simp_all add: RID_to_Index_def lost_1_def lost_2_def demo_defs)
  ultimately have "pair 2 lost_2 lost_1" using lost_only_link by (simp add: pair_def)
  moreover have "dv lost_2 1 2 = 5" "dv lost_1 0 2 = 3" "numDV lost_1 = 2" "numDV lost_2 = 2"
    by (simp_all add: lost_1_def lost_2_def demo_defs)
  ultimately show ?thesis using \<open>own lost_1 = 0\<close> \<open>own lost_2 = 1\<close> \<open>nR lost_2 = 3\<close> by (simp add: counting_def)
qed

text \<open>C16: a destination that two routers have lost is not given up at once: each serves the other's announcement as if the other still
  reached it, and the cost grows by that of their link with every announcement while it stays below 10000. Only the two
  announcements after that end it: then both rows show no path.\<close>

theorem lost_destination_counts_up:
  assumes "counting v d x (int n + 2) s t" "x + int n * v < 10000" "10000 \<le> x + (int n + 1) * v"
  shows "\<exists>p q. bounces n s t p q \<and> dv p (own p) d = x + int n * v \<and>
     (\<exists>p' q'. bounces 2 p q p' q' \<and> dv p' (own p') d = -1 \<and> dv q' (own q') d = -1)"
proof -
  have "counting v d x (2 + int n) s t" using assms(1) by (simp add: ac_simps)
  from counting_up [OF this _ assms(2)] obtain p q where pq: "bounces n s t p q" "counting v d (x + int n * v) 2 p q" by auto
  note k = countingD [OF pq(2)]
  have "10000 \<le> v + (x + int n * v)" using assms(3) by (simp add: distrib_right)
  then have h: "hears v (dv p (own p) d) = -1" by (simp add: k(5) hears_def)
  have n: "numDV q < int_max" "numDV p < int_max" "hears v (dv p (own p) d) \<noteq> dv q (own q) d" "-1 \<noteq> dv p (own p) d"
    using k(5-9) h by linarith+
  obtain q' bs where q': "serve_row q (dv_wire (DVTable p ! own p)) (4 * numRouter q) (ownRID p) = ret (bs, True, q')" "pair v q' p"
    "dv q' (own q') d = hears v (dv p (own p) d)" "numDV q' = numDV q + 1" "own q' = own q" "nR q' = nR p"
    by (rule pair_bounce [OF k(1,2,4) n(1,3)])
  have h': "hears v (dv q' (own q') d) = -1" using q'(3) h by (simp add: hears_def)
  have d: "d < nR q'" "hears v (dv q' (own q') d) \<noteq> dv p (own p) d" using k(2) q'(6) h' n(4) by simp_all
  obtain p' bs' where p': "serve_row p (dv_wire (DVTable q' ! own q')) (4 * numRouter p) (ownRID q') = ret (bs', True, p')"
    "dv p' (own p') d = hears v (dv q' (own q') d)"
    by (rule pair_bounce [OF q'(2) d(1) k(3) n(2) d(2)])
  have "bounces 2 p q p' q'"
    using bounces.bounce [OF q'(1) bounces.bounce [OF p'(1) bounces.rest]] by (simp add: numeral_2_eq_2)
  moreover have "dv p' (own p') d = -1" "dv q' (own q') d = -1" using p'(2) h' q'(3) h by simp_all
  ultimately show ?thesis using pq(1) k(5) by blast
qed

theorem lost_destination_counts_up_witness:
  "andthen (update_func linked_2 2 3 1000) (\<lambda>s. ret (DVTable s)) = ret (DVTable lost_2) \<and>
   (\<exists>p q. bounces 4997 lost_2 lost_1 p q \<and> dv p (own p) 2 = 9999 \<and>
     (\<exists>p' q'. bounces 2 p q p' q' \<and> dv p' (own p') 2 = -1 \<and> dv q' (own q') 2 = -1))"
proof -
  have "\<exists>p q. bounces 4997 lost_2 lost_1 p q \<and> dv p (own p) 2 = 5 + int 4997 * 2 \<and>
     (\<exists>p' q'. bounces 2 p q p' q' \<and> dv p' (own p') 2 = -1 \<and> dv q' (own q') 2 = -1)"
    by (rule lost_destination_counts_up) (simp_all add: lost_counting)
  moreover have "andthen (update_func linked_2 2 3 1000) (\<lambda>s. ret (DVTable s)) = ret (DVTable lost_2)" by code_simp
  ultimately show ?thesis by simp
qed

end
