(* ===== verification/Fat32.thy ===== *)
theory Fat32
  imports CText
begin

text \<open>
  The reader of a FAT32 device (\<open>FAT32_recovery/recovery.c\<close>): the boot sector, the positions of the file allocation table and of
  the clusters, and the program's arguments. The file does not compile as it stands: \<open>printable_filename\<close> and \<open>search_delete\<close> use
  names that are declared nowhere; what is modelled is the rest. The width of \<open>unsigned long\<close> is the parameter \<open>'l\<close>, 32 or 64 bits,
  as in the data models of the compilers; the fields of the boot sector, the arithmetic and \<open>off_t\<close> depend on it.
\<close>

section \<open>The boot sector\<close>

record (overloaded) 'l BootEntry =
  BS_jmpBoot :: "byte list"
  BS_OEMName :: "byte list"
  BPB_BytsPerSec :: "16 word"
  BPB_SecPerClus :: byte
  BPB_RsvdSecCnt :: "16 word"
  BPB_NumFATs :: byte
  BPB_RootEntCnt :: "16 word"
  BPB_TotSec16 :: "16 word"
  BPB_Media :: byte
  BPB_FATSz16 :: "16 word"
  BPB_SecPerTrk :: "16 word"
  BPB_NumHeads :: "16 word"
  BPB_HiddSec :: "'l word"
  BPB_TotSec32 :: "'l word"
  BPB_FATSz32 :: "'l word"
  BPB_ExtFlags :: "16 word"
  BPB_FSVer :: "16 word"
  BPB_RootClus :: "'l word"
  BPB_FSInfo :: "16 word"
  BPB_BkBootSec :: "16 word"
  BPB_Reserved :: "byte list"
  BS_DrvNum :: byte
  BS_Reserved1 :: byte
  BS_BootSig :: byte
  BS_VolID :: "'l word"
  BS_VolLab :: "byte list"
  BS_FilSysType :: "byte list"

text \<open>Little-endian words of any width.\<close>

definition of_le :: "byte list \<Rightarrow> 'a::len word" where
  "of_le bs = word_rcat (rev bs)"

definition cut :: "nat \<Rightarrow> nat \<Rightarrow> byte list \<Rightarrow> byte list" where
  "cut off n bs = take n (drop off bs)"

abbreviation long_size :: "'l::len itself \<Rightarrow> nat" where
  "long_size t \<equiv> LENGTH('l) div 8"

text \<open>The packed structure in memory: the fields follow each other without gaps.\<close>

definition BootEntry_of :: "byte list \<Rightarrow> 'l::len BootEntry" where
  "BootEntry_of bs = (let L = long_size TYPE('l) in
     \<lparr>BS_jmpBoot = cut 0 3 bs, BS_OEMName = cut 3 8 bs, BPB_BytsPerSec = of_le (cut 11 2 bs), BPB_SecPerClus = of_le (cut 13 1 bs),
      BPB_RsvdSecCnt = of_le (cut 14 2 bs), BPB_NumFATs = of_le (cut 16 1 bs), BPB_RootEntCnt = of_le (cut 17 2 bs),
      BPB_TotSec16 = of_le (cut 19 2 bs), BPB_Media = of_le (cut 21 1 bs), BPB_FATSz16 = of_le (cut 22 2 bs),
      BPB_SecPerTrk = of_le (cut 24 2 bs), BPB_NumHeads = of_le (cut 26 2 bs), BPB_HiddSec = of_le (cut 28 L bs),
      BPB_TotSec32 = of_le (cut (28 + L) L bs), BPB_FATSz32 = of_le (cut (28 + 2 * L) L bs), BPB_ExtFlags = of_le (cut (28 + 3 * L) 2 bs),
      BPB_FSVer = of_le (cut (30 + 3 * L) 2 bs), BPB_RootClus = of_le (cut (32 + 3 * L) L bs), BPB_FSInfo = of_le (cut (32 + 4 * L) 2 bs),
      BPB_BkBootSec = of_le (cut (34 + 4 * L) 2 bs), BPB_Reserved = cut (36 + 4 * L) 12 bs, BS_DrvNum = of_le (cut (48 + 4 * L) 1 bs),
      BS_Reserved1 = of_le (cut (49 + 4 * L) 1 bs), BS_BootSig = of_le (cut (50 + 4 * L) 1 bs), BS_VolID = of_le (cut (51 + 4 * L) L bs),
      BS_VolLab = cut (51 + 5 * L) 11 bs, BS_FilSysType = cut (62 + 5 * L) 8 bs\<rparr>)"

definition BootEntry_size :: "'l::len itself \<Rightarrow> nat" where
  "BootEntry_size t = 70 + 5 * long_size t"

section \<open>The device\<close>

text \<open>What \<open>open\<close> and \<open>read\<close> meet under a name; a null pointer names nothing. The state is the content, the position in it and the
  global \<open>BSI\<close>.\<close>

datatype disk = Readable "byte list" | Unreadable

record (overloaded) 'l fat =
  image :: "byte list"
  pos :: int
  BSI :: "'l BootEntry"

text \<open>A short read leaves the rest of the global, which is zero at the start, as it is.\<close>

definition open_read_BS :: "(string \<Rightarrow> disk option) \<Rightarrow> string option \<Rightarrow> 'l::len fat option" where
  "open_read_BS disks dname =
     (case dname of None \<Rightarrow> None
      | Some nm \<Rightarrow> (case disks nm of
          Some (Readable bs) \<Rightarrow>
            (let n = BootEntry_size TYPE('l); got = take n bs
             in Some \<lparr>image = bs, pos = int (length got), BSI = BootEntry_of (got @ replicate (n - length got) 0)\<rparr>)
        | _ \<Rightarrow> None))"

text \<open>\<open>lseek\<close> leaves the position when the new one would be negative or not fit \<open>off_t\<close>, a \<open>long\<close>.\<close>

definition seek_to :: "'l::len fat \<Rightarrow> int \<Rightarrow> 'l fat" where
  "seek_to f p = (if 0 \<le> p \<and> p < 2 ^ (LENGTH('l) - 1) then f\<lparr>pos := p\<rparr> else f)"

definition seek_by :: "'l::len fat \<Rightarrow> int \<Rightarrow> 'l fat" where
  "seek_by f d = seek_to f (pos f + d)"

text \<open>The product of two \<open>unsigned short\<close>s is an \<open>int\<close>.\<close>

definition locateFAT :: "'l::len fat \<Rightarrow> 'l fat run" where
  "locateFAT f = andthen (cint (uint (BPB_RsvdSecCnt (BSI f)) * uint (BPB_BytsPerSec (BSI f)))) (\<lambda>p. ret (seek_to f p))"

definition isEnd :: "32 word \<Rightarrow> bool" where
  "isEnd index \<longleftrightarrow> 0xFFFFFF8 \<le> index \<and> index \<le> 0xFFFFFFF"

text \<open>\<open>4*index\<close> is computed in \<open>unsigned int\<close> and converted to \<open>off_t\<close>; a short read leaves a variable nobody wrote. The result is
  converted to \<open>int\<close>.\<close>

definition nextClusterIndex :: "'l::len fat \<Rightarrow> 32 word \<Rightarrow> (int \<times> 'l fat) run" where
  "nextClusterIndex f index =
     andthen (locateFAT f) (\<lambda>f.
     let f = seek_by f (sint (ucast (4 * index) :: 'l word)); bs = take 4 (drop (nat (pos f)) (image f))
     in if length bs < 4 then halt Uninitialised
        else ret (sint (of_le bs :: 32 word), f\<lparr>pos := pos f + 4\<rparr>))"

text \<open>The loop \<open>for(i = 2; i < index; i++)\<close>; \<open>i\<close> is an \<open>int\<close>.\<close>

fun skip_clusters :: "nat \<Rightarrow> 'l::len fat \<Rightarrow> 'l fat" where
  "skip_clusters 0 f = f"
| "skip_clusters (Suc n) f = skip_clusters n (seek_by f (uint (BPB_BytsPerSec (BSI f)) * uint (BPB_SecPerClus (BSI f))))"

text \<open>The other products are computed in \<open>unsigned long\<close>.\<close>

definition locateCluster :: "'l::len fat \<Rightarrow> 32 word \<Rightarrow> 'l fat run" where
  "locateCluster f index =
     andthen (locateFAT f) (\<lambda>f.
     let f = seek_to f (sint (ucast (BPB_NumFATs (BSI f)) * BPB_FATSz32 (BSI f) * ucast (BPB_BytsPerSec (BSI f)) :: 'l word));
         f = seek_by f (sint ((BPB_RootClus (BSI f) - 2) * ucast (BPB_SecPerClus (BSI f)) * ucast (BPB_BytsPerSec (BSI f)) :: 'l word))
     in if 2147483647 < uint index then halt Overflow else ret (skip_clusters (unat index - 2) f))"

section \<open>Names\<close>

definition lower :: "char \<Rightarrow> char" where
  "lower c = (let n = of_char c :: nat in if 65 \<le> n \<and> n \<le> 90 then char_of (n + 32) else c)"

text \<open>The first characters are skipped; behind an empty string that is outside of it.\<close>

definition filename_comparison :: "string \<Rightarrow> string \<Rightarrow> bool run" where
  "filename_comparison str1 str2 =
     (if str1 = [] \<or> str2 = [] then halt OutOfBounds
      else ret (length (tl str1) = length (tl str2) \<and> map lower (tl str1) = map lower (tl str2)))"

section \<open>The program\<close>

definition bs_Info :: "'l::len fat \<Rightarrow> string" where
  "bs_Info f =
     ''Number of FATs = '' @ show_int (uint (BPB_NumFATs (BSI f))) @ [CHR 0x0A] @
     ''Number of bytes per sector = '' @ show_int (uint (BPB_BytsPerSec (BSI f))) @ [CHR 0x0A] @
     ''Number of sectors per cluster = '' @ show_int (uint (BPB_SecPerClus (BSI f))) @ [CHR 0x0A] @
     ''Number of reserved sectors = '' @ show_int (uint (BPB_RsvdSecCnt (BSI f))) @ [CHR 0x0A]"

text \<open>The arguments: the device, and the choice when they are valid.\<close>

definition parse_args :: "string list \<Rightarrow> string option \<times> char option" where
  "parse_args argv =
     (if 3 < length argv \<and> length argv < 6 \<and> argv ! 1 = ''-d'' then
        (Some (argv ! 2),
         if length argv = 4 then
           (if argv ! 3 = ''-i'' then Some CHR ''i'' else if argv ! 3 = ''-l'' then Some CHR ''l'' else None)
         else if argv ! 3 = ''-r'' then Some CHR ''r'' else None)
      else (None, None))"

text \<open>The text that the program prints when it does not exit with 1.\<close>

definition fat_main :: "'l::len itself \<Rightarrow> (string \<Rightarrow> disk option) \<Rightarrow> string list \<Rightarrow> string run" where
  "fat_main t disks argv =
     (case parse_args argv of (dev_fname, choice) \<Rightarrow>
       (case open_read_BS disks dev_fname :: 'l fat option of
          None \<Rightarrow> halt (Exit 1)
        | Some f \<Rightarrow> (case choice of None \<Rightarrow> halt (Exit 1)
            | Some c \<Rightarrow> ret (if c = CHR ''i'' then bs_Info f else []))))"

section \<open>Little-endian words\<close>

definition le_value :: "byte list \<Rightarrow> int" where
  "le_value bs = horner_sum uint 256 bs"

lemma le_value_simps [simp]:
  "le_value [] = 0" "le_value (b # bs) = uint b + 256 * le_value bs"
  by (simp_all add: le_value_def)

lemma le_value_append: "le_value (xs @ ys) = le_value xs + 256 ^ length xs * le_value ys"
  by (simp add: le_value_def horner_sum_append)

lemma le_value_bounds: "0 \<le> le_value bs \<and> le_value bs < 256 ^ length bs"
proof (induction bs)
  case (Cons b bs)
  have "0 \<le> uint b" "uint b < 256" using uint_bounded [of b] by simp_all
  with Cons show ?case by simp
qed simp

lemma uint_of_le: "8 * length bs \<le> LENGTH('a::len) \<Longrightarrow> uint (of_le bs :: 'a word) = le_value bs"
proof -
  assume l: "8 * length bs \<le> LENGTH('a)"
  have "(256 :: int) ^ length bs = 2 ^ (8 * length bs)" by (simp add: power_mult)
  also have "\<dots> \<le> 2 ^ LENGTH('a)" using l by simp
  finally have "le_value bs < 2 ^ LENGTH('a)" using le_value_bounds [of bs] by linarith
  moreover have "of_le bs = (word_of_int (le_value bs) :: 'a word)"
    by (simp add: of_le_def word_rcat_def le_value_def)
  ultimately show ?thesis using le_value_bounds [of bs] by (simp only: unsigned_of_int) (simp add: take_bit_int_eq_self)
qed

lemma cut_length: "i + n \<le> length bs \<Longrightarrow> length (cut i n bs) = n"
  by (simp add: cut_def)

lemma cut_split: "cut i (n + m) bs = cut i n bs @ cut (i + n) m bs"
  by (simp add: cut_def take_add drop_drop add.commute [of n i])

lemma cut_Suc: "i < length bs \<Longrightarrow> cut i (Suc n) bs = bs ! i # cut (Suc i) n bs"
  by (simp add: cut_def Cons_nth_drop_Suc [symmetric])

lemma cut_0 [simp]: "cut i 0 bs = []"
  by (simp add: cut_def)

lemma cut_append: "i + n \<le> length bs \<Longrightarrow> cut i n (bs @ cs) = cut i n bs"
  by (simp add: cut_def)

lemma cut_take: "i + n \<le> m \<Longrightarrow> cut i n (take m bs) = cut i n bs"
  by (simp add: cut_def drop_take min_absorb1 flip: take_drop)

section \<open>What the program prints\<close>

definition boot_text :: "int \<Rightarrow> int \<Rightarrow> int \<Rightarrow> int \<Rightarrow> string" where
  "boot_text fats sector cluster reserved =
     ''Number of FATs = '' @ show_int fats @ [CHR 0x0A] @ ''Number of bytes per sector = '' @ show_int sector @ [CHR 0x0A] @
     ''Number of sectors per cluster = '' @ show_int cluster @ [CHR 0x0A] @
     ''Number of reserved sectors = '' @ show_int reserved @ [CHR 0x0A]"

lemma read_field:
  assumes "17 \<le> length bs" "i + n \<le> 17"
  shows "cut i n (take (BootEntry_size t) bs @ replicate k 0) = cut i n bs"
proof -
  have "i + n \<le> BootEntry_size t" using assms(2) by (simp add: BootEntry_size_def)
  with assms show ?thesis by (simp add: cut_append cut_take)
qed

text \<open>C25: on a device whose boot sector is there, \<open>-i\<close> prints the four numbers that the first seventeen bytes hold, whatever the width
  of \<open>unsigned long\<close>.\<close>

theorem info_prints_boot_sector:
  fixes t :: "'l::len itself"
  assumes "disks nm = Some (Readable bs)" "17 \<le> length bs"
  shows "fat_main t disks [prog, ''-d'', nm, ''-i''] =
    ret (boot_text (uint (bs ! 16)) (uint (bs ! 11) + 256 * uint (bs ! 12)) (uint (bs ! 13)) (uint (bs ! 14) + 256 * uint (bs ! 15)))"
proof -
  have b: "cut 16 1 bs = [bs ! 16]" "cut 11 2 bs = [bs ! 11, bs ! 12]" "cut 13 1 bs = [bs ! 13]" "cut 14 2 bs = [bs ! 14, bs ! 15]"
    using assms(2) by (simp_all add: cut_Suc numeral_2_eq_2)
  have "parse_args [prog, ''-d'', nm, ''-i''] = (Some nm, Some CHR ''i'')" by (simp add: parse_args_def)
  then show ?thesis
    using assms read_field [OF assms(2), of 16 1 "TYPE('l)"] read_field [OF assms(2), of 11 2 "TYPE('l)"] read_field [OF assms(2), of 13 1 "TYPE('l)"]
      read_field [OF assms(2), of 14 2 "TYPE('l)"] b
    by (simp add: fat_main_def open_read_BS_def Let_def bs_Info_def BootEntry_of_def boot_text_def uint_of_le)
qed

text \<open>The first bytes of a device with sectors of 512 bytes, clusters of 8 sectors, 32 reserved sectors, 2 tables of 1000 sectors and the
  root directory in cluster 2.\<close>

definition sample_boot :: "byte list" where
  "sample_boot = [0xEB, 0x58, 0x90, 0x6D, 0x6B, 0x64, 0x6F, 0x73, 0x66, 0x73, 0, 0, 2, 8, 32, 0, 2, 0, 0, 0, 0, 0xF8, 0, 0, 32, 0, 64, 0,
     0, 0, 0, 0, 0, 0, 16, 0, 0xE8, 3, 0, 0, 0, 0, 0, 0, 2, 0, 0, 0, 1, 0, 6, 0] @ replicate 460 0"

theorem info_prints_boot_sector_witness:
  "fat_main TYPE(64) [''disk'' \<mapsto> Readable sample_boot] [''recovery'', ''-d'', ''disk'', ''-i''] = ret (boot_text 2 512 8 32)"
  using info_prints_boot_sector [of "[''disk'' \<mapsto> Readable sample_boot]" "''disk''" sample_boot "TYPE(64)" "''recovery''"]
  by (simp add: sample_boot_def)

section \<open>The width of the long fields\<close>

text \<open>the layout of the structure is that of a boot sector when \<open>unsigned long\<close> has 32 bits. With 64 bits the field for the sectors of a
  table starts where the root cluster is stored, and has the two fields behind it in its upper half.\<close>

theorem wide_long_reads_root_cluster:
  assumes "52 \<le> length bs"
  shows "uint (BPB_RootClus (BootEntry_of bs :: 32 BootEntry)) = le_value (cut 44 4 bs)"
    and "uint (BPB_FATSz32 (BootEntry_of bs :: 64 BootEntry)) =
      uint (BPB_RootClus (BootEntry_of bs :: 32 BootEntry)) + 2 ^ 32 * le_value (cut 48 4 bs)"
proof -
  have l: "length (cut 44 4 bs) = 4" "length (cut 48 4 bs) = 4" "length (cut 44 8 bs) = 8" using assms by (simp_all add: cut_length)
  show r: "uint (BPB_RootClus (BootEntry_of bs :: 32 BootEntry)) = le_value (cut 44 4 bs)"
    using l(1) by (simp add: BootEntry_of_def uint_of_le)
  have "le_value (cut 44 8 bs) = le_value (cut 44 4 bs) + 2 ^ 32 * le_value (cut 48 4 bs)"
    using cut_split [of 44 4 4 bs] l(1) by (simp add: le_value_append)
  with r l(3) show "uint (BPB_FATSz32 (BootEntry_of bs :: 64 BootEntry)) =
      uint (BPB_RootClus (BootEntry_of bs :: 32 BootEntry)) + 2 ^ 32 * le_value (cut 48 4 bs)"
    by (simp add: BootEntry_of_def uint_of_le)
qed

section \<open>Positions\<close>

text \<open>Where a cluster starts: behind the reserved sectors and the tables.\<close>

definition fat_start :: "'l::len fat \<Rightarrow> int" where
  "fat_start f = uint (BPB_RsvdSecCnt (BSI f)) * uint (BPB_BytsPerSec (BSI f))"

definition fat_length :: "'l::len fat \<Rightarrow> int" where
  "fat_length f = uint (BPB_NumFATs (BSI f)) * uint (BPB_FATSz32 (BSI f)) * uint (BPB_BytsPerSec (BSI f))"

definition cluster_length :: "'l::len fat \<Rightarrow> int" where
  "cluster_length f = uint (BPB_BytsPerSec (BSI f)) * uint (BPB_SecPerClus (BSI f))"

definition cluster_start :: "'l::len fat \<Rightarrow> int \<Rightarrow> int" where
  "cluster_start f n = fat_start f + fat_length f + (n - 2) * cluster_length f"

lemma seek_BSI [simp]: "BSI (seek_to f p) = BSI f" "BSI (seek_by f p) = BSI f" "image (seek_to f p) = image f" "image (seek_by f p) = image f"
  by (simp_all add: seek_to_def seek_by_def)

lemma seek_to_pos: "0 \<le> p \<Longrightarrow> p < 2 ^ (LENGTH('l) - 1) \<Longrightarrow> seek_to (f :: 'l::len fat) p = f\<lparr>pos := p\<rparr>"
  by (simp add: seek_to_def)

lemma small_fits: "32 \<le> LENGTH('l::len) \<Longrightarrow> p \<le> int_max \<Longrightarrow> p < (2 :: int) ^ (LENGTH('l) - 1)"
proof -
  assume l: "32 \<le> LENGTH('l)" and p: "p \<le> int_max"
  have "(2 :: int) ^ 31 \<le> 2 ^ (LENGTH('l) - 1)" using l by (intro power_increasing) auto
  with p show ?thesis by simp
qed

lemma lengths_nonneg: "0 \<le> fat_start f" "0 \<le> fat_length f" "0 \<le> cluster_length f"
  by (simp_all add: fat_start_def fat_length_def cluster_length_def)

lemma locateFAT_pos:
  assumes "32 \<le> LENGTH('l::len)" "fat_start (f :: 'l fat) \<le> int_max"
  shows "locateFAT f = ret (f\<lparr>pos := fat_start f\<rparr>)"
proof -
  have "cint (fat_start f) = ret (fat_start f)" using assms(2) lengths_nonneg(1) [of f] by (simp add: cint_def)
  then show ?thesis
    using seek_to_pos [OF lengths_nonneg(1) small_fits [OF assms]] by (simp add: locateFAT_def fat_start_def)
qed

lemma sint_small: "uint w < 2 ^ (LENGTH('a) - 1) \<Longrightarrow> sint (w :: 'a::len word) = uint w"
  by (simp add: sint_uint signed_take_bit_int_eq_self order_trans [of _ 0])

lemma sint_at:
  assumes "32 \<le> LENGTH('l::len)" "uint (w :: 'l word) = v" "v \<le> int_max"
  shows "sint w = v"
  using sint_small [of w] small_fits [OF assms(1,3)] assms(2) by simp

lemma uint_wider: "LENGTH('a::len) \<le> LENGTH('l::len) \<Longrightarrow> uint (ucast (w :: 'a word) :: 'l word) = uint w"
  by (simp add: uint_up_ucast is_up)

lemma uint_times: "uint (v :: 'a::len word) * uint w < 2 ^ LENGTH('a) \<Longrightarrow> uint (v * w) = uint v * uint w"
  by (simp add: uint_mult_lem)

lemma uint_minus_2:
  assumes "2 \<le> LENGTH('a)" "2 \<le> uint (w :: 'a::len word)"
  shows "uint (w - 2) = uint w - 2"
proof -
  have "uint (2 :: 'a word) = 2" using assms(1) by (simp add: take_bit_int_eq_self_iff)
  with assms(2) show ?thesis using uint_sub_lem [of 2 w] by simp
qed

lemma product_at:
  assumes l: "32 \<le> LENGTH('l::len)" and v: "uint (u :: 'l word) * uint v * uint w = p" "p \<le> int_max"
  shows "sint (u * v * w) = p"
proof (rule sint_at [OF l _ v(2)])
  have "0 \<le> p" using v(1) by auto
  moreover have "p < 2 ^ LENGTH('l)"
    by (rule less_le_trans [OF small_fits [OF l v(2)]]) (simp add: power_increasing)
  moreover have "uint (u * v * w) = p mod 2 ^ LENGTH('l)"
    by (simp add: uint_word_ariths mod_mult_left_eq flip: v(1))
  ultimately show "uint (u * v * w) = p" by simp
qed

text \<open>The entry of a cluster is four bytes of the first table; the next cluster is what is stored there.\<close>

theorem next_cluster_reads_entry:
  fixes f :: "'l::len fat"
  assumes l: "32 \<le> LENGTH('l)"
      and fits: "fat_start f + 4 * uint index + 4 \<le> int (length (image f))" "fat_start f + 4 * uint index \<le> int_max"
  shows "\<exists>f'. nextClusterIndex f index = ret (sint (of_le (cut (nat (fat_start f + 4 * uint index)) 4 (image f)) :: 32 word), f') \<and>
    image f' = image f \<and> BSI f' = BSI f"
proof -
  have s: "fat_start f \<le> int_max" "4 * uint index \<le> int_max" "4 * uint index < 4294967296"
    using fits(2) lengths_nonneg(1) [of f] uint_ge_0 [of index] by linarith+
  have "uint (4 * index) = 4 * uint index" using s(3) uint_times [of "4 :: 32 word" index] by simp
  then have "sint (ucast (4 * index) :: 'l word) = 4 * uint index"
    by (intro sint_at [OF l _ s(2)]) (simp add: uint_wider l)
  moreover have "seek_by (f\<lparr>pos := fat_start f\<rparr>) (4 * uint index) = f\<lparr>pos := fat_start f + 4 * uint index\<rparr>"
    using fits(2) small_fits [OF l fits(2)] lengths_nonneg(1) [of f] by (simp add: seek_by_def seek_to_pos)
  moreover have "nat (fat_start f + 4 * uint index) + 4 \<le> length (image f)" using fits(1) lengths_nonneg(1) [of f] uint_ge_0 [of index] by linarith
  ultimately show ?thesis
    by (simp add: nextClusterIndex_def locateFAT_pos [OF l s(1)] Let_def cut_def)
qed

lemma cluster_length_pos [simp]: "cluster_length (f\<lparr>pos := p\<rparr>) = cluster_length f"
  by (simp add: cluster_length_def)

lemma skip_clusters_pos:
  assumes "0 \<le> pos f" "pos f + int n * cluster_length f < 2 ^ (LENGTH('l) - 1)"
  shows "skip_clusters n (f :: 'l::len fat) = f\<lparr>pos := pos f + int n * cluster_length f\<rparr>"
  using assms
proof (induction n arbitrary: f)
  case (Suc n)
  let ?c = "cluster_length f" and ?g = "f\<lparr>pos := pos f + cluster_length f\<rparr>"
  have e: "pos f + int (Suc n) * ?c = pos f + ?c + int n * ?c" by (simp add: algebra_simps)
  have b: "0 \<le> pos f + ?c" "0 \<le> int n * ?c" using Suc.prems(1) lengths_nonneg(3) [of f] by simp_all
  have "pos f + ?c < 2 ^ (LENGTH('l) - 1)" using Suc.prems(2) b e by linarith
  then have "seek_by f ?c = ?g" using b by (simp add: seek_by_def seek_to_pos)
  moreover have "cluster_length ?g = ?c" by (simp add: cluster_length_def)
  ultimately show ?case
    using Suc.IH [of ?g] Suc.prems(2) b e by (simp flip: cluster_length_def)
qed simp

text \<open>the second seek is from the start of the device again: a cluster is looked for as if there were no reserved sectors in front of the
  tables. (Also, the root directory is taken to start the data.)\<close>

theorem cluster_position_misses_reserved:
  fixes f :: "'l::len fat"
  assumes l: "32 \<le> LENGTH('l)"
      and n: "2 \<le> uint index" "2 \<le> uint (BPB_RootClus (BSI f))"
      and fits: "fat_start f \<le> int_max"
        "fat_length f + (uint (BPB_RootClus (BSI f)) - 2) * cluster_length f + (uint index - 2) * cluster_length f \<le> int_max" "uint index \<le> int_max"
  shows "\<exists>f'. locateCluster f index = ret f' \<and>
    pos f' = cluster_start f (uint index) - fat_start f + (uint (BPB_RootClus (BSI f)) - 2) * cluster_length f"
proof -
  let ?r = "uint (BPB_RootClus (BSI f)) - 2" and ?c = "cluster_length f"
  have r: "0 \<le> ?r * ?c" "0 \<le> (uint index - 2) * ?c" using n lengths_nonneg(3) [of f] by simp_all
  let ?t = "sint (ucast (BPB_NumFATs (BSI f)) * BPB_FATSz32 (BSI f) * ucast (BPB_BytsPerSec (BSI f)) :: 'l word)"
  let ?d = "sint ((BPB_RootClus (BSI f) - 2) * ucast (BPB_SecPerClus (BSI f)) * ucast (BPB_BytsPerSec (BSI f)) :: 'l word)"
  let ?p = "fat_length f + ?r * ?c"
  have small: "fat_length f \<le> int_max" "?r * ?c \<le> int_max" "?p \<le> int_max" using fits(2) r lengths_nonneg [of f] by linarith+
  have t: "?t = fat_length f"
    using small(1) l by (intro product_at [OF l]) (simp_all add: uint_wider fat_length_def)
  have "uint (BPB_RootClus (BSI f) - 2) = ?r" using n(2) l by (simp add: uint_minus_2)
  then have d: "?d = ?r * ?c"
    using small(2) l by (intro product_at [OF l]) (simp_all add: uint_wider cluster_length_def mult_ac)
  have "seek_by (f\<lparr>pos := fat_length f\<rparr>) ?d = f\<lparr>pos := ?p\<rparr>"
    unfolding d using small_fits [OF l small(3)] r(1) lengths_nonneg(2) [of f] by (simp add: seek_by_def seek_to_pos)
  moreover have "seek_to (f\<lparr>pos := fat_start f\<rparr>) ?t = f\<lparr>pos := fat_length f\<rparr>"
    unfolding t using small_fits [OF l small(1)] lengths_nonneg(2) [of f] by (simp add: seek_to_pos)
  moreover have i: "int (unat index - 2) = uint index - 2" using n(1) by (simp only: uint_nat)
  have "skip_clusters (unat index - 2) (f\<lparr>pos := ?p\<rparr>) = f\<lparr>pos := ?p + (uint index - 2) * ?c\<rparr>"
    using skip_clusters_pos [of "f\<lparr>pos := ?p\<rparr>" "unat index - 2"] small_fits [OF l fits(2)] r(1) lengths_nonneg(2) [of f]
    unfolding i by (simp only: fat.simps cluster_length_pos) simp
  ultimately show ?thesis
    using fits(3) by (simp add: locateCluster_def locateFAT_pos [OF l fits(1)] Let_def cluster_start_def)
qed

definition sample_fat :: "32 fat" where
  "sample_fat = \<lparr>image = sample_boot, pos = 90, BSI = BootEntry_of sample_boot\<rparr>"

lemma boot_fields:
  "uint (BPB_RsvdSecCnt (BSI sample_fat)) = 32" "uint (BPB_BytsPerSec (BSI sample_fat)) = 512" "uint (BPB_NumFATs (BSI sample_fat)) = 2"
  "uint (BPB_FATSz32 (BSI sample_fat)) = 1000" "uint (BPB_SecPerClus (BSI sample_fat)) = 8" "uint (BPB_RootClus (BSI sample_fat)) = 2"
  by (simp_all add: sample_fat_def sample_boot_def BootEntry_of_def uint_of_le cut_def)

lemma boot_lengths: "fat_start sample_fat = 16384" "fat_length sample_fat = 1024000" "cluster_length sample_fat = 4096"
  by (simp_all add: fat_start_def fat_length_def cluster_length_def boot_fields)

theorem cluster_position_misses_reserved_witness:
  "\<exists>f'. locateCluster sample_fat 5 = ret f' \<and> pos f' = 1036288 \<and> cluster_start sample_fat 5 = 1052672"
  using cluster_position_misses_reserved [of 5 sample_fat] by (simp add: boot_fields boot_lengths cluster_start_def)

section \<open>Chains\<close>

text \<open>An entry has 28 bits; the end of a chain is looked for in 32.\<close>

theorem end_needs_upper_bits_clear:
  "isEnd w \<longleftrightarrow> 0xFFFFFF8 \<le> uint w mod 2 ^ 28 \<and> uint w < 2 ^ 28"
  by (auto simp: isEnd_def word_le_def)

end
