(* ===== verification/Pool.thy ===== *)
theory Pool
  imports Prelude
begin

text \<open>
  The accept loop and the client slots that the ftp server, the router and the proxy share (each has
  its own copy of the code: \<open>main\<close> and the end of \<open>client\<close> in \<open>ftp/myftpserver.c\<close>,
  \<open>router/router.c\<close> and \<open>proxy server/myproxy.c\<close>, with \<open>MAX\<close> (here \<open>cap\<close>) 10, 100 and 100). Every critical
  section of the mutex is one step of a transition system; the main thread's position in the loop is
  part of the state.
\<close>

section \<open>State\<close>

datatype main_pc = AtCheck | Waiting | AtAccept | AtScan int | AtStart int

text \<open>\<open>args\<close> holds the client index and the descriptor of a slot; \<open>live\<close> lists the slot that each
  running client thread was given a pointer to; \<open>signalled\<close> is a signal of \<open>full\<close> that the waiting
  main thread has not taken yet.\<close>

record pool =
  available :: "int list"
  m :: int
  ind :: nat
  args :: "(nat \<times> int) option list"
  main_at :: main_pc
  signalled :: bool
  live :: "nat list"

definition pool_init :: "nat \<Rightarrow> pool" where
  "pool_init cap = \<lparr>available = replicate cap 0, m = 0, ind = 0, args = replicate cap None,
     main_at = AtCheck, signalled = False, live = []\<rparr>"

section \<open>Critical sections\<close>

definition pool_check :: "nat \<Rightarrow> pool \<Rightarrow> pool" where
  "pool_check cap p = p\<lparr>main_at := (if m p \<ge> int cap then Waiting else AtAccept)\<rparr>"

fun find_vacancy :: "int list \<Rightarrow> nat \<Rightarrow> nat option" where
  "find_vacancy [] i = None"
| "find_vacancy (a # as) i = (if a = 0 then Some i else find_vacancy as (Suc i))"

definition pool_scan :: "int \<Rightarrow> pool \<Rightarrow> pool" where
  "pool_scan sd p = (case find_vacancy (available p) 0 of
     Some i \<Rightarrow> p\<lparr>ind := i, available := (available p)[i := 1], m := m p + 1, main_at := AtStart sd\<rparr>
   | None \<Rightarrow> p\<lparr>main_at := AtStart sd\<rparr>)"

definition pool_start :: "int \<Rightarrow> pool \<Rightarrow> pool" where
  "pool_start sd p = p\<lparr>available := (available p)[ind p := 1], args := (args p)[ind p := Some (ind p, sd)],
     live := ind p # live p, main_at := AtCheck\<rparr>"

text \<open>The end of a client thread whose argument points to slot \<open>s\<close>. A signal with nobody waiting
  is lost.\<close>

definition pool_leave :: "nat \<Rightarrow> nat \<Rightarrow> pool \<Rightarrow> pool" where
  "pool_leave cap s p =
     (case args p ! s of None \<Rightarrow> p
      | Some (client_index, sd) \<Rightarrow>
         p\<lparr>available := (available p)[client_index := 0],
           signalled := signalled p \<or> (m p \<ge> int cap \<and> main_at p = Waiting),
           m := m p - 1, live := remove1 s (live p)\<rparr>)"

text \<open>The main thread leaves \<open>pthread_cond_wait\<close> when it was signalled; the flag \<open>spurious\<close> says whether it may
  also return without a signal, as POSIX allows. The test of \<open>m\<close> is not repeated.\<close>

inductive pool_step :: "nat \<Rightarrow> bool \<Rightarrow> pool \<Rightarrow> pool \<Rightarrow> bool" for cap spurious where
  check: "main_at p = AtCheck \<Longrightarrow> pool_step cap spurious p (pool_check cap p)"
| wake: "main_at p = Waiting \<Longrightarrow> signalled p \<or> spurious
    \<Longrightarrow> pool_step cap spurious p (p\<lparr>main_at := AtAccept, signalled := False\<rparr>)"
| accept: "main_at p = AtAccept \<Longrightarrow> pool_step cap spurious p (p\<lparr>main_at := AtScan sd\<rparr>)"
| scan: "main_at p = AtScan sd \<Longrightarrow> pool_step cap spurious p (pool_scan sd p)"
| start: "main_at p = AtStart sd \<Longrightarrow> pool_step cap spurious p (pool_start sd p)"
| leave: "s \<in> set (live p) \<Longrightarrow> pool_step cap spurious p (pool_leave cap s p)"

inductive_cases pool_stepE: "pool_step cap spurious p p'"

definition pool_reach :: "nat \<Rightarrow> bool \<Rightarrow> pool \<Rightarrow> bool" where
  "pool_reach cap spurious = (pool_step cap spurious)\<^sup>*\<^sup>* (pool_init cap)"

text \<open>The three servers: the same loop with their own number of slots.\<close>

definition ftp_MAX :: nat where "ftp_MAX = 10"
definition router_MAX :: nat where "router_MAX = 100"
definition proxy_MAX :: nat where "proxy_MAX = 100"

definition ftp_server_reach :: "bool \<Rightarrow> pool \<Rightarrow> bool" where
  "ftp_server_reach spurious = pool_reach ftp_MAX spurious"

definition router_server_reach :: "bool \<Rightarrow> pool \<Rightarrow> bool" where
  "router_server_reach spurious = pool_reach router_MAX spurious"

definition proxy_server_reach :: "bool \<Rightarrow> pool \<Rightarrow> bool" where
  "proxy_server_reach spurious = pool_reach proxy_MAX spurious"

section \<open>The invariant\<close>

text \<open>The slots in use: those of the live threads, and the one claimed for a client whose thread is
  about to be started.\<close>

definition pool_claimed :: "pool \<Rightarrow> nat list" where
  "pool_claimed p = (case main_at p of AtStart sd \<Rightarrow> ind p # live p | _ \<Rightarrow> live p)"

definition pool_ok :: "nat \<Rightarrow> pool \<Rightarrow> bool" where
  "pool_ok cap p \<longleftrightarrow> length (available p) = cap \<and> length (args p) = cap \<and>
     distinct (pool_claimed p) \<and> m p = int (length (pool_claimed p)) \<and>
     (\<forall>i < cap. available p ! i = (if i \<in> set (pool_claimed p) then 1 else 0)) \<and>
     set (pool_claimed p) \<subseteq> {0..<cap} \<and>
     (\<forall>s \<in> set (live p). \<exists>sd. args p ! s = Some (s, sd)) \<and>
     (case main_at p of AtAccept \<Rightarrow> m p < int cap | AtScan sd \<Rightarrow> m p < int cap
        | Waiting \<Rightarrow> signalled p = (m p < int cap) | _ \<Rightarrow> True) \<and>
     (signalled p \<longrightarrow> main_at p = Waiting)"

lemma find_vacancy_cases:
  "(find_vacancy as i = None \<and> (\<forall>k < length as. as ! k \<noteq> 0)) \<or>
   (\<exists>k < length as. find_vacancy as i = Some (i + k) \<and> as ! k = 0 \<and> (\<forall>j < k. as ! j \<noteq> 0))"
proof (induction as arbitrary: i)
  case (Cons a as)
  show ?case
  proof (cases "a = 0")
    case True
    then show ?thesis by (intro disjI2 exI [of _ 0]) simp
  next
    case False
    from Cons.IH [of "Suc i"] show ?thesis
    proof
      assume "\<exists>k < length as. find_vacancy as (Suc i) = Some (Suc i + k) \<and> as ! k = 0 \<and> (\<forall>j < k. as ! j \<noteq> 0)"
      then obtain k where "k < length as" "find_vacancy as (Suc i) = Some (Suc i + k)" "as ! k = 0"
        "\<forall>j < k. as ! j \<noteq> 0" by blast
      with False show ?thesis
        by (intro disjI2 exI [of _ "Suc k"]) (auto simp: less_Suc_eq_0_disj)
    qed (use False in \<open>auto simp: less_Suc_eq_0_disj\<close>)
  qed
qed simp

lemma pool_ok_init: "pool_ok cap (pool_init cap)"
  by (simp add: pool_ok_def pool_init_def pool_claimed_def)

lemma pool_ok_check: "pool_ok cap p \<Longrightarrow> main_at p = AtCheck \<Longrightarrow> pool_ok cap (pool_check cap p)"
  by (auto simp: pool_ok_def pool_check_def pool_claimed_def)

lemma pool_ok_wake:
  "pool_ok cap p \<Longrightarrow> main_at p = Waiting \<Longrightarrow> signalled p
     \<Longrightarrow> pool_ok cap (p\<lparr>main_at := AtAccept, signalled := False\<rparr>)"
  by (simp add: pool_ok_def pool_claimed_def)

lemma pool_ok_accept: "pool_ok cap p \<Longrightarrow> main_at p = AtAccept \<Longrightarrow> pool_ok cap (p\<lparr>main_at := AtScan sd\<rparr>)"
  by (simp add: pool_ok_def pool_claimed_def)

text \<open>Fewer clients than slots leave a slot free.\<close>

lemma pool_vacancy:
  assumes "pool_ok cap p" "m p < int cap"
  obtains k where "find_vacancy (available p) 0 = Some k" "k < cap" "k \<notin> set (pool_claimed p)"
proof -
  have "\<exists>k < cap. k \<notin> set (pool_claimed p)"
  proof (rule ccontr)
    assume "\<not> ?thesis"
    then have "{0..<cap} \<subseteq> set (pool_claimed p)" by auto
    then have "cap \<le> card (set (pool_claimed p))" by (metis card_mono List.finite_set card_atLeastLessThan diff_zero)
    also have "\<dots> = length (pool_claimed p)" using assms(1) by (simp add: pool_ok_def distinct_card)
    finally show False using assms by (simp add: pool_ok_def)
  qed
  then obtain j where j: "j < cap" "available p ! j = 0" "length (available p) = cap"
    using assms(1) by (auto simp: pool_ok_def)
  with find_vacancy_cases [of "available p" 0] obtain k where
    k: "k < cap" "find_vacancy (available p) 0 = Some k" "available p ! k = 0" by auto
  with assms(1) have "k \<notin> set (pool_claimed p)" by (auto simp: pool_ok_def)
  with k that show thesis by blast
qed

lemma pool_ok_scan:
  assumes "pool_ok cap p" "main_at p = AtScan sd"
  shows "pool_ok cap (pool_scan sd p)"
proof -
  have "m p < int cap" using assms by (simp add: pool_ok_def)
  from pool_vacancy [OF assms(1) this] obtain k where
    k: "find_vacancy (available p) 0 = Some k" "k < cap" "k \<notin> set (pool_claimed p)" .
  with assms show ?thesis
    by (auto simp: pool_ok_def pool_scan_def pool_claimed_def nth_list_update)
qed

lemma pool_ok_start:
  assumes "pool_ok cap p" "main_at p = AtStart sd"
  shows "pool_ok cap (pool_start sd p)"
  using assms by (auto simp: pool_ok_def pool_start_def pool_claimed_def nth_list_update)

lemma pool_ok_bound:
  assumes "pool_ok cap p"
  shows "m p \<le> int cap"
proof -
  have "card (set (pool_claimed p)) \<le> card {0..<cap}"
    using assms by (intro card_mono) (auto simp: pool_ok_def)
  then show ?thesis using assms by (simp add: pool_ok_def distinct_card)
qed

lemma pool_ok_leave:
  assumes "pool_ok cap p" "s \<in> set (live p)"
  shows "pool_ok cap (pool_leave cap s p)"
proof -
  obtain sd where sd: "args p ! s = Some (s, sd)" using assms by (auto simp: pool_ok_def)
  let ?p = "p\<lparr>available := (available p)[s := 0],
           signalled := signalled p \<or> (m p \<ge> int cap \<and> main_at p = Waiting),
           m := m p - 1, live := remove1 s (live p)\<rparr>"
  have e: "pool_leave cap s p = ?p" using sd by (simp add: pool_leave_def)
  have d: "distinct (live p)" "ind p \<notin> set (live p) \<or> (\<forall>sd. main_at p \<noteq> AtStart sd)"
    using assms(1) by (auto simp: pool_ok_def pool_claimed_def split: main_pc.splits)
  have c: "pool_claimed ?p = remove1 s (pool_claimed p)"
    using d(2) assms(2) by (auto simp: pool_claimed_def split: main_pc.splits)
  have sc: "s \<in> set (pool_claimed p)" using assms(2) by (auto simp: pool_claimed_def split: main_pc.splits)
  then have len: "length (pool_claimed p) = Suc (length (remove1 s (pool_claimed p)))"
    using length_pos_if_in_set [OF sc] by (simp add: length_remove1)
  have le: "m p \<le> int cap" by (rule pool_ok_bound [OF assms(1)])
  from assms(1) have A: "length (available p) = cap" "length (args p) = cap" "distinct (pool_claimed p)"
    "m p = int (length (pool_claimed p))" "\<forall>i < cap. available p ! i = (if i \<in> set (pool_claimed p) then 1 else 0)"
    "set (pool_claimed p) \<subseteq> {0..<cap}" "\<forall>s \<in> set (live p). \<exists>sd. args p ! s = Some (s, sd)"
    "signalled p \<longrightarrow> main_at p = Waiting"
    "case main_at p of AtAccept \<Rightarrow> m p < int cap | AtScan sd \<Rightarrow> m p < int cap
        | Waiting \<Rightarrow> signalled p = (m p < int cap) | _ \<Rightarrow> True"
    by (simp_all add: pool_ok_def)
  have w: "case main_at ?p of AtAccept \<Rightarrow> m ?p < int cap | AtScan sd \<Rightarrow> m ?p < int cap
        | Waiting \<Rightarrow> signalled ?p = (m ?p < int cap) | _ \<Rightarrow> True"
    using A(9) le by (cases "main_at p") auto
  have a: "\<forall>i < cap. available ?p ! i = (if i \<in> set (pool_claimed ?p) then 1 else 0)"
    using A(1,3,5,6) sc unfolding c by (auto simp: nth_list_update)
  have l: "\<forall>s \<in> set (live ?p). \<exists>sd. args ?p ! s = Some (s, sd)"
    using A(7) by (auto dest: notin_set_remove1 in_set_remove1 set_remove1_subset [THEN subsetD])
  have i: "set (pool_claimed ?p) \<subseteq> {0..<cap}" unfolding c using A(6) set_remove1_subset by fastforce
  have mm: "m ?p = int (length (pool_claimed ?p))" unfolding c using A(4) len by simp
  have "distinct (pool_claimed ?p)" unfolding c using A(3) by simp
  then show ?thesis unfolding e pool_ok_def [of cap ?p]
    using A(1,2,8) mm a i l w by auto
qed

lemma pool_ok_step: "pool_step cap False p p' \<Longrightarrow> pool_ok cap p \<Longrightarrow> pool_ok cap p'"
  by (erule pool_stepE) (auto intro: pool_ok_check pool_ok_wake pool_ok_accept pool_ok_scan pool_ok_start pool_ok_leave)

interpretation slots: invariant_system "pool_step cap False" "pool_ok cap" for cap
  by unfold_locales (rule pool_ok_step)

lemma pool_reach_ok: "pool_reach cap False p \<Longrightarrow> pool_ok cap p"
  unfolding pool_reach_def using slots.reach_inv pool_ok_init by blast

section \<open>Filling the slots\<close>

text \<open>The state after \<open>k\<close> clients have connected and none has left.\<close>

definition pool_filled :: "nat \<Rightarrow> nat \<Rightarrow> pool" where
  "pool_filled cap k = \<lparr>available = replicate k 1 @ replicate (cap - k) 0, m = int k, ind = k - 1,
     args = map (\<lambda>i. Some (i, 0)) [0..<k] @ replicate (cap - k) None, main_at = AtCheck,
     signalled = False, live = rev [0..<k]\<rparr>"

lemma find_vacancy_skip: "find_vacancy (replicate k 1 @ 0 # as) i = Some (i + k)"
  by (induction k arbitrary: i) simp_all

lemma pool_step_reach: "pool_reach cap b p \<Longrightarrow> pool_step cap b p q \<Longrightarrow> pool_reach cap b q"
  unfolding pool_reach_def by (rule rtranclp.rtrancl_into_rtrancl)

text \<open>One round of the accept loop.\<close>

lemma pool_round:
  assumes "pool_reach cap b p" "main_at p = AtCheck" "m p < int cap"
  shows "pool_reach cap b (pool_start sd (pool_scan sd (p\<lparr>main_at := AtScan sd\<rparr>)))"
proof -
  have 1: "pool_reach cap b (p\<lparr>main_at := AtAccept\<rparr>)"
    using pool_step_reach [OF assms(1) pool_step.check [OF assms(2)]] assms(3) by (simp add: pool_check_def)
  have 2: "pool_reach cap b (p\<lparr>main_at := AtScan sd\<rparr>)"
    using pool_step_reach [OF 1 pool_step.accept [where sd = sd]] by simp
  have 3: "pool_reach cap b (pool_scan sd (p\<lparr>main_at := AtScan sd\<rparr>))"
    using pool_step_reach [OF 2 pool_step.scan [where sd = sd]] by simp
  have "main_at (pool_scan sd (p\<lparr>main_at := AtScan sd\<rparr>)) = AtStart sd"
    by (simp add: pool_scan_def split: option.splits)
  from pool_step_reach [OF 3 pool_step.start [OF this]] show ?thesis .
qed

lemma pool_filled_Suc:
  assumes "k < cap"
  shows "pool_start 0 (pool_scan 0 ((pool_filled cap k)\<lparr>main_at := AtScan 0\<rparr>)) = pool_filled cap (Suc k)"
proof -
  have r: "replicate (cap - k) x = x # replicate (cap - Suc k) x" for x :: 'a
    using assms by (metis Suc_diff_Suc replicate_Suc)
  have f: "find_vacancy (replicate k 1 @ replicate (cap - k) 0) 0 = Some k"
    unfolding r using find_vacancy_skip [of k _ 0] by simp
  show ?thesis
    by (simp add: pool_start_def pool_scan_def pool_filled_def f)
      (simp add: r list_update_append replicate_append_same)
qed

lemma pool_filled_reach: "k \<le> cap \<Longrightarrow> pool_reach cap b (pool_filled cap k)"
proof (induction k)
  case 0
  then show ?case by (simp add: pool_filled_def pool_reach_def pool_init_def)
next
  case (Suc k)
  then have "pool_reach cap b (pool_filled cap k)" by simp
  from pool_round [OF this, of 0] Suc.prems show ?case
    using pool_filled_Suc [of k cap] by (simp add: pool_filled_def)
qed

lemma count_list_upt: "x < n \<Longrightarrow> count_list (rev [0..<n]) x = 1"
proof (induction n)
  case (Suc n)
  show ?case
  proof (cases "x = n")
    case True
    have "count_list (rev [0..<n]) n = 0" by (simp add: count_list_0_iff)
    with True show ?thesis by simp
  qed (use Suc in auto)
qed simp

section \<open>Properties\<close>

lemma pool_exclusive:
  assumes "pool_reach cap False p"
  shows "distinct (live p) \<and> length (live p) \<le> cap \<and>
    (\<forall>s \<in> set (live p). s < cap \<and> available p ! s = 1 \<and> (\<exists>sd. args p ! s = Some (s, sd)))"
proof -
  have ok: "pool_ok cap p" by (rule pool_reach_ok [OF assms])
  have c: "distinct (live p)" "set (live p) \<subseteq> set (pool_claimed p)"
    using ok by (auto simp: pool_ok_def pool_claimed_def split: main_pc.splits)
  then have s: "set (live p) \<subseteq> {0..<cap}" using ok by (auto simp: pool_ok_def)
  then have "length (live p) \<le> cap"
    using card_mono [OF _ s] c(1) by (simp add: distinct_card)
  moreover have "s < cap \<and> available p ! s = 1 \<and> (\<exists>sd. args p ! s = Some (s, sd))" if "s \<in> set (live p)" for s
  proof -
    have "s < cap" "s \<in> set (pool_claimed p)" using that c(2) s by auto
    with ok that show ?thesis unfolding pool_ok_def by metis
  qed
  ultimately show ?thesis using c(1) by blast
qed

text \<open>C12: unless \<open>pthread_cond_wait\<close> returns without a signal, every running client thread of the
  ftp server, the router and the proxy has a slot of its own, marked as taken and holding its own
  index, and never more than 10, 100 and 100 clients run.\<close>

theorem pool_slots_exclusive:
  assumes "(cap = ftp_MAX \<and> ftp_server_reach False p) \<or> (cap = router_MAX \<and> router_server_reach False p) \<or>
    (cap = proxy_MAX \<and> proxy_server_reach False p)"
  shows "distinct (live p) \<and> length (live p) \<le> cap \<and>
    (\<forall>s \<in> set (live p). s < cap \<and> available p ! s = 1 \<and> (\<exists>sd. args p ! s = Some (s, sd)))"
  using assms pool_exclusive [of cap p]
  by (auto simp: ftp_server_reach_def router_server_reach_def proxy_server_reach_def)

text \<open>The ftp server with its ten slots taken.\<close>

theorem pool_slots_exclusive_witness:
  "ftp_server_reach False (pool_filled 10 10) \<and> distinct (live (pool_filled 10 10)) \<and> length (live (pool_filled 10 10)) = 10"
proof -
  have r: "ftp_server_reach False (pool_filled 10 10)"
    using pool_filled_reach [of 10 10 False] by (simp add: ftp_server_reach_def ftp_MAX_def)
  have "distinct (live (pool_filled 10 10))"
    by (rule pool_slots_exclusive [of 10, THEN conjunct1]) (use r in \<open>simp add: ftp_MAX_def\<close>)
  with r show ?thesis by (simp add: pool_filled_def)
qed

text \<open>C34: no wake-up is lost. When the main thread waits although a slot is free, a signal for it is
  pending; and a client that leaves while all slots are taken and the main thread waits makes it
  runnable.\<close>

theorem pool_no_lost_wakeup:
  assumes "pool_reach cap False p" "main_at p = Waiting"
  shows "signalled p = (m p < int cap) \<and> (\<forall>s \<in> set (live p). signalled (pool_leave cap s p))"
proof -
  have ok: "pool_ok cap p" by (rule pool_reach_ok [OF assms(1)])
  have "signalled (pool_leave cap s p)" if "s \<in> set (live p)" for s
  proof -
    have "pool_ok cap (pool_leave cap s p)" by (rule pool_ok_leave [OF ok that])
    moreover have "main_at (pool_leave cap s p) = Waiting" "m (pool_leave cap s p) = m p - 1"
      using ok that assms(2) by (auto simp: pool_ok_def pool_leave_def)
    moreover have "m p \<le> int cap"
      using pool_ok_bound [OF ok] .
    ultimately show ?thesis by (simp add: pool_ok_def)
  qed
  then show ?thesis using ok assms(2) by (simp add: pool_ok_def)
qed

lemma pool_full_waits: "pool_reach cap b ((pool_filled cap cap)\<lparr>main_at := Waiting\<rparr>)"
  using pool_step_reach [OF pool_filled_reach [of cap cap b] pool_step.check]
  by (simp add: pool_filled_def pool_check_def)

theorem pool_no_lost_wakeup_witness:
  "signalled (pool_leave 10 3 ((pool_filled 10 10)\<lparr>main_at := Waiting\<rparr>))"
  using pool_no_lost_wakeup [OF pool_full_waits [of 10]] by (simp add: pool_filled_def)

text \<open>when \<open>pthread_cond_wait\<close> does return without a signal, the untested \<open>m\<close> lets the main
  thread go on with all slots taken: it finds no vacancy, uses the \<open>ind\<close> of the last client again, and two
  running threads share one slot, the older one now with the descriptor of the newer.\<close>

theorem pool_spurious_wakeup_shares_slot:
  assumes "0 < cap"
  shows "\<exists>p s. pool_reach cap True p \<and> \<not> distinct (live p) \<and> args p ! s = Some (s, sd) \<and> count_list (live p) s = 2"
proof -
  let ?f = "pool_filled cap cap"
  have 1: "pool_reach cap True (?f\<lparr>main_at := AtAccept\<rparr>)"
    using pool_step_reach [OF pool_full_waits [of cap] pool_step.wake] by (simp add: pool_filled_def)
  have 2: "pool_reach cap True (?f\<lparr>main_at := AtScan sd\<rparr>)"
    using pool_step_reach [OF 1 pool_step.accept [where sd = sd]] by simp
  have 3: "pool_reach cap True (pool_scan sd (?f\<lparr>main_at := AtScan sd\<rparr>))"
    using pool_step_reach [OF 2 pool_step.scan [where sd = sd]] by simp
  have "find_vacancy (replicate n 1) i = None" for n i by (induction n arbitrary: i) simp_all
  then have s: "pool_scan sd (?f\<lparr>main_at := AtScan sd\<rparr>) = ?f\<lparr>main_at := AtStart sd\<rparr>"
    by (simp add: pool_scan_def pool_filled_def)
  have 4: "pool_reach cap True (pool_start sd (?f\<lparr>main_at := AtStart sd\<rparr>))"
    using pool_step_reach [OF 3 pool_step.start [where sd = sd]] s by simp
  have l: "live (pool_start sd (?f\<lparr>main_at := AtStart sd\<rparr>)) = (cap - 1) # rev [0..<cap]"
    by (simp add: pool_start_def pool_filled_def)
  have "count_list (rev [0..<cap]) (cap - 1) = 1"
    using count_list_upt assms by simp
  then have "count_list (live (pool_start sd (?f\<lparr>main_at := AtStart sd\<rparr>))) (cap - 1) = 2" unfolding l by simp
  moreover have "\<not> distinct (live (pool_start sd (?f\<lparr>main_at := AtStart sd\<rparr>)))" using assms unfolding l by simp
  moreover have "args (pool_start sd (?f\<lparr>main_at := AtStart sd\<rparr>)) ! (cap - 1) = Some (cap - 1, sd)"
    using assms by (simp add: pool_start_def pool_filled_def)
  ultimately show ?thesis using 4 by blast
qed

theorem pool_spurious_wakeup_shares_slot_witness:
  "\<exists>p s. pool_reach 10 True p \<and> \<not> distinct (live p) \<and> args p ! s = Some (s, 7) \<and> count_list (live p) s = 2"
  by (rule pool_spurious_wakeup_shares_slot) simp

end
