(* ===== verification/FtpMsg.thy ===== *)
theory FtpMsg
  imports Wire CText
begin

text \<open>
  The protocol header of the ftp programs (\<open>ftp/myftp.h\<close>): the packed 12-byte \<open>message_s\<close>, its
  generation, the checker that both sides use, the directory listing, and the server's four
  functions that move headers and data over a socket (\<open>ftp/myftpserver.c\<close>).
\<close>

section \<open>Message types\<close>

definition unused :: byte where "unused = 85"
definition OPEN_CONN_REQUEST :: byte where "OPEN_CONN_REQUEST = 0xA1"
definition OPEN_CONN_REPLY :: byte where "OPEN_CONN_REPLY = 0xA2"
definition AUTH_REQUEST :: byte where "AUTH_REQUEST = 0xA3"
definition AUTH_REPLY :: byte where "AUTH_REPLY = 0xA4"
definition LIST_REQUEST :: byte where "LIST_REQUEST = 0xA5"
definition LIST_REPLY :: byte where "LIST_REPLY = 0xA6"
definition GET_REQUEST :: byte where "GET_REQUEST = 0xA7"
definition GET_REPLY :: byte where "GET_REPLY = 0xA8"
definition FILE_DATA :: byte where "FILE_DATA = 0xFF"
definition PUT_REQUEST :: byte where "PUT_REQUEST = 0xA9"
definition PUT_REPLY :: byte where "PUT_REPLY = 0xAA"
definition QUIT_REQUEST :: byte where "QUIT_REQUEST = 0xAB"
definition QUIT_REPLY :: byte where "QUIT_REPLY = 0xAC"

lemmas ftp_types = unused_def OPEN_CONN_REQUEST_def OPEN_CONN_REPLY_def AUTH_REQUEST_def AUTH_REPLY_def
  LIST_REQUEST_def LIST_REPLY_def GET_REQUEST_def GET_REPLY_def FILE_DATA_def PUT_REQUEST_def
  PUT_REPLY_def QUIT_REQUEST_def QUIT_REPLY_def

definition ftp_magicNum :: "byte list" where
  "ftp_magicNum = [0xe3, 109, 121, 102, 116, 112]"

section \<open>The header\<close>

text \<open>\<open>ftp_length\<close> is the 32-bit word in memory.\<close>

record ftp_message =
  ftp_protocol :: "byte list"
  ftp_type :: byte
  ftp_status :: byte
  ftp_length :: "32 word"

definition ftp_bytes :: "ftp_message \<Rightarrow> byte list" where
  "ftp_bytes m = ftp_protocol m @ [ftp_type m, ftp_status m] @ le32 (ftp_length m)"

definition ftp_of_bytes :: "byte list \<Rightarrow> ftp_message" where
  "ftp_of_bytes bs = \<lparr>ftp_protocol = take 6 bs, ftp_type = bs ! 6, ftp_status = bs ! 7,
     ftp_length = of_le32 (take 4 (drop 8 bs))\<rparr>"

definition ftp_wf :: "ftp_message \<Rightarrow> bool" where
  "ftp_wf m \<longleftrightarrow> length (ftp_protocol m) = 6"

lemma length_ftp_bytes [wire_simps]: "ftp_wf m \<Longrightarrow> length (ftp_bytes m) = 12"
  by (simp add: ftp_bytes_def ftp_wf_def)

lemma ftp_of_bytes_inverse [wire_simps]: "ftp_wf m \<Longrightarrow> ftp_of_bytes (ftp_bytes m) = m"
  by (simp add: ftp_bytes_def ftp_of_bytes_def ftp_wf_def nth_append)

interpretation ftp_codec: wire_codec ftp_bytes ftp_of_bytes 12 ftp_wf
  by unfold_locales (simp_all add: wire_simps)

definition ftp_msgGeneration :: "byte \<Rightarrow> byte \<Rightarrow> int \<Rightarrow> ftp_message run" where
  "ftp_msgGeneration type status size_payload =
     andthen (cint (12 + size_payload)) (\<lambda>n.
     ret \<lparr>ftp_protocol = [0xe3, 109, 121, 102, 116, 112], ftp_type = type, ftp_status = status,
          ftp_length = htonl (word_of_int n)\<rparr>)"

definition ftp_msgChecker :: "ftp_message \<Rightarrow> byte \<Rightarrow> byte \<Rightarrow> int \<Rightarrow> int" where
  "ftp_msgChecker item type status len =
     (if ftp_protocol item = ftp_magicNum \<and> len = 12 then
        (if ftp_type item = type then
           (if status \<noteq> unused then (if ftp_status item = status then 0 else 3) else 0)
         else 2)
      else 1)"

section \<open>Headers and data on a socket\<close>

definition ftp_msgReceiver :: "conn \<Rightarrow> (int \<times> ftp_message \<times> conn) run" where
  "ftp_msgReceiver c = (case recv_struct conn_recv 12 c of (len, bs, c') \<Rightarrow>
     if len < 0 then halt (Exit 0)
     else (let m = ftp_of_bytes bs in ret (len, m\<lparr>ftp_length := ntohl (ftp_length m)\<rparr>, c')))"

definition ftp_msgSender :: "ftp_message \<Rightarrow> conn \<Rightarrow> (int \<times> conn) run" where
  "ftp_msgSender m c = (case conn_send (ftp_bytes m) c of (len, c', e) \<Rightarrow>
     if len < 0 then halt (Exit 0) else ret (len, c'))"

text \<open>\<open>memset(buf,0,sizeof(buf))\<close> clears the eight bytes of a pointer.\<close>

definition ftp_dataReceiver :: "int \<Rightarrow> byte list \<Rightarrow> conn \<Rightarrow> (nat \<times> byte list \<times> conn) run" where
  "ftp_dataReceiver sz buf c =
     andthen (blit buf 0 (replicate 8 0)) (\<lambda>buf.
     andthen (recv_loop conn_recv sz 0 0 buf c) (\<lambda>(recvlength, len, buf, c). ret (recvlength, buf, c)))"

definition ftp_dataSender :: "int \<Rightarrow> byte list \<Rightarrow> conn \<Rightarrow> (nat \<times> conn) run" where
  "ftp_dataSender sz buf c =
     andthen (send_loop conn_send sz 0 0 buf c) (\<lambda>(sentlength, len, c). ret (sentlength, c))"

section \<open>The directory listing\<close>

text \<open>
  \<open>readDir\<close> allocates 512 pointers; the callers look for the terminating \<open>NULL\<close>. Without the macro
  \<open>Linux\<close> (which no compiler predefines) the loop stops at the first successful \<open>readdir_r\<close>, before
  anything is stored. With it, the names come in the order of the directory.
\<close>

definition readDir :: "bool \<Rightarrow> byte list list option \<Rightarrow> byte list list run" where
  "readDir Linux dir =
     (case dir of None \<Rightarrow> ret []
      | Some names \<Rightarrow>
         if \<not> Linux then ret []
         else if length names < 512 then ret names else halt OutOfBounds)"

section \<open>Lemmas\<close>

text \<open>A generated header as its receiver sees it.\<close>

definition ftp_host :: "byte \<Rightarrow> byte \<Rightarrow> int \<Rightarrow> ftp_message" where
  "ftp_host t st n = \<lparr>ftp_protocol = ftp_magicNum, ftp_type = t, ftp_status = st,
     ftp_length = word_of_int (12 + n)\<rparr>"

definition ftp_wire :: "byte \<Rightarrow> byte \<Rightarrow> int \<Rightarrow> byte list" where
  "ftp_wire t st n = ftp_bytes \<lparr>ftp_protocol = [0xe3, 109, 121, 102, 116, 112], ftp_type = t,
     ftp_status = st, ftp_length = htonl (word_of_int (12 + n))\<rparr>"

lemma ftp_host_fields [simp]:
  "ftp_protocol (ftp_host t st n) = ftp_magicNum" "ftp_type (ftp_host t st n) = t"
  "ftp_status (ftp_host t st n) = st" "ftp_length (ftp_host t st n) = word_of_int (12 + n)"
  by (simp_all add: ftp_host_def)

lemma ftp_host_payload:
  "0 \<le> n \<Longrightarrow> 12 + n \<le> int_max \<Longrightarrow> sint (ftp_length (ftp_host t st n)) - 12 = n"
  using sint_word_of_int [of "12 + n"] by (simp only: ftp_host_fields)

lemma length_ftp_wire [simp]: "length (ftp_wire t st n) = 12"
  by (simp add: ftp_wire_def ftp_bytes_def)

lemma ftp_msgGeneration_ret:
  "0 \<le> n \<Longrightarrow> 12 + n \<le> int_max \<Longrightarrow> ftp_msgGeneration t st n =
     ret \<lparr>ftp_protocol = [0xe3, 109, 121, 102, 116, 112], ftp_type = t, ftp_status = st,
          ftp_length = htonl (word_of_int (12 + n))\<rparr>"
  by (simp add: ftp_msgGeneration_def)

lemma ftp_msgReceiver_wire:
  assumes "rxq c = RxData (ftp_wire t st n @ rest) # q"
  shows "ftp_msgReceiver c = ret (12, ftp_host t st n,
    c\<lparr>rxq := (if rest = [] then q else RxData rest # q)\<rparr>)"
proof -
  let ?m = "\<lparr>ftp_protocol = [0xe3, 109, 121, 102, 116, 112], ftp_type = t, ftp_status = st,
     ftp_length = htonl (word_of_int (12 + n))\<rparr>"
  have "ftp_wf ?m" by (simp add: ftp_wf_def)
  from ftp_codec.recv_whole [OF this assms [unfolded ftp_wire_def]] obtain bs where
    "recv_struct conn_recv 12 c = (12, bs, c\<lparr>rxq := (if rest = [] then q else RxData rest # q)\<rparr>)"
    "ftp_of_bytes bs = ?m" by auto
  then show ?thesis
    by (simp add: ftp_msgReceiver_def Let_def ftp_host_def ftp_magicNum_def)
qed

lemma ftp_msgReceiver_eof: "rxq c = [] \<Longrightarrow> \<exists>m. ftp_msgReceiver c = ret (0, m, c)"
  by (simp add: ftp_msgReceiver_def recv_struct_conn_eof Let_def)

lemma ftp_msgChecker_host:
  "ftp_msgChecker (ftp_host t st n) t' st' 12 =
     (if t = t' then if st' \<noteq> unused then if st = st' then 0 else 3 else 0 else 2)"
  by (simp add: ftp_msgChecker_def)

lemma ftp_dataReceiver_total:
  assumes "healthy c" and "sz \<le> length (pending c)" and "sz \<le> length buf" and "8 \<le> length buf"
  shows "\<exists>c'. ftp_dataReceiver (int sz) buf c =
            ret (sz, take sz (pending c) @ drop sz (replicate 8 0 @ drop 8 buf), c') \<and>
            pending c' = drop sz (pending c) \<and> healthy c' \<and> txq c' = txq c \<and> sent c' = sent c"
proof -
  let ?b = "replicate 8 0 @ drop 8 buf"
  have b: "blit buf 0 (replicate 8 0) = ret ?b" using assms(4) by (simp add: blit_def)
  have "sz \<le> length ?b" using assms(3,4) by simp
  with tcp_frame.recv_loop_total [of "txq c" "sent c" c sz 0 ?b 0] assms(1,2) b show ?thesis
    by (auto simp: ftp_dataReceiver_def receiving_def)
qed

text \<open>Receiving exactly the bytes before the segments \<open>q\<close>, or some of them.\<close>

lemma ftp_dataReceiver_part:
  assumes "before q t b c" and "sz \<le> length (pending_before q c)" and "sz \<le> length buf" and "8 \<le> length buf"
  shows "\<exists>c'. ftp_dataReceiver (int sz) buf c =
            ret (sz, take sz (pending_before q c) @ drop sz (replicate 8 0 @ drop 8 buf), c') \<and>
            pending_before q c' = drop sz (pending_before q c) \<and> before q t b c'"
proof -
  let ?b = "replicate 8 0 @ drop 8 buf"
  have b: "blit buf 0 (replicate 8 0) = ret ?b" using assms(4) by (simp add: blit_def)
  have "sz \<le> length ?b" using assms(3,4) by simp
  with tcp_part.recv_loop_total [OF assms(1), of sz 0 ?b 0] assms(2) b show ?thesis
    by (auto simp: ftp_dataReceiver_def)
qed

lemma ftp_dataReceiver_exact:
  assumes "rxq c = p @ q" "data_segs p" "rx_bytes p = bs" "length bs \<le> length buf" "8 \<le> length buf"
  shows "ftp_dataReceiver (int (length bs)) buf c =
    ret (length bs, bs @ drop (length bs) (replicate 8 0 @ drop 8 buf), c\<lparr>rxq := q\<rparr>)"
proof -
  have b: "before q (txq c) (sent c) c" "pending_before q c = bs"
    using assms by (auto simp: before_def pending_before_def)
  from ftp_dataReceiver_part [OF b(1) _ assms(4,5)] b(2) obtain c' where
    c': "ftp_dataReceiver (int (length bs)) buf c = ret (length bs, bs @ drop (length bs) (replicate 8 0 @ drop 8 buf), c')"
    "pending_before q c' = []" "before q (txq c) (sent c) c'" by auto
  have "c' = c\<lparr>rxq := q\<rparr>" using before_done [OF c'(3,2)] by simp
  with c'(1) show ?thesis by simp
qed

lemma ftp_dataSender_all:
  assumes "txq c = []" "n \<le> length bs"
  shows "ftp_dataSender (int n) bs c = ret (n, c\<lparr>sent := sent c @ take n bs\<rparr>)"
proof (cases "n = 0")
  case False
  with assms show ?thesis by (simp add: ftp_dataSender_def send_loop.simps slice_def conn_send_def)
qed (simp add: ftp_dataSender_def send_loop.simps)

end
