(* ===== verification/FtpClient.thy ===== *)
theory FtpClient
  imports FtpMsg
begin

text \<open>
  The ftp client (\<open>ftp/myftpclient.c\<close>): its state machine, the commands typed at its prompt and
  their exchanges with the server. The client uses one \<open>recv\<close> for a header and its own loops for
  data, which return the length of the last piece.
\<close>

section \<open>State\<close>

datatype STATES = IDLE | IS_OPEN | IS_AUTH | IS_MAIN | IS_LS | IS_PUT | IS_GET

text \<open>The global socket is \<open>None\<close> until \<open>connect\<close> has succeeded once. The local files are kept by path,
  with the paths that \<open>open\<close> lets the client write.\<close>

record ftp_local =
  state :: STATES
  fd :: "conn option"
  local_files :: "byte list \<Rightarrow> byte list option"
  local_writable :: "byte list \<Rightarrow> bool"

type_synonym ftp_dial = "32 word \<Rightarrow> 16 word \<Rightarrow> conn option"

definition cl_conn :: "ftp_local \<Rightarrow> conn run" where
  "cl_conn s = (case fd s of None \<Rightarrow> halt (Exit 0) | Some c \<Rightarrow> ret c)"

text \<open>One call of \<open>send\<close>, its length unchecked but for errors.\<close>

definition cl_send :: "byte list \<Rightarrow> ftp_local \<Rightarrow> ftp_local run" where
  "cl_send bs s = andthen (cl_conn s) (\<lambda>c. case conn_send bs c of (len, c', e) \<Rightarrow>
     if len < 0 then halt (Exit 0) else ret (s\<lparr>fd := Some c'\<rparr>))"

definition cl_send_header :: "byte \<Rightarrow> int \<Rightarrow> ftp_local \<Rightarrow> ftp_local run" where
  "cl_send_header t n s = andthen (ftp_msgGeneration t unused n) (\<lambda>m. cl_send (ftp_bytes m) s)"

text \<open>One call of \<open>recv\<close> for a header. The length field is turned into host order where the caller
  uses it.\<close>

definition cl_recv_header :: "ftp_local \<Rightarrow> (int \<times> ftp_message \<times> ftp_local) run" where
  "cl_recv_header s = andthen (cl_conn s) (\<lambda>c. case recv_struct conn_recv 12 c of (len, bs, c') \<Rightarrow>
     if len < 0 then halt (Exit 0) else ret (len, ftp_of_bytes bs, s\<lparr>fd := Some c'\<rparr>))"

definition host_length :: "ftp_message \<Rightarrow> int run" where
  "host_length m = cint (sint (ntohl (ftp_length m)) - 12)"

section \<open>Data\<close>

text \<open>\<open>memset(buf,0,size+12)\<close> clears the buffer, which was allocated with that length.\<close>

definition cl_dataReceiver :: "int \<Rightarrow> byte list \<Rightarrow> conn \<Rightarrow> (int \<times> byte list \<times> conn) run" where
  "cl_dataReceiver sz buf c =
     (if sz + 12 < 0 then halt OutOfBounds
      else andthen (blit buf 0 (replicate (nat (sz + 12)) 0)) (\<lambda>buf.
           andthen (recv_loop conn_recv sz 0 0 buf c) (\<lambda>(got, leng, buf, c). ret (leng, buf, c))))"

text \<open>Reading a whole file of \<open>size\<close> bytes into a buffer of that size, after clearing the eight bytes
  of a pointer at its start.\<close>

definition cl_data_out :: "byte list \<Rightarrow> byte list \<Rightarrow> byte list run" where
  "cl_data_out file buf = andthen (blit buf 0 (replicate 8 0)) (\<lambda>buf. blit buf 0 file)"

section \<open>Commands\<close>

text \<open>\<open>inet_addr\<close> and \<open>connect\<close> decide; a refused connection leaves the client idle.\<close>

definition open_conn :: "ftp_dial \<Rightarrow> string list \<Rightarrow> ftp_local \<Rightarrow> ftp_local run" where
  "open_conn dial token s =
     (if inet_addr (token ! 1) = -1 then halt (Exit 1)
      else (case dial (inet_addr (token ! 1)) (word_of_int (atoi (token ! 2))) of
        None \<Rightarrow> ret (s\<lparr>state := IDLE\<rparr>)
      | Some c \<Rightarrow>
          andthen (cl_send_header OPEN_CONN_REQUEST 0 (s\<lparr>fd := Some c\<rparr>)) (\<lambda>s.
          andthen (cl_recv_header s) (\<lambda>(len, m, s).
          if ftp_msgChecker m OPEN_CONN_REPLY 1 len = 0 then ret (s\<lparr>state := IS_AUTH\<rparr>)
          else ret (s\<lparr>state := IDLE\<rparr>)))))"

definition auth_conn :: "string list \<Rightarrow> ftp_local \<Rightarrow> ftp_local run" where
  "auth_conn token s =
     andthen (cl_send_header AUTH_REQUEST (int (length (token ! 1)) + int (length (token ! 2)) + 2) s) (\<lambda>s.
     andthen (cl_send (str_bytes (token ! 1)) s) (\<lambda>s.
     andthen (cl_send (str_bytes '' '') s) (\<lambda>s.
     andthen (cl_send (str_bytes (token ! 2)) s) (\<lambda>s.
     andthen (cl_send [0] s) (\<lambda>s.
     andthen (cl_recv_header s) (\<lambda>(len, m, s).
     if ftp_msgChecker m AUTH_REPLY 1 len = 0 then ret (s\<lparr>state := IS_MAIN\<rparr>)
     else ret (s\<lparr>state := IDLE\<rparr>)))))))"

text \<open>The listing printed, if any. The buffer has the length of the message, header included.\<close>

definition list_file :: "ftp_local \<Rightarrow> (byte list option \<times> ftp_local) run" where
  "list_file s =
     andthen (cl_send_header LIST_REQUEST 0 s) (\<lambda>s.
     andthen (cl_recv_header s) (\<lambda>(len, m, s).
     andthen (host_length m) (\<lambda>n.
     if ftp_msgChecker m LIST_REPLY unused len = 0 then
       andthen (cl_conn s) (\<lambda>c.
       andthen (cl_dataReceiver n (replicate (nat (n + 12)) 0) c) (\<lambda>(len, buf, c).
       if len \<noteq> n then ret (None, s\<lparr>fd := Some c\<rparr>)
       else ret (Some (cstr buf), s\<lparr>fd := Some c\<rparr>)))
     else ret (None, s))))"

text \<open>The local copy is emptied before the data comes; it is written when the last piece received
  has the length of the whole.\<close>

definition local_path :: "string \<Rightarrow> byte list" where
  "local_path name = str_bytes (''filedir/'' @ name)"

definition download :: "string \<Rightarrow> ftp_local \<Rightarrow> ftp_local run" where
  "download name s =
     andthen (cl_send_header GET_REQUEST (int (length name) + 1) s) (\<lambda>s.
     andthen (cl_send (str_bytes name) s) (\<lambda>s.
     andthen (cl_send [0] s) (\<lambda>s.
     andthen (cl_recv_header s) (\<lambda>(len, m, s).
     if ftp_msgChecker m GET_REPLY 1 len = 0 then
       andthen (cl_recv_header s) (\<lambda>(len, m, s).
       andthen (host_length m) (\<lambda>n.
       if ftp_msgChecker m FILE_DATA unused len = 0 then
         (if length name + 8 \<ge> 256 then halt OutOfBounds
          else if local_writable s (local_path name) then
            (let s = s\<lparr>local_files := (local_files s)(local_path name \<mapsto> [])\<rparr> in
             andthen (cl_conn s) (\<lambda>c.
             andthen (cl_dataReceiver n (replicate (nat (n + 12)) 0) c) (\<lambda>(len, buf, c).
             if len \<noteq> n then ret (s\<lparr>fd := Some c\<rparr>)
             else ret (s\<lparr>fd := Some c, local_files := (local_files s)(local_path name \<mapsto> take (nat n) buf)\<rparr>))))
          else ret s)
       else ret s))
     else ret s))))"

definition upload :: "string \<Rightarrow> ftp_local \<Rightarrow> ftp_local run" where
  "upload name s =
     (case local_files s (str_bytes name) of None \<Rightarrow> ret s
      | Some file \<Rightarrow>
        andthen (cl_send_header PUT_REQUEST (int (length name) + 1) s) (\<lambda>s.
        andthen (cl_send (str_bytes name) s) (\<lambda>s.
        andthen (cl_send [0] s) (\<lambda>s.
        andthen (cl_recv_header s) (\<lambda>(len, m, s).
        if ftp_msgChecker m PUT_REPLY unused len = 0 then
          andthen (cl_send_header FILE_DATA (int (length file)) s) (\<lambda>s.
          andthen (cl_data_out file (replicate (length file) 0)) (\<lambda>up_buf.
          andthen (cl_conn s) (\<lambda>c.
          andthen (send_loop conn_send (int (length file)) 0 0 up_buf c) (\<lambda>(gone, len, c).
          ret (s\<lparr>fd := Some c\<rparr>)))))
        else ret s)))))"

definition quit :: "ftp_local \<Rightarrow> ftp_local run" where
  "quit s =
     andthen (cl_send_header QUIT_REQUEST 0 s) (\<lambda>s.
     andthen (cl_recv_header s) (\<lambda>(len, m, s).
     if ftp_msgChecker m QUIT_REPLY unused len = 0 then halt (Exit 0) else ret s))"

section \<open>The state machine\<close>

text \<open>One round of the loop in \<open>fsm_control\<close> with at least one token: the new state, and whether the
  loop goes on. In a state without a case nothing happens and the loop goes on.\<close>

definition fsm_round :: "ftp_dial \<Rightarrow> string list \<Rightarrow> ftp_local \<Rightarrow> (bool \<times> ftp_local) run" where
  "fsm_round dial token s =
     (case state s of
        IDLE \<Rightarrow> if token ! 0 = ''open'' \<and> length token = 3 then ret (True, s\<lparr>state := IS_OPEN\<rparr>)
                else ret (False, s\<lparr>state := IDLE\<rparr>)
      | IS_OPEN \<Rightarrow> andthen (open_conn dial token s) (\<lambda>s. ret (False, s))
      | IS_AUTH \<Rightarrow> if token ! 0 = ''auth'' \<and> length token = 3 then andthen (auth_conn token s) (\<lambda>s. ret (True, s))
                   else ret (False, s)
      | IS_MAIN \<Rightarrow>
          if token ! 0 = ''ls'' \<and> length token = 1 then andthen (list_file s) (\<lambda>(shown, s). ret (False, s))
          else if token ! 0 = ''get'' \<and> length token = 2 then andthen (download (token ! 1) s) (\<lambda>s. ret (False, s))
          else if token ! 0 = ''put'' \<and> length token = 2 then andthen (upload (token ! 1) s) (\<lambda>s. ret (False, s))
          else if token ! 0 = ''quit'' \<and> length token = 1 then andthen (quit s) (\<lambda>s. ret (False, s))
          else ret (False, s)
      | _ \<Rightarrow> ret (True, s))"

partial_function (option) fsm_loop :: "ftp_dial \<Rightarrow> string list \<Rightarrow> ftp_local \<Rightarrow> ftp_local run" where
  "fsm_loop dial token s = (case fsm_round dial token s of None \<Rightarrow> None
     | Some r \<Rightarrow> (case r of Inl f \<Rightarrow> halt f
         | Inr (loop, s) \<Rightarrow> if loop then fsm_loop dial token s else ret s))"

text \<open>Without a token \<open>token[0]\<close> is \<open>NULL\<close>, which only the idle state looks at before \<open>strcmp\<close> does.\<close>

definition fsm_control :: "ftp_dial \<Rightarrow> string list \<Rightarrow> ftp_local \<Rightarrow> ftp_local run" where
  "fsm_control dial token s =
     (if token = [] \<and> state s = IDLE then ret s
      else if token = [] then halt NullDeref
      else if token ! 0 = ''exit'' \<and> length token = 1 then halt (Exit 1)
      else fsm_loop dial token s)"

text \<open>\<open>strtok(input, " ")\<close>: the runs of characters that are not spaces.\<close>

definition getToken :: "string \<Rightarrow> string list" where
  "getToken input = space_tokens [] input"

text \<open>One line at the prompt; \<open>gets\<close> fills an array of 255 characters.\<close>

definition client_line :: "ftp_dial \<Rightarrow> string \<Rightarrow> ftp_local \<Rightarrow> ftp_local run" where
  "client_line dial input s =
     (if length input < 255 then fsm_control dial (getToken input) s else halt OutOfBounds)"

end
