(* ===== verification/FtpServer.thy ===== *)
theory FtpServer
  imports FtpMsg
begin

text \<open>
  The ftp server's client thread (\<open>ftp/myftpserver.c\<close>): connection, authentication against
  \<open>access.txt\<close>, and the list, download and upload services. The thread's socket, its 1000-byte
  buffer and its position in \<open>access.txt\<close> are its state, next to the files of the server.
\<close>

section \<open>Files\<close>

text \<open>The contents of files by path, the names \<open>readdir\<close> gives for \<open>filedir/\<close> in its order (or
  nothing when the directory cannot be opened), and the paths at which the kernel lets the server
  open or create a file for writing.\<close>

record filesystem =
  contents :: "byte list \<Rightarrow> byte list option"
  dirents :: "byte list list option"
  writable :: "byte list \<Rightarrow> bool"

definition filedir :: "byte list" where "filedir = str_bytes ''filedir/''"

text \<open>A name in \<open>filedir\<close> itself, as opposed to a path that leads elsewhere.\<close>

definition plain_name :: "byte list \<Rightarrow> bool" where
  "plain_name n \<longleftrightarrow> n \<noteq> [] \<and> 47 \<notin> set n \<and> n \<notin> {[46], [46, 46]}"

text \<open>\<open>open(path,O_WRONLY|O_CREAT)\<close>: the content of an existing file stays.\<close>

definition open_write :: "byte list \<Rightarrow> filesystem \<Rightarrow> filesystem option" where
  "open_write name f =
     (if \<not> writable f (filedir @ name) then None
      else (case contents f (filedir @ name) of
         Some c \<Rightarrow> Some f
       | None \<Rightarrow> Some (f\<lparr>contents := (contents f)(filedir @ name := Some []),
           dirents := map_option (\<lambda>ns. if plain_name name then ns @ [name] else ns) (dirents f)\<rparr>)))"

text \<open>\<open>write\<close> at an offset replaces what was there and keeps the rest.\<close>

definition write_at :: "byte list \<Rightarrow> nat \<Rightarrow> byte list \<Rightarrow> filesystem \<Rightarrow> filesystem" where
  "write_at path pos bs f = (case contents f path of
     None \<Rightarrow> f
   | Some old \<Rightarrow> f\<lparr>contents := (contents f)(path := Some (take pos old @ bs @ drop (pos + length bs) old))\<rparr>)"

section \<open>The thread\<close>

record ftp_thread =
  csock :: conn
  cbuf :: "byte list"
  access_file :: "byte list"
  files :: filesystem

definition recv_header :: "ftp_thread \<Rightarrow> (int \<times> ftp_message \<times> ftp_thread) run" where
  "recv_header s = andthen (ftp_msgReceiver (csock s)) (\<lambda>(len, m, c). ret (len, m, s\<lparr>csock := c\<rparr>))"

definition send_header :: "byte \<Rightarrow> byte \<Rightarrow> int \<Rightarrow> ftp_thread \<Rightarrow> ftp_thread run" where
  "send_header t st n s =
     andthen (ftp_msgGeneration t st n) (\<lambda>m.
     andthen (ftp_msgSender m (csock s)) (\<lambda>(len, c). ret (s\<lparr>csock := c\<rparr>)))"

definition recv_data :: "int \<Rightarrow> ftp_thread \<Rightarrow> (int \<times> ftp_thread) run" where
  "recv_data n s =
     andthen (ftp_dataReceiver n (cbuf s) (csock s)) (\<lambda>(len, buf, c). ret (int len, s\<lparr>cbuf := buf, csock := c\<rparr>))"

definition send_data_out :: "int \<Rightarrow> ftp_thread \<Rightarrow> ftp_thread run" where
  "send_data_out n s =
     andthen (ftp_dataSender n (cbuf s) (csock s)) (\<lambda>(len, c). ret (s\<lparr>csock := c\<rparr>))"

definition payload_of :: "ftp_message \<Rightarrow> int run" where
  "payload_of m = cint (sint (ftp_length m) - 12)"

section \<open>Connection and authentication\<close>

definition ftp_connection :: "ftp_thread \<Rightarrow> ftp_thread run" where
  "ftp_connection s =
     andthen (recv_header s) (\<lambda>(len, m, s).
     if ftp_msgChecker m OPEN_CONN_REQUEST unused len \<noteq> 0 then halt (Exit 0)
     else send_header OPEN_CONN_REPLY 1 0 s)"

text \<open>\<open>fgets\<close> with room for \<open>n\<close> characters before the NUL: the line and what is left.\<close>

fun fgets :: "nat \<Rightarrow> byte list \<Rightarrow> byte list \<times> byte list" where
  "fgets 0 r = ([], r)"
| "fgets (Suc n) [] = ([], [])"
| "fgets (Suc n) (c # cs) = (if c = 10 then ([c], cs) else (case fgets n cs of (l, r) \<Rightarrow> (c # l, r)))"

lemma fgets_length: "length (snd (fgets n r)) \<le> length r"
  by (induction n r rule: fgets.induct) (auto split: prod.splits)

lemma fgets_shrinks: "r \<noteq> [] \<Longrightarrow> length (snd (fgets (Suc n) r)) < length r"
  using fgets_length [of n "tl r"] by (cases r) (auto split: prod.splits)

lemma fgets_79:
  assumes "(l, r') = fgets 79 r" "r \<noteq> []"
  shows "length r' < length r"
proof -
  have "79 = Suc 78" by simp
  then show ?thesis using fgets_shrinks [OF assms(2), of 78] assms(1) by (metis snd_conv)
qed

text \<open>The line without its newline, as a C string. A line has at most one newline, at its end.\<close>

definition chop_line :: "byte list \<Rightarrow> byte list" where
  "chop_line l = takeWhile (\<lambda>b. b \<noteq> 10) (cstr l)"

function access_scan :: "byte list \<Rightarrow> byte list \<Rightarrow> bool \<times> byte list" where
  "access_scan buf r =
     (if r = [] then (False, [])
      else (case fgets 79 r of (user_pwd, r') \<Rightarrow>
        if chop_line user_pwd = cstr buf then (True, r') else access_scan buf r'))"
  by auto
termination
  by (relation "measure (\<lambda>(buf, r). length r)") (auto dest: fgets_79)

declare access_scan.simps [simp del]

text \<open>The result 1 makes the thread ask again, with the file position where the scan left it.\<close>

definition authentication :: "ftp_thread \<Rightarrow> (int \<times> ftp_thread) run" where
  "authentication s =
     andthen (recv_header s) (\<lambda>(len, m, s).
     if ftp_msgChecker m AUTH_REQUEST unused len \<noteq> 0 then halt (Exit 0)
     else
       andthen (payload_of m) (\<lambda>n.
       andthen (recv_data n s) (\<lambda>(len, s).
       if len \<noteq> n then halt (Exit 0)
       else (case access_scan (cbuf s) (access_file s) of (status, r) \<Rightarrow>
         andthen (send_header AUTH_REPLY (if status then 1 else 0) 0 (s\<lparr>access_file := r\<rparr>)) (\<lambda>s.
         ret (if status then 0 else 1, s))))))"

partial_function (option) auth_loop :: "ftp_thread \<Rightarrow> ftp_thread run" where
  "auth_loop s = (case authentication s of None \<Rightarrow> None
     | Some r \<Rightarrow> (case r of Inl f \<Rightarrow> halt f
         | Inr (again, s) \<Rightarrow> if again \<noteq> 0 then auth_loop s else ret s))"

section \<open>Listing\<close>

text \<open>The text must fit the 1000-byte buffer, and each name with its newline 256 bytes.\<close>

definition listGen :: "bool \<Rightarrow> ftp_thread \<Rightarrow> (int \<times> ftp_thread) run" where
  "listGen Linux s =
     andthen (readDir Linux (dirents (files s))) (\<lambda>names.
     let shown = filter (\<lambda>n. n \<noteq> [46] \<and> n \<noteq> [46, 46]) names;
         text = concat (map (\<lambda>n. n @ [10]) shown)
     in if list_all (\<lambda>n. length n + 2 \<le> 256) shown then
          andthen (blit (cbuf s) 0 (replicate 8 0)) (\<lambda>buf.
          andthen (blit buf 0 (text @ [0])) (\<lambda>buf.
          ret (int (length text), s\<lparr>cbuf := buf\<rparr>)))
        else halt OutOfBounds)"

definition listFile :: "bool \<Rightarrow> ftp_thread \<Rightarrow> ftp_thread run" where
  "listFile Linux s =
     andthen (listGen Linux s) (\<lambda>(n, s).
     andthen (send_header LIST_REPLY unused (n + 1) s) (\<lambda>s.
     send_data_out (n + 1) s))"

section \<open>Download\<close>

definition fileSearch :: "bool \<Rightarrow> byte list \<Rightarrow> filesystem \<Rightarrow> bool run" where
  "fileSearch Linux filename f =
     andthen (readDir Linux (dirents f)) (\<lambda>names. ret (filename \<in> set names))"

text \<open>Reading \<open>size\<close> bytes of an open file at an offset into the buffer.\<close>

definition data_out :: "byte list \<Rightarrow> nat \<Rightarrow> int \<Rightarrow> ftp_thread \<Rightarrow> (nat \<times> ftp_thread) run" where
  "data_out file pos sz s =
     andthen (blit (cbuf s) 0 (replicate 8 0)) (\<lambda>buf.
     let bs = take (nat sz) (drop pos file)
     in andthen (blit buf 0 bs) (\<lambda>buf. ret (pos + length bs, s\<lparr>cbuf := buf\<rparr>)))"

text \<open>The blocks of 1000 bytes: \<open>for(count=count-1000;count>0;count=count-1000)\<close>; the loop returns the
  last \<open>count\<close> and the offset.\<close>

function download_loop :: "byte list \<Rightarrow> int \<Rightarrow> nat \<Rightarrow> ftp_thread \<Rightarrow> (int \<times> nat \<times> ftp_thread) run" where
  "download_loop file count pos s =
     (if count > 0 then
        andthen (data_out file pos 1000 s) (\<lambda>(pos, s).
        andthen (send_data_out 1000 s) (\<lambda>s.
        download_loop file (count - 1000) pos s))
      else ret (count, pos, s))"
  by auto
termination
  by (relation "measure (\<lambda>(file, count, pos, s). nat count)") simp_all

declare download_loop.simps [simp del]

text \<open>The name is copied to an array of 257 bytes. \<open>readdir\<close> also gives the directory itself and its parent; opening them for
  reading succeeds, and \<open>read\<close> on them fails after both headers have gone out.\<close>

definition file_name :: "ftp_thread \<Rightarrow> byte list run" where
  "file_name s = (let n = cstr (cbuf s) in
     if length n < length (cbuf s) \<and> length n \<le> 256 then ret n else halt OutOfBounds)"

definition send_file :: "byte list \<Rightarrow> ftp_thread \<Rightarrow> ftp_thread run" where
  "send_file file s =
     (let payload = sint (word_of_int (int (length file)) :: 32 word) in
      andthen (send_header FILE_DATA unused payload s) (\<lambda>s.
      andthen (download_loop file (payload - 1000) 0 s) (\<lambda>(count, pos, s).
      andthen (data_out file pos (count + 1000) s) (\<lambda>(pos, s).
      send_data_out (count + 1000) s))))"

definition beDownload :: "bool \<Rightarrow> ftp_message \<Rightarrow> ftp_thread \<Rightarrow> ftp_thread run" where
  "beDownload Linux m s =
     andthen (payload_of m) (\<lambda>n.
     andthen (recv_data n s) (\<lambda>(len, s).
     if len \<noteq> n then halt (Exit 0)
     else
       andthen (file_name s) (\<lambda>filename.
       andthen (fileSearch Linux filename (files s)) (\<lambda>found.
       if found \<and> filename \<in> {[46], [46, 46]} then
         andthen (send_header GET_REPLY 1 0 s) (\<lambda>s. halt (Exit 0))
       else (case (if found then contents (files s) (filedir @ filename) else None) of
         None \<Rightarrow> send_header GET_REPLY 0 0 s
       | Some file \<Rightarrow> andthen (send_header GET_REPLY 1 0 s) (send_file file))))))"

section \<open>Upload\<close>

definition data_in :: "byte list \<Rightarrow> nat \<Rightarrow> int \<Rightarrow> ftp_thread \<Rightarrow> (nat \<times> ftp_thread) run" where
  "data_in path pos sz s =
     andthen (slice (cbuf s) 0 (nat sz)) (\<lambda>bs.
     ret (pos + length bs, s\<lparr>files := write_at path pos bs (files s)\<rparr>))"

function upload_loop :: "byte list \<Rightarrow> int \<Rightarrow> nat \<Rightarrow> ftp_thread \<Rightarrow> (int \<times> nat \<times> ftp_thread) run" where
  "upload_loop path count pos s =
     (if count > 0 then
        andthen (recv_data 1000 s) (\<lambda>(len, s).
        andthen (data_in path pos 1000 s) (\<lambda>(pos, s).
        upload_loop path (count - 1000) pos s))
      else ret (count, pos, s))"
  by auto
termination
  by (relation "measure (\<lambda>(path, count, pos, s). nat count)") simp_all

declare upload_loop.simps [simp del]

text \<open>The data of an upload; the type of the header before it is not looked at.\<close>

definition receive_file :: "byte list \<Rightarrow> ftp_thread \<Rightarrow> ftp_thread run" where
  "receive_file path s =
     andthen (recv_header s) (\<lambda>(len, m, s).
     andthen (payload_of m) (\<lambda>payload.
     if payload > 0 then
       andthen (upload_loop path (payload - 1000) 0 s) (\<lambda>(count, pos, s).
       andthen (recv_data (count + 1000) s) (\<lambda>(len, s).
       andthen (data_in path pos (count + 1000) s) (\<lambda>(pos, s). ret s)))
     else ret s))"

definition beUpload :: "ftp_message \<Rightarrow> ftp_thread \<Rightarrow> ftp_thread run" where
  "beUpload m s =
     andthen (payload_of m) (\<lambda>n.
     andthen (recv_data n s) (\<lambda>(len, s).
     if len \<noteq> n then halt (Exit 0)
     else
       andthen (file_name s) (\<lambda>filename.
       case open_write filename (files s) of
         None \<Rightarrow> halt (Exit 0)
       | Some f \<Rightarrow>
           andthen (send_header PUT_REPLY unused 0 (s\<lparr>files := f\<rparr>)) (receive_file (filedir @ filename)))))"

section \<open>The service loop\<close>

text \<open>The socket is closed after the reply; the thread does not use it any more.\<close>

definition ftp_client_close :: "ftp_thread \<Rightarrow> (int \<times> ftp_thread) run" where
  "ftp_client_close s = andthen (send_header QUIT_REPLY unused 0 s) (\<lambda>s. ret (0, s))"

definition ftp_serviceHandler :: "bool \<Rightarrow> ftp_thread \<Rightarrow> (int \<times> ftp_thread) run" where
  "ftp_serviceHandler Linux s =
     andthen (recv_header s) (\<lambda>(len, m, s).
     if ftp_protocol m = ftp_magicNum \<and> len = 12 then
       (if ftp_type m = LIST_REQUEST then andthen (listFile Linux s) (\<lambda>s. ret (1, s))
        else if ftp_type m = GET_REQUEST then andthen (beDownload Linux m s) (\<lambda>s. ret (1, s))
        else if ftp_type m = PUT_REQUEST then andthen (beUpload m s) (\<lambda>s. ret (1, s))
        else ftp_client_close s)
     else ftp_client_close s)"

partial_function (option) ftp_service_loop :: "bool \<Rightarrow> ftp_thread \<Rightarrow> ftp_thread run" where
  "ftp_service_loop Linux s = (case ftp_serviceHandler Linux s of None \<Rightarrow> None
     | Some r \<Rightarrow> (case r of Inl f \<Rightarrow> halt f
         | Inr (again, s) \<Rightarrow> if again \<noteq> 0 then ftp_service_loop Linux s else ret s))"

text \<open>The body of the thread up to the return of its slot; \<open>access\<close> is the content of
  \<open>access.txt\<close>, if it can be opened.\<close>

definition ftp_client :: "bool \<Rightarrow> byte list option \<Rightarrow> ftp_thread \<Rightarrow> ftp_thread run" where
  "ftp_client Linux access s =
     andthen (ftp_connection s) (\<lambda>s.
     case access of None \<Rightarrow> halt (Exit 0)
     | Some r \<Rightarrow> andthen (auth_loop (s\<lparr>access_file := r\<rparr>)) (ftp_service_loop Linux))"

end
