(* ===== verification/FtpService.thy ===== *)
theory FtpService
  imports FtpServer
begin

text \<open>
  What the operations of the ftp server's thread do: the headers they exchange, the block loops of a
  download and an upload, and the scan of \<open>access.txt\<close>.
\<close>

section \<open>Headers\<close>

definition say :: "byte list \<Rightarrow> ftp_thread \<Rightarrow> ftp_thread" where
  "say bs s = s\<lparr>csock := (csock s)\<lparr>sent := sent (csock s) @ bs\<rparr>\<rparr>"

lemma say_simps [simp]:
  "cbuf (say bs s) = cbuf s" "files (say bs s) = files s" "access_file (say bs s) = access_file s"
  "txq (csock (say bs s)) = txq (csock s)" "rxq (csock (say bs s)) = rxq (csock s)"
  "sent (csock (say bs s)) = sent (csock s) @ bs" "say cs (say bs s) = say (bs @ cs) s" "say [] s = s"
  by (simp_all add: say_def)

lemma say_update [simp]:
  "say bs (s\<lparr>cbuf := b\<rparr>) = (say bs s)\<lparr>cbuf := b\<rparr>" "say bs (s\<lparr>files := f\<rparr>) = (say bs s)\<lparr>files := f\<rparr>"
  "say bs (s\<lparr>access_file := r\<rparr>) = (say bs s)\<lparr>access_file := r\<rparr>"
  by (simp_all add: say_def)

definition ready :: "ftp_thread \<Rightarrow> bool" where
  "ready s \<longleftrightarrow> txq (csock s) = [] \<and> length (cbuf s) = 1000"

lemma ready_simps [simp]:
  "ready (say bs s) = ready s" "ready (s\<lparr>files := f\<rparr>) = ready s" "ready (s\<lparr>access_file := r\<rparr>) = ready s"
  "length b = 1000 \<Longrightarrow> ready s \<Longrightarrow> ready (s\<lparr>cbuf := b\<rparr>)"
  "ready s \<Longrightarrow> ready (s\<lparr>csock := (csock s)\<lparr>rxq := q\<rparr>\<rparr>)"
  by (simp_all add: ready_def)

lemma readyD: "ready s \<Longrightarrow> txq (csock s) = []" "ready s \<Longrightarrow> length (cbuf s) = 1000"
  by (simp_all add: ready_def)

lemma send_header_ready:
  assumes "ready s" "0 \<le> n" "12 + n \<le> int_max"
  shows "send_header t st n s = ret (say (ftp_wire t st n) s)"
  using assms by (simp add: send_header_def ftp_msgGeneration_ret ftp_msgSender_def conn_send_def ready_def
      say_def ftp_wire_def)

lemma recv_header_wire:
  assumes "rxq (csock s) = RxData (ftp_wire t st n) # q"
  shows "recv_header s = ret (12, ftp_host t st n, s\<lparr>csock := (csock s)\<lparr>rxq := q\<rparr>\<rparr>)"
  using ftp_msgReceiver_wire [of "csock s" t st n "[]" q] assms by (simp add: recv_header_def)

lemma payload_of_host: "0 \<le> n \<Longrightarrow> 12 + n \<le> int_max \<Longrightarrow> payload_of (ftp_host t st n) = ret n"
  by (simp only: payload_of_def ftp_host_payload cint_in_range)

lemma send_data_out_ready:
  assumes "ready s" "n \<le> 1000"
  shows "send_data_out (int n) s = ret (say (take n (cbuf s)) s)"
  using ftp_dataSender_all [of "csock s" n "cbuf s"] assms by (simp add: send_data_out_def ready_def say_def)

lemma recv_data_exact:
  assumes "rxq (csock s) = p @ q" "data_segs p" "rx_bytes p = bs" "length bs \<le> 1000" "ready s"
  shows "recv_data (int (length bs)) s = ret (int (length bs), s\<lparr>csock := (csock s)\<lparr>rxq := q\<rparr>,
     cbuf := bs @ drop (length bs) (replicate 8 0 @ drop 8 (cbuf s))\<rparr>)"
  using ftp_dataReceiver_exact [OF assms(1-3), of "cbuf s"] assms(4,5)
  by (simp add: recv_data_def ready_def)

section \<open>Download\<close>

lemma data_out_ready:
  assumes "ready s" "k \<le> 1000" "pos + k \<le> length file"
  shows "\<exists>buf. data_out file pos (int k) s = ret (pos + k, s\<lparr>cbuf := buf\<rparr>) \<and> length buf = 1000 \<and>
    take k buf = take k (drop pos file)"
proof -
  let ?b = "replicate 8 0 @ drop 8 (cbuf s)" and ?bs = "take k (drop pos file)"
  have l: "length (cbuf s) = 1000" using assms(1) by (simp add: ready_def)
  have lb: "length ?bs = k" using assms(3) by simp
  have b: "blit (cbuf s) 0 (replicate 8 0) = ret ?b" using l by (simp add: blit_def)
  have c: "blit ?b 0 ?bs = ret (?bs @ drop k ?b)" using l assms(2) lb by (simp add: blit_def)
  have "data_out file pos (int k) s = ret (pos + k, s\<lparr>cbuf := ?bs @ drop k ?b\<rparr>)"
    unfolding data_out_def b andthen_simps Let_def nat_int c lb ..
  moreover have "length (?bs @ drop k ?b) = 1000" using l lb assms(2) by simp
  moreover have "take k (?bs @ drop k ?b) = ?bs" using lb by simp
  ultimately show ?thesis by blast
qed

lemma download_loop_blocks:
  assumes "ready s" "count + 1000 = int (length file - pos)" "pos \<le> length file"
  shows "\<exists>count' pos' buf. download_loop file count pos s =
      ret (count', pos', (say (take (pos' - pos) (drop pos file)) s)\<lparr>cbuf := buf\<rparr>) \<and> length buf = 1000 \<and>
      pos \<le> pos' \<and> pos' \<le> length file \<and> count' \<le> 0 \<and> count' + 1000 = int (length file - pos')"
  using assms
proof (induction "nat count" arbitrary: count pos s rule: less_induct)
  case less
  show ?case
  proof (cases "count > 0")
    case False
    then have "download_loop file count pos s = ret (count, pos, (say (take (pos - pos) (drop pos file)) s)\<lparr>cbuf := cbuf s\<rparr>)"
      by (subst download_loop.simps) simp
    with False less.prems readyD(2) [OF less.prems(1)] show ?thesis by (metis le_refl not_less)
  next
    case True
    have k: "pos + 1000 \<le> length file" using True less.prems(2,3) by linarith
    from data_out_ready [OF less.prems(1) le_refl k] obtain buf where
      d: "data_out file pos 1000 s = ret (pos + 1000, s\<lparr>cbuf := buf\<rparr>)" and
      b: "length buf = 1000" "take 1000 buf = take 1000 (drop pos file)" by auto
    let ?s = "(say (take 1000 (drop pos file)) s)\<lparr>cbuf := buf\<rparr>"
    have o: "send_data_out 1000 (s\<lparr>cbuf := buf\<rparr>) = ret ?s"
      using send_data_out_ready [of "s\<lparr>cbuf := buf\<rparr>" 1000] less.prems(1) b by simp
    have m: "nat (count - 1000) < nat count" using True by simp
    have r: "ready ?s" using less.prems(1) b(1) by simp
    have c: "count - 1000 + 1000 = int (length file - (pos + 1000))" using less.prems(2) k by simp
    from less.hyps [OF m r c k] obtain count' pos' buf' where
      h: "download_loop file (count - 1000) (pos + 1000) ?s =
        ret (count', pos', (say (take (pos' - (pos + 1000)) (drop (pos + 1000) file)) ?s)\<lparr>cbuf := buf'\<rparr>)"
      "length buf' = 1000" "pos + 1000 \<le> pos'" "pos' \<le> length file" "count' \<le> 0"
      "count' + 1000 = int (length file - pos')" by blast
    have t: "take 1000 (drop pos file) @ take (pos' - (pos + 1000)) (drop (pos + 1000) file) = take (pos' - pos) (drop pos file)"
      using take_split [of 1000 "pos' - pos" "drop pos file"] h(3) by (simp add: add.commute)
    have "download_loop file count pos s =
        ret (count', pos', (say (take (pos' - pos) (drop pos file)) s)\<lparr>cbuf := buf'\<rparr>)"
      using True d o h(1) t by (subst download_loop.simps) simp
    with h show ?thesis by (meson add_leD1)
  qed
qed

lemma send_file_content:
  assumes "ready s" "12 + int (length file) \<le> int_max"
  shows "\<exists>buf. send_file file s = ret ((say (ftp_wire FILE_DATA unused (int (length file)) @ file) s)\<lparr>cbuf := buf\<rparr>)
     \<and> length buf = 1000"
proof -
  let ?n = "int (length file)" and ?h = "ftp_wire FILE_DATA unused (int (length file))"
  have p: "sint (word_of_int ?n :: 32 word) = ?n" by (rule sint_word_of_int) (use assms(2) in simp_all)
  have h: "send_header FILE_DATA unused ?n s = ret (say ?h s)"
    by (rule send_header_ready) (use assms in simp_all)
  have r: "ready (say ?h s)" using assms(1) by simp
  have "?n - 1000 + 1000 = int (length file - 0)" "0 \<le> length file" by simp_all
  from download_loop_blocks [OF r this] obtain count pos buf where
    l: "download_loop file (?n - 1000) 0 (say ?h s) = ret (count, pos, (say (take pos file) (say ?h s))\<lparr>cbuf := buf\<rparr>)"
    "length buf = 1000" "pos \<le> length file" "count \<le> 0" "count + 1000 = int (length file - pos)" by auto
  let ?s = "(say (?h @ take pos file) s)\<lparr>cbuf := buf\<rparr>" and ?k = "length file - pos"
  have k: "?k \<le> 1000" "pos + ?k \<le> length file" using l(3-5) by linarith+
  have r': "ready ?s" using assms(1) l(2) by simp
  from data_out_ready [OF r' k] obtain buf' where
    d: "data_out file pos (int ?k) ?s = ret (pos + ?k, ?s\<lparr>cbuf := buf'\<rparr>)" "length buf' = 1000"
       "take ?k buf' = drop pos file" by auto
  have o: "send_data_out (int ?k) (?s\<lparr>cbuf := buf'\<rparr>) = ret (say (drop pos file) (?s\<lparr>cbuf := buf'\<rparr>))"
    using send_data_out_ready [of "?s\<lparr>cbuf := buf'\<rparr>" ?k] assms(1) d(2,3) k(1) by simp
  have "send_file file s = ret (say (drop pos file) (?s\<lparr>cbuf := buf'\<rparr>))"
    unfolding send_file_def p Let_def h andthen_simps l(1) prod.case l(5) say_simps d(1) o by simp
  then have "send_file file s = ret ((say (?h @ file) s)\<lparr>cbuf := buf'\<rparr>)" by simp
  with d(2) show ?thesis by blast
qed

section \<open>Upload\<close>

text \<open>The state of an upload into \<open>path\<close> after \<open>pos\<close> bytes of \<open>data\<close>.\<close>

definition write_file :: "byte list \<Rightarrow> byte list \<Rightarrow> filesystem \<Rightarrow> filesystem" where
  "write_file path c f = f\<lparr>contents := (contents f)(path := Some c)\<rparr>"

lemma write_at_next:
  assumes "contents f path = Some old"
  shows "write_at path pos bs (write_file path (take pos data @ drop pos old) f) = 
    write_file path (take pos (take pos data @ drop pos old) @ bs @ drop (pos + length bs) (take pos data @ drop pos old)) f"
  by (simp add: write_at_def write_file_def)

lemma overwrite_step:
  assumes "pos + k \<le> length data"
  shows "take pos (take pos data @ drop pos old) @ take k (drop pos data) @
      drop (pos + length (take k (drop pos data))) (take pos data @ drop pos old) =
    take (pos + k) data @ drop (pos + k) old"
proof -
  have l: "length (take k (drop pos data)) = k" "length (take pos data) = pos" using assms by simp_all
  then have "drop (pos + k) (take pos data @ drop pos old) = drop (pos + k) old" by (simp add: add.commute)
  moreover have "take pos (take pos data @ drop pos old) = take pos data" using l(2) by simp
  ultimately show ?thesis unfolding l by (simp add: take_add)
qed

text \<open>What is between two blocks: \<open>pos\<close> bytes of the data are in the file, the rest is pending
  before the segments \<open>q\<close>.\<close>

definition uploading :: "byte list \<Rightarrow> byte list \<Rightarrow> rx list \<Rightarrow> ftp_thread \<Rightarrow> nat \<Rightarrow> ftp_thread \<Rightarrow> bool" where
  "uploading path data q s0 pos s \<longleftrightarrow> ready s \<and> access_file s = access_file s0 \<and>
     before q [] (sent (csock s0)) (csock s) \<and> pending_before q (csock s) = drop pos data \<and>
     (\<exists>old. contents (files s0) path = Some old \<and>
        files s = write_file path (take pos data @ drop pos old) (files s0))"

lemma upload_block:
  assumes "uploading path data q s0 pos s" "k \<le> 1000" "pos + k \<le> length data"
  shows "\<exists>s1 s2. recv_data (int k) s = ret (int k, s1) \<and>
     data_in path pos (int k) s1 = ret (pos + k, s2) \<and> uploading path data q s0 (pos + k) s2"
proof -
  from assms(1) obtain old where u: "ready s" "access_file s = access_file s0"
    "before q [] (sent (csock s0)) (csock s)" "pending_before q (csock s) = drop pos data"
    "contents (files s0) path = Some old" "files s = write_file path (take pos data @ drop pos old) (files s0)"
    by (auto simp: uploading_def)
  have b: "k \<le> length (pending_before q (csock s))" "k \<le> length (cbuf s)" "8 \<le> length (cbuf s)"
    using assms(2,3) u(1,4) by (simp_all add: ready_def)
  from ftp_dataReceiver_part [OF u(3) b] obtain c where
    c: "ftp_dataReceiver (int k) (cbuf s) (csock s) = ret (k, take k (drop pos data) @ drop k (replicate 8 0 @ drop 8 (cbuf s)), c)"
    "pending_before q c = drop (pos + k) data" "before q [] (sent (csock s0)) c"
    unfolding u(4) by (auto simp: add.commute)
  let ?buf = "take k (drop pos data) @ drop k (replicate 8 0 @ drop 8 (cbuf s))"
  define s1 where "s1 = s\<lparr>cbuf := ?buf, csock := c\<rparr>"
  have r: "recv_data (int k) s = ret (int k, s1)" by (simp add: recv_data_def c(1) s1_def)
  have lb: "length (take k (drop pos data)) = k" using assms(3) by simp
  have len: "length ?buf = 1000" using b(2) u(1) lb by (simp add: ready_def)
  have sl: "slice ?buf 0 k = ret (take k (drop pos data))" using len assms(2) lb by (simp add: slice_def)
  define s2 where "s2 = s1\<lparr>files := write_at path pos (take k (drop pos data)) (files s1)\<rparr>"
  have d: "data_in path pos (int k) s1 = ret (pos + k, s2)"
    unfolding data_in_def nat_int s2_def using sl lb by (simp add: s1_def)
  have f: "files s2 = write_file path (take (pos + k) data @ drop (pos + k) old) (files s0)"
    using write_at_next [OF u(5), of pos "take k (drop pos data)" data] overwrite_step [OF assms(3), of old]
    by (simp add: s2_def s1_def u(6))
  have "ready s2" using len c(3) by (simp add: s2_def s1_def ready_def before_def)
  then have "uploading path data q s0 (pos + k) s2"
    unfolding uploading_def using f u(2,5) c(2,3) by (simp add: s2_def s1_def)
  with r d show ?thesis by blast
qed

lemma upload_loop_blocks:
  assumes "uploading path data q s0 pos s" "count + 1000 = int (length data - pos)" "pos \<le> length data"
  shows "\<exists>count' pos' s'. upload_loop path count pos s = ret (count', pos', s') \<and>
    uploading path data q s0 pos' s' \<and> pos' \<le> length data \<and> count' \<le> 0 \<and> count' + 1000 = int (length data - pos')"
  using assms
proof (induction "nat count" arbitrary: count pos s rule: less_induct)
  case less
  show ?case
  proof (cases "count > 0")
    case False
    with less.prems show ?thesis by (subst upload_loop.simps) auto
  next
    case True
    then have k: "pos + 1000 \<le> length data" using less.prems(2,3) by linarith
    from upload_block [OF less.prems(1) le_refl k] obtain s1 s2 where
      b: "recv_data 1000 s = ret (1000, s1)" "data_in path pos 1000 s1 = ret (pos + 1000, s2)"
         "uploading path data q s0 (pos + 1000) s2" by auto
    have m: "nat (count - 1000) < nat count" using True by simp
    have c: "count - 1000 + 1000 = int (length data - (pos + 1000))" using less.prems(2) k by simp
    from less.hyps [OF m b(3) c k] b(1,2) True show ?thesis by (subst upload_loop.simps) auto
  qed
qed

text \<open>A whole upload: the header of the data in a segment, the data in any segments.\<close>

lemma receive_file_content:
  assumes "ready s" "rxq (csock s) = RxData (ftp_wire t st (int (length data))) # p @ q"
    and "data_segs p" "rx_bytes p = data" "12 + int (length data) \<le> int_max"
    and "contents (files s) path = Some old"
  shows "\<exists>s'. receive_file path s = ret s' \<and> ready s' \<and> access_file s' = access_file s \<and>
    rxq (csock s') = q \<and> sent (csock s') = sent (csock s) \<and>
    files s' = write_file path (data @ drop (length data) old) (files s)"
proof -
  let ?s = "s\<lparr>csock := (csock s)\<lparr>rxq := p @ q\<rparr>\<rparr>"
  have h: "recv_header s = ret (12, ftp_host t st (int (length data)), ?s)" by (rule recv_header_wire [OF assms(2)])
  have n: "payload_of (ftp_host t st (int (length data))) = ret (int (length data))"
    by (rule payload_of_host) (use assms(5) in simp_all)
  have w: "write_file path old (files s) = files s"
    using assms(6) by (simp add: write_file_def fun_upd_idem)
  have u: "uploading path data q s 0 ?s"
    using assms by (auto simp: uploading_def ready_def before_def pending_before_def w)
  have fin: "\<exists>s'. s' = s'' \<and> ready s' \<and> access_file s' = access_file s \<and> rxq (csock s') = q \<and>
      sent (csock s') = sent (csock s) \<and> files s' = write_file path (data @ drop (length data) old) (files s)"
    if "uploading path data q s (length data) s''" for s''
  proof -
    have "pending_before q (csock s'') = []" "before q [] (sent (csock s)) (csock s'')"
      using that by (simp_all add: uploading_def)
    from before_done [OF this(2,1)] that assms(6) show ?thesis by (auto simp: uploading_def)
  qed
  show ?thesis
  proof (cases "data = []")
    case True
    then have "receive_file path s = ret ?s" using h n by (simp add: receive_file_def)
    moreover have "uploading path data q s (length data) ?s" using u True by simp
    ultimately show ?thesis using fin by blast
  next
    case False
    have "int (length data) - 1000 + 1000 = int (length data - 0)" "0 \<le> length data" by simp_all
    from upload_loop_blocks [OF u this] obtain count pos s1 where
      l: "upload_loop path (int (length data) - 1000) 0 ?s = ret (count, pos, s1)"
      "uploading path data q s pos s1" "pos \<le> length data" "count \<le> 0" "count + 1000 = int (length data - pos)"
      by blast
    have k: "length data - pos \<le> 1000" "pos + (length data - pos) \<le> length data" using l(3-5) by linarith+
    from upload_block [OF l(2) k] obtain s2 s3 where
      b: "recv_data (int (length data - pos)) s1 = ret (int (length data - pos), s2)"
      "data_in path pos (int (length data - pos)) s2 = ret (pos + (length data - pos), s3)"
      "uploading path data q s (pos + (length data - pos)) s3" by blast
    have "receive_file path s = ret s3"
      using False h n l(1) b(1,2) by (simp add: receive_file_def l(5))
    moreover have "uploading path data q s (length data) s3" using b(3) l(3) by simp
    ultimately show ?thesis using fin by blast
  qed
qed

end
