(* ===== verification/FtpSpec.thy ===== *)
theory FtpSpec
  imports FtpService
begin

text \<open>
  The properties of the ftp server's thread: who is let in, what a listing, a download and an upload
  send and store, and the requests that end the whole server or write where they should not.
\<close>

section \<open>Requests with a payload\<close>

text \<open>A request header in one segment, its payload in the segments \<open>p\<close>, then the segments \<open>q\<close>.\<close>

definition requests :: "byte \<Rightarrow> byte list \<Rightarrow> rx list \<Rightarrow> ftp_thread \<Rightarrow> bool" where
  "requests t payload q s \<longleftrightarrow> (\<exists>st p. rxq (csock s) = RxData (ftp_wire t st (int (length payload))) # p @ q \<and>
     data_segs p \<and> rx_bytes p = payload)"

definition at_segs :: "rx list \<Rightarrow> ftp_thread \<Rightarrow> ftp_thread" where
  "at_segs q s = s\<lparr>csock := (csock s)\<lparr>rxq := q\<rparr>\<rparr>"

lemma at_segs_simps [simp]:
  "cbuf (at_segs q s) = cbuf s" "files (at_segs q s) = files s" "access_file (at_segs q s) = access_file s"
  "rxq (csock (at_segs q s)) = q" "sent (csock (at_segs q s)) = sent (csock s)"
  "ready (at_segs q s) = ready s" "at_segs q (at_segs q' s) = at_segs q s"
  "at_segs q (s\<lparr>cbuf := b\<rparr>) = (at_segs q s)\<lparr>cbuf := b\<rparr>"
  by (simp_all add: at_segs_def ready_def)

lemma requests_header:
  assumes "requests t payload q s" "length payload \<le> 1000"
  obtains st p where "recv_header s = ret (12, ftp_host t st (int (length payload)), at_segs (p @ q) s)"
    "payload_of (ftp_host t st (int (length payload))) = ret (int (length payload))"
    "data_segs p" "rx_bytes p = payload"
proof -
  from assms(1) obtain st p where p: "rxq (csock s) = RxData (ftp_wire t st (int (length payload))) # p @ q"
    "data_segs p" "rx_bytes p = payload" by (auto simp: requests_def)
  have "recv_header s = ret (12, ftp_host t st (int (length payload)), at_segs (p @ q) s)"
    using recv_header_wire [OF p(1)] by (simp add: at_segs_def)
  moreover have "payload_of (ftp_host t st (int (length payload))) = ret (int (length payload))"
    by (rule payload_of_host) (use assms(2) in simp_all)
  ultimately show thesis using that p(2,3) by blast
qed

lemma requests_payload:
  assumes "data_segs p" "rx_bytes p = payload" "length payload \<le> 1000" "ready s"
  shows "\<exists>rest. recv_data (int (length payload)) (at_segs (p @ q) s)
     = ret (int (length payload), (at_segs q s)\<lparr>cbuf := payload @ rest\<rparr>) \<and> length payload + length rest = 1000"
proof -
  let ?r = "drop (length payload) (replicate 8 0 @ drop 8 (cbuf s))"
  have "recv_data (int (length payload)) (at_segs (p @ q) s) = ret (int (length payload), (at_segs q s)\<lparr>cbuf := payload @ ?r\<rparr>)"
    using recv_data_exact [of "at_segs (p @ q) s" p q payload] assms by (simp add: at_segs_def)
  moreover have "length payload + length ?r = 1000" using assms(3,4) by (simp add: ready_def)
  ultimately show ?thesis by blast
qed

section \<open>Authentication\<close>

text \<open>Lines short enough for the buffer of \<open>fgets\<close>.\<close>

definition short_line :: "byte list \<Rightarrow> bool" where
  "short_line l \<longleftrightarrow> length l \<le> 78 \<and> 0 \<notin> set l \<and> 10 \<notin> set l"

definition file_lines :: "byte list list \<Rightarrow> byte list" where
  "file_lines ls = concat (map (\<lambda>l. l @ [10]) ls)"

lemma fgets_line: "10 \<notin> set l \<Longrightarrow> length l < n \<Longrightarrow> fgets n (l @ 10 # r) = (l @ [10], r)"
proof (induction l arbitrary: n)
  case Nil
  then show ?case by (cases n) simp_all
next
  case (Cons c l)
  then show ?case by (cases n) auto
qed

lemma fgets_full: "10 \<notin> set l \<Longrightarrow> fgets (length l) (l @ r) = (l, r)"
  by (induction l) auto

lemma chop_line_newline: "0 \<notin> set l \<Longrightarrow> 10 \<notin> set l \<Longrightarrow> chop_line (l @ [10]) = l"
  unfolding chop_line_def cstr_def
  by (induction l) auto

lemma chop_line_whole: "0 \<notin> set l \<Longrightarrow> 10 \<notin> set l \<Longrightarrow> chop_line l = l"
  unfolding chop_line_def cstr_def
  by (induction l) auto

lemma access_scan_lines:
  assumes "\<forall>l \<in> set ls. short_line l"
  shows "if cstr buf \<in> set ls then fst (access_scan buf (file_lines ls)) else access_scan buf (file_lines ls) = (False, [])"
  using assms
proof (induction ls)
  case Nil
  then show ?case by (simp add: file_lines_def access_scan.simps)
next
  case (Cons l ls)
  have "file_lines (l # ls) = l @ 10 # file_lines ls" by (simp add: file_lines_def)
  moreover have "fgets 79 (l @ 10 # file_lines ls) = (l @ [10], file_lines ls)"
    by (rule fgets_line) (use Cons.prems in \<open>simp_all add: short_line_def\<close>)
  moreover have "chop_line (l @ [10]) = l"
    by (rule chop_line_newline) (use Cons.prems in \<open>simp_all add: short_line_def\<close>)
  ultimately have "access_scan buf (file_lines (l # ls)) =
      (if l = cstr buf then (True, file_lines ls) else access_scan buf (file_lines ls))"
    by (subst access_scan.simps) simp
  with Cons show ?case by (auto split: if_splits)
qed

lemma access_scan_rejects: "access_scan buf r = (False, r') \<Longrightarrow> r' = []"
  by (induction buf r rule: access_scan.induct)
    (subst (asm) (2) access_scan.simps, auto split: if_splits prod.splits)

lemma authentication_request:
  assumes "ready s" "requests AUTH_REQUEST payload q s" "length payload \<le> 1000"
  shows "\<exists>rest. authentication s = (case access_scan (payload @ rest) (access_file s) of (status, r) \<Rightarrow>
     ret (if status then 0 else 1, (say (ftp_wire AUTH_REPLY (if status then 1 else 0) 0)
       ((at_segs q s)\<lparr>cbuf := payload @ rest\<rparr>))\<lparr>access_file := r\<rparr>)) \<and> length payload + length rest = 1000"
proof -
  obtain st p where h: "recv_header s = ret (12, ftp_host AUTH_REQUEST st (int (length payload)), at_segs (p @ q) s)"
    "payload_of (ftp_host AUTH_REQUEST st (int (length payload))) = ret (int (length payload))"
    "data_segs p" "rx_bytes p = payload"
    by (rule requests_header [OF assms(2,3)])
  from requests_payload [OF h(3,4) assms(3,1), of q] obtain rest where
    d: "recv_data (int (length payload)) (at_segs (p @ q) s)
     = ret (int (length payload), (at_segs q s)\<lparr>cbuf := payload @ rest\<rparr>)" "length payload + length rest = 1000"
    by blast
  have "ready (((at_segs q s)\<lparr>cbuf := payload @ rest\<rparr>)\<lparr>access_file := r\<rparr>)" for r
    using assms(1) d(2) by simp
  then have "send_header AUTH_REPLY st 0 (((at_segs q s)\<lparr>cbuf := payload @ rest\<rparr>)\<lparr>access_file := r\<rparr>)
      = ret (say (ftp_wire AUTH_REPLY st 0) (((at_segs q s)\<lparr>cbuf := payload @ rest\<rparr>)\<lparr>access_file := r\<rparr>))" for st r
    by (rule send_header_ready) simp_all
  with h(1,2) d show ?thesis
    by (intro exI [of _ rest]) (simp add: authentication_def ftp_msgChecker_host split: prod.splits)
qed

lemma authentication_accepted:
  assumes "ready s" "requests AUTH_REQUEST (cred @ [0]) q s" "0 \<notin> set cred" "length cred < 1000"
    and "access_file s = file_lines ls" "\<forall>l \<in> set ls. short_line l"
  shows "\<exists>s'. authentication s = ret (if cred \<in> set ls then 0 else 1, s') \<and> rxq (csock s') = q \<and> ready s' \<and>
    files s' = files s \<and> sent (csock s') = sent (csock s) @ ftp_wire AUTH_REPLY (if cred \<in> set ls then 1 else 0) 0"
proof -
  have l: "length (cred @ [0]) \<le> 1000" using assms(4) by simp
  from authentication_request [OF assms(1,2) l] obtain rest where
    a: "authentication s = (case access_scan ((cred @ [0]) @ rest) (access_file s) of (status, r) \<Rightarrow>
     ret (if status then 0 else 1, (say (ftp_wire AUTH_REPLY (if status then 1 else 0) 0)
       ((at_segs q s)\<lparr>cbuf := (cred @ [0]) @ rest\<rparr>))\<lparr>access_file := r\<rparr>))"
    "length (cred @ [0]) + length rest = 1000" by blast
  have c: "cstr ((cred @ [0]) @ rest) = cred" using assms(3) by simp
  have "fst (access_scan ((cred @ [0]) @ rest) (access_file s)) = (cred \<in> set ls)"
    using access_scan_lines [OF assms(6), of "(cred @ [0]) @ rest"] unfolding c assms(5) by (auto split: if_splits)
  then obtain r where "access_scan ((cred @ [0]) @ rest) (access_file s) = (cred \<in> set ls, r)"
    by (cases "access_scan ((cred @ [0]) @ rest) (access_file s)") simp
  with a assms(1) show ?thesis by simp
qed

text \<open>with \<open>access.txt\<close> unread, a client is let in exactly when \<open>user password\<close> is one of its
  lines (short enough for the buffer), and the reply says so.\<close>

theorem authentication_accepts_lines:
  assumes "ready s" "requests AUTH_REQUEST (cred @ [0]) q s" "0 \<notin> set cred" "length cred < 1000"
    and "access_file s = file_lines ls" "\<forall>l \<in> set ls. short_line l"
  shows "\<exists>s'. authentication s = ret (if cred \<in> set ls then 0 else 1, s') \<and> rxq (csock s') = q \<and> ready s' \<and>
    files s' = files s \<and> sent (csock s') = sent (csock s) @ ftp_wire AUTH_REPLY (if cred \<in> set ls then 1 else 0) 0"
  using assms by (rule authentication_accepted)

definition thread_at :: "rx list \<Rightarrow> byte list \<Rightarrow> filesystem \<Rightarrow> ftp_thread" where
  "thread_at q access f = \<lparr>csock = \<lparr>rxq = q, txq = [], sent = []\<rparr>, cbuf = replicate 1000 7,
     access_file = access, files = f\<rparr>"

definition no_files :: filesystem where
  "no_files = \<lparr>contents = Map.empty, dirents = Some [[46], [46, 46]], writable = (\<lambda>p. True)\<rparr>"

lemma thread_at_simps [simp]:
  "ready (thread_at q a f)" "rxq (csock (thread_at q a f)) = q" "access_file (thread_at q a f) = a"
  "files (thread_at q a f) = f" "sent (csock (thread_at q a f)) = []"
  by (simp_all add: thread_at_def ready_def)

lemma requests_thread_at:
  "payload \<noteq> [] \<Longrightarrow> requests t payload q (thread_at (RxData (ftp_wire t unused (int (length payload))) # RxData payload # q) a f)"
  unfolding requests_def thread_at_simps
  by (intro exI [of _ unused] exI [of _ "[RxData payload]"]) simp

theorem authentication_accepts_lines_witness:
  "\<exists>s'. authentication (thread_at (RxData (ftp_wire AUTH_REQUEST unused 4) # [RxData ([97, 32, 98] @ [0])])
      (file_lines [[99, 32, 100], [97, 32, 98]]) no_files) = ret (0, s')"
  using authentication_accepts_lines [OF thread_at_simps(1) requests_thread_at [of "[97, 32, 98] @ [0]" AUTH_REQUEST "[]"],
      where ls = "[[99, 32, 100], [97, 32, 98]]"]
  by (force simp: short_line_def)

lemma authentication_ret:
  assumes "authentication t = ret (r, t')"
  obtains buf status where "access_scan buf (access_file t) = (status, access_file t')"
    "r = (if status then 0 else 1)"
proof -
  from assms obtain len m t1 n l t2 where
    "recv_header t = ret (len, m, t1)" "recv_data n t1 = ret (l, t2)" and
    k: "(case access_scan (cbuf t2) (access_file t2) of (status, r) \<Rightarrow>
         andthen (send_header AUTH_REPLY (if status then 1 else 0) 0 (t2\<lparr>access_file := r\<rparr>)) (\<lambda>s.
         ret (if status then 0 else 1, s))) = ret (r, t')"
    unfolding authentication_def by (auto split: if_splits)
  then have "access_file t2 = access_file t" by (auto simp: recv_header_def recv_data_def)
  moreover obtain status a where sc: "access_scan (cbuf t2) (access_file t2) = (status, a)" by fastforce
  moreover have "access_file t' = a \<and> r = (if status then 0 else 1)"
    using k by (auto simp: sc send_header_def split: if_splits)
  ultimately show thesis using that by metis
qed

text \<open>once a client has been rejected, no credentials are accepted on that connection any more:
  the file was read to its end and is never rewound.\<close>

theorem no_login_after_rejection:
  assumes "authentication s = ret (1, s1)" "authentication s1 = ret (again, s2)"
  shows "again = 1"
proof -
  obtain buf status where "access_scan buf (access_file s) = (status, access_file s1)" "(1 :: int) = (if status then 0 else 1)"
    by (rule authentication_ret [OF assms(1)])
  then have e: "access_file s1 = []" using access_scan_rejects by (cases status) simp_all
  obtain buf2 status2 where a: "access_scan buf2 (access_file s1) = (status2, access_file s2)"
    "again = (if status2 then 0 else 1)"
    by (rule authentication_ret [OF assms(2)])
  have "access_scan buf2 [] = (False, [])" by (subst access_scan.simps) simp
  with a e show ?thesis by simp
qed

text \<open>The right password at the second attempt.\<close>

definition two_attempts :: ftp_thread where
  "two_attempts = thread_at (RxData (ftp_wire AUTH_REQUEST unused (int (length ([98] @ [0 :: byte])))) # RxData ([98] @ [0]) #
     [RxData (ftp_wire AUTH_REQUEST unused (int (length ([97] @ [0 :: byte])))), RxData ([97] @ [0])]) (file_lines [[97]]) no_files"

theorem no_login_after_rejection_witness:
  "\<exists>s1 s2. authentication two_attempts = ret (1, s1) \<and> authentication s1 = ret (1, s2) \<and>
     requests AUTH_REQUEST ([97] @ [0]) [] s1 \<and> access_file two_attempts = file_lines [[97]]"
proof -
  let ?q = "[RxData (ftp_wire AUTH_REQUEST unused (int (length ([97] @ [0 :: byte])))), RxData ([97] @ [0])]"
  have r: "requests AUTH_REQUEST ([98] @ [0]) ?q two_attempts"
    unfolding two_attempts_def by (rule requests_thread_at) simp
  have rd: "ready two_attempts" by (simp add: two_attempts_def)
  from authentication_request [OF rd r] obtain rest where
    "authentication two_attempts = (case access_scan (([98] @ [0]) @ rest) (file_lines [[97]]) of (status, r) \<Rightarrow>
     ret (if status then 0 else 1, (say (ftp_wire AUTH_REPLY (if status then 1 else 0) 0)
       ((at_segs ?q two_attempts)\<lparr>cbuf := ([98] @ [0]) @ rest\<rparr>))\<lparr>access_file := r\<rparr>))"
    and l: "length ([98 :: byte] @ [0]) + length rest = 1000"
    by (auto simp: two_attempts_def)
  moreover have "access_scan (([98] @ [0]) @ rest) (file_lines [[97]]) = (False, [])"
    using access_scan_lines [of "[[97]]" "([98] @ [0]) @ rest"] by (simp add: short_line_def cstr_def)
  ultimately obtain s1 where s1: "authentication two_attempts = ret (1, s1)" "ready s1" "rxq (csock s1) = ?q"
    using rd by (simp del: append.simps)
  have r1: "requests AUTH_REQUEST ([97] @ [0]) [] s1"
    unfolding requests_def s1(3) by (intro exI [of _ unused] exI [of _ "[RxData ([97] @ [0])]"]) simp
  from authentication_request [OF s1(2) r1] obtain again s2 where s2: "authentication s1 = ret (again, s2)"
    unfolding case_prod_beta by auto
  from no_login_after_rejection [OF s1(1) s2] s1 s2 r1 show ?thesis by (auto simp: two_attempts_def)
qed

text \<open>a line of \<open>access.txt\<close> longer than the buffer of \<open>fgets\<close> is taken in pieces, so that the
  piece after its first 79 characters alone is accepted as credentials.\<close>

theorem long_line_accepts_its_tail:
  assumes "ready s" "requests AUTH_REQUEST (cred @ [0]) q s" "short_line cred"
    and "access_file s = (a @ cred) @ 10 # r" "length a = 79" "0 \<notin> set a" "10 \<notin> set a"
  shows "\<exists>s'. authentication s = ret (0, s')"
proof -
  have c: "0 \<notin> set cred" "10 \<notin> set cred" "length cred \<le> 78" using assms(3) by (simp_all add: short_line_def)
  have l: "length (cred @ [0]) \<le> 1000" using c by simp
  from authentication_request [OF assms(1,2) l] obtain rest where
    a: "authentication s = (case access_scan ((cred @ [0]) @ rest) (access_file s) of (status, r) \<Rightarrow>
     ret (if status then 0 else 1, (say (ftp_wire AUTH_REPLY (if status then 1 else 0) 0)
       ((at_segs q s)\<lparr>cbuf := (cred @ [0]) @ rest\<rparr>))\<lparr>access_file := r\<rparr>))" by blast
  have b: "cstr ((cred @ [0]) @ rest) = cred" using c by simp
  have f1: "fgets 79 ((a @ cred) @ 10 # r) = (a, cred @ 10 # r)"
    using fgets_full [OF assms(7), of "cred @ 10 # r"] assms(5) by simp
  have f2: "fgets 79 (cred @ 10 # r) = (cred @ [10], r)" by (rule fgets_line) (use c in simp_all)
  have "fst (access_scan ((cred @ [0]) @ rest) (cred @ 10 # r))"
    by (subst access_scan.simps) (simp add: f2 b chop_line_newline c del: append_assoc)
  then have "fst (access_scan ((cred @ [0]) @ rest) (access_file s))"
    using assms(4) by (subst access_scan.simps) (simp add: f1 del: append_assoc)
  with a show ?thesis by (auto split: prod.splits)
qed

theorem long_line_accepts_its_tail_witness:
  "\<exists>s'. authentication (thread_at (RxData (ftp_wire AUTH_REQUEST unused 2) # [RxData ([98] @ [0])])
      (file_lines [replicate 79 97 @ [98]]) no_files) = ret (0, s')"
  using long_line_accepts_its_tail [OF thread_at_simps(1) requests_thread_at [of "[98] @ [0]" AUTH_REQUEST "[]"],
      where a = "replicate 79 97" and r = "[]"]
  by (simp add: short_line_def file_lines_def)

section \<open>Files\<close>

text \<open>The state of a thread whose buffer does not matter.\<close>

lemma file_name_payload:
  "0 \<notin> set name \<Longrightarrow> length name \<le> 256 \<Longrightarrow> cbuf s = (name @ [0]) @ rest \<Longrightarrow> file_name s = ret name"
  by (simp add: file_name_def Let_def)

lemma service_request:
  assumes "requests t payload q s" "length payload \<le> 1000" "ready s"
    and "t \<in> {GET_REQUEST, PUT_REQUEST}"
  shows "\<exists>m p rest. payload_of m = ret (int (length payload)) \<and> length payload + length rest = 1000 \<and>
    ftp_serviceHandler Linux s = andthen (if t = GET_REQUEST then beDownload Linux m (at_segs p s) else beUpload m (at_segs p s)) (\<lambda>s. ret (1, s)) \<and>
    recv_data (int (length payload)) (at_segs p s) = ret (int (length payload), (at_segs q s)\<lparr>cbuf := payload @ rest\<rparr>)"
proof -
  obtain st p where h: "recv_header s = ret (12, ftp_host t st (int (length payload)), at_segs (p @ q) s)"
    "payload_of (ftp_host t st (int (length payload))) = ret (int (length payload))" "data_segs p" "rx_bytes p = payload"
    by (rule requests_header [OF assms(1,2)])
  from requests_payload [OF h(3,4) assms(2,3), of q] obtain rest where
    d: "recv_data (int (length payload)) (at_segs (p @ q) s) = ret (int (length payload), (at_segs q s)\<lparr>cbuf := payload @ rest\<rparr>)"
    "length payload + length rest = 1000" by blast
  have "ftp_serviceHandler Linux s = andthen (if t = GET_REQUEST then beDownload Linux (ftp_host t st (int (length payload))) (at_segs (p @ q) s)
      else beUpload (ftp_host t st (int (length payload))) (at_segs (p @ q) s)) (\<lambda>s. ret (1, s))"
    using assms(4) by (auto simp: ftp_serviceHandler_def h(1) ftp_types)
  with d h(2) show ?thesis by blast
qed

lemma download_sent:
  assumes "ready s" "requests GET_REQUEST (name @ [0]) q s" "0 \<notin> set name" "length name \<le> 256"
    and "dirents (files s) = Some names" "length names < 512" "name \<in> set names" "name \<notin> {[46], [46, 46]}"
    and "contents (files s) (filedir @ name) = Some bytes" "12 + int (length bytes) \<le> int_max"
  shows "\<exists>s'. ftp_serviceHandler True s = ret (1, s') \<and> ready s' \<and> rxq (csock s') = q \<and> files s' = files s \<and>
    sent (csock s') = sent (csock s) @ ftp_wire GET_REPLY 1 0 @ ftp_wire FILE_DATA unused (int (length bytes)) @ bytes"
proof -
  have l: "length (name @ [0]) \<le> 1000" using assms(4) by simp
  obtain m p rest where h: "payload_of m = ret (int (length (name @ [0])))" "length (name @ [0]) + length rest = 1000"
    "ftp_serviceHandler True s = andthen (beDownload True m (at_segs p s)) (\<lambda>s. ret (1, s))"
    "recv_data (int (length (name @ [0]))) (at_segs p s) = ret (int (length (name @ [0])), (at_segs q s)\<lparr>cbuf := (name @ [0]) @ rest\<rparr>)"
    using service_request [OF assms(2) l assms(1), of True] by auto
  let ?s = "(at_segs q s)\<lparr>cbuf := (name @ [0]) @ rest\<rparr>"
  have r: "ready ?s" using assms(1) h(2) by simp
  have n: "file_name ?s = ret name" by (rule file_name_payload [OF assms(3,4)]) simp
  have f: "fileSearch True name (files s) = ret True"
    using assms(5-7) by (simp add: fileSearch_def readDir_def)
  have g: "send_header GET_REPLY 1 0 ?s = ret (say (ftp_wire GET_REPLY 1 0) ?s)"
    by (rule send_header_ready [OF r]) simp_all
  have "ready (say (ftp_wire GET_REPLY 1 0) ?s)" using r by (simp only: ready_simps(1))
  from send_file_content [OF this assms(10)] obtain buf where
    b: "send_file bytes (say (ftp_wire GET_REPLY 1 0) ?s) = ret ((say (ftp_wire FILE_DATA unused (int (length bytes)) @ bytes)
        (say (ftp_wire GET_REPLY 1 0) ?s))\<lparr>cbuf := buf\<rparr>)" "length buf = 1000" by blast
  have "beDownload True m (at_segs p s) = send_file bytes (say (ftp_wire GET_REPLY 1 0) ?s)"
    unfolding beDownload_def h(1,4) andthen_simps prod.case
    using assms(8,9) by (simp add: n f g del: append_assoc)
  with h(3) b assms(1) show ?thesis by simp
qed

text \<open>a download of a file in \<open>filedir\<close> sends the positive reply, a data header with the length of
  the file and exactly the bytes of the file, whatever its size.\<close>

theorem download_sends_file:
  assumes "ready s" "requests GET_REQUEST (name @ [0]) q s" "0 \<notin> set name" "length name \<le> 256"
    and "dirents (files s) = Some names" "length names < 512" "name \<in> set names" "name \<notin> {[46], [46, 46]}"
    and "contents (files s) (filedir @ name) = Some bytes" "12 + int (length bytes) \<le> int_max"
  shows "\<exists>s'. ftp_serviceHandler True s = ret (1, s') \<and> ready s' \<and> rxq (csock s') = q \<and> files s' = files s \<and>
    sent (csock s') = sent (csock s) @ ftp_wire GET_REPLY 1 0 @ ftp_wire FILE_DATA unused (int (length bytes)) @ bytes"
  using assms by (rule download_sent)

definition two_files :: filesystem where
  "two_files = \<lparr>contents = [filedir @ [97] \<mapsto> replicate 2500 1, filedir @ [98] \<mapsto> [1, 2, 3, 4]],
     dirents = Some [[46], [46, 46], [97], [98]], writable = (\<lambda>p. True)\<rparr>"

theorem download_sends_file_witness:
  "\<exists>s'. ftp_serviceHandler True (thread_at (RxData (ftp_wire GET_REQUEST unused 2) # [RxData ([97] @ [0])]) [] two_files) = ret (1, s') \<and>
    sent (csock s') = ftp_wire GET_REPLY 1 0 @ ftp_wire FILE_DATA unused 2500 @ replicate 2500 1"
  using download_sends_file [OF thread_at_simps(1) requests_thread_at [of "[97] @ [0]" GET_REQUEST "[]" "[]" two_files],
      where names = "[[46], [46, 46], [97], [98]]" and bytes = "replicate 2500 1"]
  by (force simp: two_files_def)

lemma upload_stored:
  assumes "ready s" "requests PUT_REQUEST (name @ [0]) (RxData (ftp_wire t st (int (length data))) # p @ q) s"
    and "0 \<notin> set name" "length name \<le> 256" "writable (files s) (filedir @ name)"
    and "data_segs p" "rx_bytes p = data" "12 + int (length data) \<le> int_max"
  shows "\<exists>s'. ftp_serviceHandler Linux s = ret (1, s') \<and> ready s' \<and> rxq (csock s') = q \<and>
    sent (csock s') = sent (csock s) @ ftp_wire PUT_REPLY unused 0 \<and>
    contents (files s') = (contents (files s))(filedir @ name \<mapsto>
      data @ (case contents (files s) (filedir @ name) of None \<Rightarrow> [] | Some old \<Rightarrow> drop (length data) old)) \<and>
    dirents (files s') = (if contents (files s) (filedir @ name) = None \<and> plain_name name
      then map_option (\<lambda>ns. ns @ [name]) (dirents (files s)) else dirents (files s))"
proof -
  let ?q = "RxData (ftp_wire t st (int (length data))) # p @ q"
  have l: "length (name @ [0]) \<le> 1000" using assms(4) by simp
  obtain m p' rest where h: "payload_of m = ret (int (length (name @ [0])))" "length (name @ [0]) + length rest = 1000"
    "ftp_serviceHandler Linux s = andthen (beUpload m (at_segs p' s)) (\<lambda>s. ret (1, s))"
    "recv_data (int (length (name @ [0]))) (at_segs p' s) = ret (int (length (name @ [0])), (at_segs ?q s)\<lparr>cbuf := (name @ [0]) @ rest\<rparr>)"
    using service_request [OF assms(2) l assms(1), of Linux] by (auto simp: ftp_types)
  let ?s = "(at_segs ?q s)\<lparr>cbuf := (name @ [0]) @ rest\<rparr>"
  have r: "ready ?s" using assms(1) h(2) by simp
  have n: "file_name ?s = ret name" by (rule file_name_payload [OF assms(3,4)]) simp
  define old where "old = (case contents (files s) (filedir @ name) of None \<Rightarrow> [] | Some c \<Rightarrow> c)"
  obtain f where f: "open_write name (files s) = Some f" "contents f = (contents (files s))(filedir @ name \<mapsto> old)"
    "dirents f = (if contents (files s) (filedir @ name) = None \<and> plain_name name
      then map_option (\<lambda>ns. ns @ [name]) (dirents (files s)) else dirents (files s))"
  proof (cases "contents (files s) (filedir @ name)")
    case None
    show thesis
      by (rule that [of "(files s)\<lparr>contents := (contents (files s))(filedir @ name := Some []),
           dirents := map_option (\<lambda>ns. if plain_name name then ns @ [name] else ns) (dirents (files s))\<rparr>"])
        (use assms(5) None in \<open>auto simp: open_write_def old_def option.map_ident\<close>)
  next
    case (Some c)
    show thesis
      by (rule that [of "files s"]) (use assms(5) Some in \<open>auto simp: open_write_def old_def fun_upd_idem\<close>)
  qed
  let ?s2 = "say (ftp_wire PUT_REPLY unused 0) (?s\<lparr>files := f\<rparr>)"
  have g: "send_header PUT_REPLY unused 0 (?s\<lparr>files := f\<rparr>) = ret ?s2"
    by (rule send_header_ready) (use r in simp_all)
  have r2: "ready ?s2" using r by (simp only: ready_simps)
  have "rxq (csock ?s2) = ?q" "contents (files ?s2) (filedir @ name) = Some old" using f(2) by simp_all
  from receive_file_content [OF r2 this(1) assms(6-8) this(2)] obtain s' where
    s': "receive_file (filedir @ name) ?s2 = ret s'" "ready s'" "rxq (csock s') = q" "sent (csock s') = sent (csock ?s2)"
    "files s' = write_file (filedir @ name) (data @ drop (length data) old) (files ?s2)" by blast
  have "beUpload m (at_segs p' s) = ret s'"
    unfolding beUpload_def h(1,4) andthen_simps prod.case using s'(1) by (simp add: n f(1) g del: append_assoc)
  moreover have "data @ drop (length data) old = data @ (case contents (files s) (filedir @ name) of None \<Rightarrow> [] | Some old \<Rightarrow> drop (length data) old)"
    by (simp add: old_def split: option.splits)
  ultimately show ?thesis
    using h(3) s' f(2,3) by (auto simp: write_file_def)
qed

text \<open>C30: an upload answers, and then the file holds the uploaded bytes followed by what an older
  file had beyond their length; nothing else in the file system changes, and a new name is listed. The
  name is used as it came, so one that leads out of \<open>filedir\<close> is written there.\<close>

theorem upload_stores_file:
  assumes "ready s" "requests PUT_REQUEST (name @ [0]) (RxData (ftp_wire t st (int (length data))) # p @ q) s"
    and "0 \<notin> set name" "length name \<le> 256" "writable (files s) (filedir @ name)"
    and "data_segs p" "rx_bytes p = data" "12 + int (length data) \<le> int_max"
  shows "\<exists>s'. ftp_serviceHandler Linux s = ret (1, s') \<and> ready s' \<and> rxq (csock s') = q \<and>
    sent (csock s') = sent (csock s) @ ftp_wire PUT_REPLY unused 0 \<and>
    contents (files s') = (contents (files s))(filedir @ name \<mapsto>
      data @ (case contents (files s) (filedir @ name) of None \<Rightarrow> [] | Some old \<Rightarrow> drop (length data) old)) \<and>
    dirents (files s') = (if contents (files s) (filedir @ name) = None \<and> plain_name name
      then map_option (\<lambda>ns. ns @ [name]) (dirents (files s)) else dirents (files s))"
  using assms by (rule upload_stored)

text \<open>A shorter upload over the four bytes of file \<open>b\<close> leaves its last two in place.\<close>

theorem upload_stores_file_witness:
  "\<exists>s'. ftp_serviceHandler True (thread_at (RxData (ftp_wire PUT_REQUEST unused 2) # RxData ([98] @ [0]) #
      [RxData (ftp_wire FILE_DATA unused 2), RxData [9, 9]]) [] two_files) = ret (1, s') \<and>
    contents (files s') (filedir @ [98]) = Some [9, 9, 3, 4]"
proof -
  let ?s = "thread_at (RxData (ftp_wire PUT_REQUEST unused 2) # RxData ([98] @ [0]) #
      [RxData (ftp_wire FILE_DATA unused 2), RxData [9, 9]]) [] two_files"
  have r: "requests PUT_REQUEST ([98] @ [0]) (RxData (ftp_wire FILE_DATA unused (int (length [9 :: byte, 9]))) # [RxData [9, 9]] @ []) ?s"
    unfolding requests_def by (intro exI [of _ unused] exI [of _ "[RxData ([98] @ [0])]"]) simp
  have "writable (files ?s) (filedir @ [98])" by (simp add: two_files_def)
  from upload_stores_file [OF thread_at_simps(1) r _ _ this, of True] show ?thesis
    by (force simp: two_files_def)
qed

text \<open>C31: a file that is uploaded under a new name in \<open>filedir\<close> and then asked for comes back byte for
  byte, behind a header with its length.\<close>

theorem upload_download_roundtrip:
  assumes "ready s" "requests PUT_REQUEST (name @ [0]) (RxData (ftp_wire t st (int (length data))) # p @ q) s"
    and "q = RxData (ftp_wire GET_REQUEST st' (int (length name) + 1)) # p' @ q'"
    and "data_segs p" "rx_bytes p = data" "data_segs p'" "rx_bytes p' = name @ [0]"
    and "0 \<notin> set name" "length name \<le> 256" "plain_name name" "writable (files s) (filedir @ name)"
    and "contents (files s) (filedir @ name) = None" "dirents (files s) = Some names" "length names < 511"
    and "12 + int (length data) \<le> int_max"
  shows "\<exists>s1 s2. ftp_serviceHandler True s = ret (1, s1) \<and> ftp_serviceHandler True s1 = ret (1, s2) \<and>
    rxq (csock s2) = q' \<and> sent (csock s2) = sent (csock s) @ ftp_wire PUT_REPLY unused 0 @
      ftp_wire GET_REPLY 1 0 @ ftp_wire FILE_DATA unused (int (length data)) @ data"
proof -
  from upload_stored [OF assms(1,2,8,9,11,4,5,15), of True] obtain s1 where
    u: "ftp_serviceHandler True s = ret (1, s1)" "ready s1" "rxq (csock s1) = q"
    "sent (csock s1) = sent (csock s) @ ftp_wire PUT_REPLY unused 0"
    "contents (files s1) = (contents (files s))(filedir @ name \<mapsto> data)"
    "dirents (files s1) = Some (names @ [name])"
    using assms(10,12,13) by auto
  have r: "requests GET_REQUEST (name @ [0]) q' s1"
    unfolding requests_def u(3) assms(3) using assms(6,7) by (intro exI [of _ st'] exI [of _ p']) (simp add: add.commute)
  have n: "length (names @ [name]) < 512" "name \<in> set (names @ [name])" "name \<notin> {[46], [46, 46]}"
    "contents (files s1) (filedir @ name) = Some data"
    using assms(10,14) u(5) by (simp_all add: plain_name_def)
  from download_sent [OF u(2) r assms(8,9) u(6) n assms(15)] u(1,4) show ?thesis by auto
qed

theorem upload_download_roundtrip_witness:
  "\<exists>s1 s2. ftp_serviceHandler True (thread_at (RxData (ftp_wire PUT_REQUEST unused 2) # RxData ([99] @ [0]) #
      [RxData (ftp_wire FILE_DATA unused 3), RxData [5, 0], RxData [6],
       RxData (ftp_wire GET_REQUEST unused 2), RxData ([99] @ [0])]) [] two_files) = ret (1, s1) \<and>
    ftp_serviceHandler True s1 = ret (1, s2) \<and>
    sent (csock s2) = ftp_wire PUT_REPLY unused 0 @ ftp_wire GET_REPLY 1 0 @ ftp_wire FILE_DATA unused 3 @ [5, 0, 6]"
proof -
  let ?q = "RxData (ftp_wire GET_REQUEST unused (int (length [99 :: byte]) + 1)) # [RxData ([99] @ [0])] @ []"
  let ?s = "thread_at (RxData (ftp_wire PUT_REQUEST unused 2) # RxData ([99] @ [0]) #
      [RxData (ftp_wire FILE_DATA unused 3), RxData [5, 0], RxData [6],
       RxData (ftp_wire GET_REQUEST unused 2), RxData ([99] @ [0])]) [] two_files"
  have r: "requests PUT_REQUEST ([99] @ [0]) (RxData (ftp_wire FILE_DATA unused (int (length [5 :: byte, 0, 6]))) #
      [RxData [5, 0], RxData [6]] @ ?q) ?s"
    unfolding requests_def by (intro exI [of _ unused] exI [of _ "[RxData ([99] @ [0])]"]) simp
  have w: "writable (files ?s) (filedir @ [99])" "contents (files ?s) (filedir @ [99]) = None"
    "dirents (files ?s) = Some [[46], [46, 46], [97], [98]]"
    by (simp_all add: two_files_def)
  have "\<exists>s1 s2. ftp_serviceHandler True ?s = ret (1, s1) \<and> ftp_serviceHandler True s1 = ret (1, s2) \<and>
    rxq (csock s2) = [] \<and> sent (csock s2) = sent (csock ?s) @ ftp_wire PUT_REPLY unused 0 @
      ftp_wire GET_REPLY 1 0 @ ftp_wire FILE_DATA unused (int (length [5 :: byte, 0, 6])) @ [5, 0, 6]"
    by (rule upload_download_roundtrip [OF thread_at_simps(1) r refl _ _ _ _ _ _ _ w(1-3)]) (simp_all add: plain_name_def)
  then show ?thesis by simp blast
qed

section \<open>Requests that end a client or the server\<close>

text \<open>a header of the protocol whose type is none of list, get and put, and anything that is not
  a whole header of the protocol, end the client: it gets \<open>QUIT_REPLY\<close> and its thread leaves the
  service loop.\<close>

theorem other_requests_close:
  assumes "ready s" "ftp_msgReceiver (csock s) = ret (len, m, c)" "txq c = []"
    and "ftp_protocol m = ftp_magicNum \<and> len = 12 \<longrightarrow> ftp_type m \<notin> {LIST_REQUEST, GET_REQUEST, PUT_REQUEST}"
  shows "ftp_service_loop Linux s = ret (say (ftp_wire QUIT_REPLY unused 0) (s\<lparr>csock := c\<rparr>))"
proof -
  have r: "ready (s\<lparr>csock := c\<rparr>)" using assms(1,3) by (simp add: ready_def)
  have g: "send_header QUIT_REPLY unused 0 (s\<lparr>csock := c\<rparr>) = ret (say (ftp_wire QUIT_REPLY unused 0) (s\<lparr>csock := c\<rparr>))"
    by (rule send_header_ready [OF r]) simp_all
  have "ftp_serviceHandler Linux s = ret (0, say (ftp_wire QUIT_REPLY unused 0) (s\<lparr>csock := c\<rparr>))"
    using assms(4) by (auto simp: ftp_serviceHandler_def recv_header_def assms(2) ftp_client_close_def g)
  then show ?thesis by (simp add: ftp_service_loop.simps)
qed

text \<open>The peer has closed without a word.\<close>

theorem other_requests_close_witness:
  "\<exists>s'. ftp_service_loop True (thread_at [] [] no_files) = ret s' \<and> sent (csock s') = ftp_wire QUIT_REPLY unused 0"
proof -
  obtain m where m: "ftp_msgReceiver (csock (thread_at [] [] no_files)) = ret (0, m, csock (thread_at [] [] no_files))"
    using ftp_msgReceiver_eof [of "csock (thread_at [] [] no_files)"] by (auto simp: thread_at_def)
  have "txq (csock (thread_at [] [] no_files)) = []" by (simp add: thread_at_def)
  from other_requests_close [OF thread_at_simps(1) m this, of True] show ?thesis by simp
qed

text \<open>a get or put request that announces a length below that of the header ends the whole
  server process, all its clients included.\<close>

theorem short_length_ends_server:
  assumes "rxq (csock s) = RxData (ftp_wire t st n) # q" "t \<in> {GET_REQUEST, PUT_REQUEST}"
    and "-12 \<le> n" "n < 0" "8 \<le> length (cbuf s)"
  shows "ftp_serviceHandler Linux s = halt (Exit 0)"
proof -
  let ?s = "s\<lparr>csock := (csock s)\<lparr>rxq := q\<rparr>\<rparr>"
  have h: "recv_header s = ret (12, ftp_host t st n, ?s)" by (rule recv_header_wire [OF assms(1)])
  have p: "payload_of (ftp_host t st n) = ret n"
    using sint_word_of_int [of "12 + n"] assms(3,4) by (simp only: payload_of_def ftp_host_fields) simp
  have "\<exists>buf. recv_data n ?s = ret (0, ?s\<lparr>cbuf := buf\<rparr>)"
    using assms(4,5) by (auto simp: recv_data_def ftp_dataReceiver_def blit_def recv_loop.simps
        intro!: exI [of _ "replicate 8 0 @ drop 8 (cbuf s)"])
  then have "beDownload Linux (ftp_host t st n) ?s = halt (Exit 0)" "beUpload (ftp_host t st n) ?s = halt (Exit 0)"
    using assms(4) by (auto simp: beDownload_def beUpload_def p)
  with assms(2) show ?thesis by (auto simp: ftp_serviceHandler_def h ftp_types)
qed

theorem short_length_ends_server_witness:
  "ftp_serviceHandler True (thread_at [RxData (ftp_wire GET_REQUEST unused (-12))] [] no_files) = halt (Exit 0)"
  by (rule short_length_ends_server [where q = "[]" and t = GET_REQUEST and n = "-12" and st = unused]) (simp_all add: thread_at_def)

text \<open>a payload longer than the 1000-byte buffer is received past its end: the announced length
  is never compared with the size of the buffer.\<close>

theorem long_payload_overruns:
  assumes "rxq (csock s) = RxData (ftp_wire t st n) # q" "t \<in> {GET_REQUEST, PUT_REQUEST}"
    and "1000 < n" "12 + n \<le> int_max" "length (cbuf s) = 1000" "data_segs q" "1000 < length (rx_bytes q)"
  shows "ftp_serviceHandler Linux s = halt OutOfBounds"
proof -
  let ?s = "s\<lparr>csock := (csock s)\<lparr>rxq := q\<rparr>\<rparr>"
  have h: "recv_header s = ret (12, ftp_host t st n, ?s)" by (rule recv_header_wire [OF assms(1)])
  have p: "payload_of (ftp_host t st n) = ret n" by (rule payload_of_host) (use assms(3,4) in simp_all)
  have "healthy (csock ?s)" "pending (csock ?s) = rx_bytes q"
    using assms(6) by (simp_all add: healthy_def data_segs_def pending_def)
  then have "recv_loop conn_recv (int (nat n)) 0 0 (replicate 8 0 @ drop 8 (cbuf s)) (csock ?s) = halt OutOfBounds"
    by (intro tcp_in.recv_loop_overrun) (use assms(3,5,7) in simp_all)
  then have "recv_data n ?s = halt OutOfBounds"
    using assms(3,5) by (simp add: recv_data_def ftp_dataReceiver_def blit_def)
  then have "beDownload Linux (ftp_host t st n) ?s = halt OutOfBounds" "beUpload (ftp_host t st n) ?s = halt OutOfBounds"
    by (simp_all add: beDownload_def beUpload_def p)
  with assms(2) show ?thesis by (auto simp: ftp_serviceHandler_def h ftp_types)
qed

theorem long_payload_overruns_witness:
  "ftp_serviceHandler True (thread_at [RxData (ftp_wire PUT_REQUEST unused 1001), RxData (replicate 1001 0)] [] no_files)
     = halt OutOfBounds"
  by (rule long_payload_overruns [where q = "[RxData (replicate 1001 0)]" and t = PUT_REQUEST and n = 1001 and st = unused]) (simp_all add: thread_at_def)

text \<open>when the macro \<open>Linux\<close> is not defined, the listing is empty whatever the directory holds,
  and no file can be downloaded.\<close>

theorem nothing_listed_without_macro:
  assumes "ready s"
  shows "\<exists>s'. listFile False s = ret s' \<and> sent (csock s') = sent (csock s) @ ftp_wire LIST_REPLY unused 1 @ [0] \<and>
    fileSearch False name (files s) = ret False"
proof -
  have l: "length (cbuf s) = 1000" using assms by (simp add: ready_def)
  let ?b = "[0] @ drop 1 (replicate 8 0 @ drop 8 (cbuf s))"
  have g: "listGen False s = ret (0, s\<lparr>cbuf := ?b\<rparr>)"
    using l by (cases "dirents (files s)") (simp_all add: listGen_def readDir_def Let_def blit_def)
  have r: "ready (s\<lparr>cbuf := ?b\<rparr>)" using assms l by simp
  have h: "send_header LIST_REPLY unused 1 (s\<lparr>cbuf := ?b\<rparr>) = ret (say (ftp_wire LIST_REPLY unused 1) (s\<lparr>cbuf := ?b\<rparr>))"
    by (rule send_header_ready [OF r]) simp_all
  have r2: "ready (say (ftp_wire LIST_REPLY unused 1) (s\<lparr>cbuf := ?b\<rparr>))" using r by (simp only: ready_simps)
  have "send_data_out 1 (say (ftp_wire LIST_REPLY unused 1) (s\<lparr>cbuf := ?b\<rparr>)) =
      ret (say [0] (say (ftp_wire LIST_REPLY unused 1) (s\<lparr>cbuf := ?b\<rparr>)))"
    using send_data_out_ready [OF r2, of 1] by simp
  then have "listFile False s = ret (say [0] (say (ftp_wire LIST_REPLY unused 1) (s\<lparr>cbuf := ?b\<rparr>)))"
    by (simp only: listFile_def g andthen_simps prod.case h add_0)
  moreover have "fileSearch False name (files s) = ret False"
    by (cases "dirents (files s)") (simp_all add: fileSearch_def readDir_def)
  ultimately show ?thesis by simp
qed

theorem nothing_listed_without_macro_witness:
  "\<exists>s'. listFile False (thread_at [] [] two_files) = ret s' \<and> sent (csock s') = ftp_wire LIST_REPLY unused 1 @ [0] \<and>
    fileSearch False [97] two_files = ret False"
  using nothing_listed_without_macro [OF thread_at_simps(1), of "[]" "[]" two_files "[97]"] by simp

text \<open>with the macro defined, a listing sends a header with the length of the text, and the
  names of the directory without \<open>.\<close> and \<open>..\<close>, one per line with a NUL at the end, provided the
  text fits the buffer.\<close>

theorem listing_shows_names:
  assumes "ready s" "dirents (files s) = Some names" "length names < 512"
    and "text = concat (map (\<lambda>n. n @ [10]) (filter (\<lambda>n. n \<noteq> [46] \<and> n \<noteq> [46, 46]) names))"
    and "length text < 1000" "\<forall>n \<in> set names. length n \<le> 254"
  shows "\<exists>s'. listFile True s = ret s' \<and> files s' = files s \<and>
    sent (csock s') = sent (csock s) @ ftp_wire LIST_REPLY unused (int (length text) + 1) @ text @ [0]"
proof -
  have l: "length (cbuf s) = 1000" using assms(1) by (simp add: ready_def)
  let ?b = "(text @ [0]) @ drop (length text + 1) (replicate 8 0 @ drop 8 (cbuf s))"
  have sh: "list_all (\<lambda>n. length n + 2 \<le> 256) (filter (\<lambda>n. n \<noteq> [46] \<and> n \<noteq> [46, 46]) names)"
    using assms(6) by (auto simp: list_all_iff)
  have g: "listGen True s = ret (int (length text), s\<lparr>cbuf := ?b\<rparr>)"
    using l assms(2,3,5) sh
    by (simp add: listGen_def readDir_def Let_def blit_def flip: assms(4) del: append_assoc)
  have lb: "length ?b = 1000" using l assms(5) by simp
  have r: "ready (s\<lparr>cbuf := ?b\<rparr>)" using assms(1) lb by (simp del: append_assoc)
  have h: "send_header LIST_REPLY unused (int (length text) + 1) (s\<lparr>cbuf := ?b\<rparr>)
      = ret (say (ftp_wire LIST_REPLY unused (int (length text) + 1)) (s\<lparr>cbuf := ?b\<rparr>))"
    by (rule send_header_ready [OF r]) (use assms(5) in simp_all)
  have r2: "ready (say (ftp_wire LIST_REPLY unused (int (length text) + 1)) (s\<lparr>cbuf := ?b\<rparr>))"
    using r by (simp only: ready_simps)
  have n: "int (length text) + 1 = int (length text + 1)" and k: "length text + 1 \<le> 1000" using assms(5) by simp_all
  have tk: "take (length text + 1) (cbuf (say (ftp_wire LIST_REPLY unused (int (length text) + 1)) (s\<lparr>cbuf := ?b\<rparr>))) = text @ [0]"
    by simp
  have "send_data_out (int (length text) + 1) (say (ftp_wire LIST_REPLY unused (int (length text) + 1)) (s\<lparr>cbuf := ?b\<rparr>)) =
      ret (say (text @ [0]) (say (ftp_wire LIST_REPLY unused (int (length text) + 1)) (s\<lparr>cbuf := ?b\<rparr>)))"
    unfolding n by (rule trans [OF send_data_out_ready [OF r2 [unfolded n] k]]) (simp only: tk [unfolded n])
  then have "listFile True s = ret (say (text @ [0]) (say (ftp_wire LIST_REPLY unused (int (length text) + 1)) (s\<lparr>cbuf := ?b\<rparr>)))"
    by (simp only: listFile_def g andthen_simps prod.case h)
  then show ?thesis by simp
qed

theorem listing_shows_names_witness:
  "\<exists>s'. listFile True (thread_at [] [] two_files) = ret s' \<and>
     sent (csock s') = ftp_wire LIST_REPLY unused 5 @ [97, 10, 98, 10, 0]"
  using listing_shows_names [OF thread_at_simps(1), of "[]" "[]" two_files "[[46], [46, 46], [97], [98]]"]
  by (force simp: two_files_def)

end
