(* ===== verification/FtpClientSpec.thy ===== *)
theory FtpClientSpec
  imports FtpClient FtpSpec
begin

text \<open>
  The properties of the ftp client, alone and against the server's thread: logging in, what a
  download leaves in the local file, which commands the state machine lets through, and the inputs
  that crash the client.
\<close>

section \<open>Exchanges\<close>

definition cl_say :: "byte list \<Rightarrow> ftp_local \<Rightarrow> ftp_local" where
  "cl_say bs s = s\<lparr>fd := map_option (\<lambda>c. c\<lparr>sent := sent c @ bs\<rparr>) (fd s)\<rparr>"

definition cl_ready :: "ftp_local \<Rightarrow> rx list \<Rightarrow> bool" where
  "cl_ready s q \<longleftrightarrow> (\<exists>c. fd s = Some c \<and> txq c = [] \<and> rxq c = q)"

definition cl_sent :: "ftp_local \<Rightarrow> byte list" where
  "cl_sent s = (case fd s of None \<Rightarrow> [] | Some c \<Rightarrow> sent c)"

definition cl_at :: "rx list \<Rightarrow> ftp_local \<Rightarrow> ftp_local" where
  "cl_at q s = s\<lparr>fd := map_option (\<lambda>c. c\<lparr>rxq := q\<rparr>) (fd s)\<rparr>"

lemma cl_simps [simp]:
  "state (cl_say bs s) = state s" "local_files (cl_say bs s) = local_files s" "local_writable (cl_say bs s) = local_writable s"
  "state (cl_at q s) = state s" "local_files (cl_at q s) = local_files s" "local_writable (cl_at q s) = local_writable s"
  "cl_ready (cl_say bs s) q = cl_ready s q" "cl_ready s q \<Longrightarrow> cl_ready (cl_at q' s) q'"
  "cl_ready s q \<Longrightarrow> cl_sent (cl_say bs s) = cl_sent s @ bs" "cl_sent (cl_at q s) = cl_sent s"
  by (auto simp: cl_say_def cl_at_def cl_ready_def cl_sent_def split: option.splits)

lemma cl_say_say [simp]: "cl_say bs (cl_say cs s) = cl_say (cs @ bs) s"
  by (simp add: cl_say_def option.map_comp o_def)

lemma cl_send_ready: "cl_ready s q \<Longrightarrow> cl_send bs s = ret (cl_say bs s)"
  by (auto simp: cl_ready_def cl_send_def cl_conn_def conn_send_def cl_say_def)

lemma cl_send_header_ready:
  "cl_ready s q \<Longrightarrow> 0 \<le> n \<Longrightarrow> 12 + n \<le> int_max \<Longrightarrow> cl_send_header t n s = ret (cl_say (ftp_wire t unused n) s)"
  by (simp add: cl_send_header_def ftp_msgGeneration_ret cl_send_ready ftp_wire_def)

lemma cl_recv_wire:
  assumes "cl_ready s (RxData (ftp_wire t st n) # q)"
  shows "\<exists>m. cl_recv_header s = ret (12, m, cl_at q s) \<and>
    (\<forall>t' st'. ftp_msgChecker m t' st' 12 = (if t = t' then if st' \<noteq> unused then if st = st' then 0 else 3 else 0 else 2)) \<and>
    (0 \<le> n \<and> 12 + n \<le> int_max \<longrightarrow> host_length m = ret n)"
proof -
  from assms obtain c where c: "fd s = Some c" "txq c = []" "rxq c = RxData (ftp_wire t st n) # q"
    by (auto simp: cl_ready_def)
  let ?m = "\<lparr>ftp_protocol = [0xe3, 109, 121, 102, 116, 112], ftp_type = t, ftp_status = st,
     ftp_length = htonl (word_of_int (12 + n))\<rparr>"
  have "ftp_wf ?m" by (simp add: ftp_wf_def)
  moreover have "rxq c = RxData (ftp_bytes ?m @ []) # q" using c(3) by (simp add: ftp_wire_def)
  ultimately obtain bs where "recv_struct conn_recv 12 c = (12, bs, c\<lparr>rxq := q\<rparr>)" "ftp_of_bytes bs = ?m"
    using ftp_codec.recv_whole [of ?m c "[]" q] by auto
  then have "cl_recv_header s = ret (12, ?m, cl_at q s)"
    using c(1) by (simp add: cl_recv_header_def cl_conn_def cl_at_def)
  moreover have "ftp_msgChecker ?m t' st' 12 = (if t = t' then if st' \<noteq> unused then if st = st' then 0 else 3 else 0 else 2)" for t' st'
    by (simp add: ftp_msgChecker_def ftp_magicNum_def)
  moreover have "host_length ?m = ret n" if "0 \<le> n" "12 + n \<le> int_max"
    using sint_word_of_int [of "12 + n"] that by (simp only: host_length_def ftp_message.simps ntohl_htonl) simp
  ultimately show ?thesis by blast
qed

lemma int_add_pos: "0 < x \<and> x \<le> int n \<Longrightarrow> bs \<noteq> [] \<Longrightarrow> x < int (length bs) + int n"
  by (cases bs) simp_all

lemma last_seg_whole:
  assumes "data_segs p"
  shows "last_seg 0 p = int (length (rx_bytes p)) \<longleftrightarrow> length p \<le> 1"
proof -
  have ne: "data_segs p \<Longrightarrow> p \<noteq> [] \<Longrightarrow> 0 < last_seg l p \<and> last_seg l p \<le> int (length (rx_bytes p))" for l p
  proof (induction p arbitrary: l)
    case (Cons r p)
    from Cons.prems(1) obtain bs where r: "r = RxData bs" "bs \<noteq> []" "data_segs p" by (cases r) auto
    show ?case
    proof (cases "p = []")
      case False
      with Cons.IH [OF r(3) False, of "int (length bs)"] r show ?thesis by simp
    qed (use r in simp)
  qed simp
  show ?thesis
  proof (cases p)
    case (Cons r q)
    with assms obtain bs where r: "r = RxData bs" "bs \<noteq> []" "data_segs q" by (cases r) auto
    show ?thesis
    proof (cases "q = []")
      case False
      from ne [OF r(3) False, of "int (length bs)"] have "last_seg 0 p < int (length (rx_bytes p))"
        using r(2) unfolding Cons r(1) by (simp add: int_add_pos)
      with False Cons show ?thesis by (cases q) auto
    qed (use Cons r in simp)
  qed simp
qed

lemma cl_dataReceiver_segments:
  assumes "rxq c = p @ q" "data_segs p"
  shows "cl_dataReceiver (int (length (rx_bytes p))) (replicate (length (rx_bytes p) + 12) 0) c =
    ret (last_seg 0 p, rx_bytes p @ replicate 12 0, c\<lparr>rxq := q\<rparr>)"
proof -
  let ?b = "replicate (length (rx_bytes p) + 12) (0 :: byte)"
  have n: "nat (int (length (rx_bytes p)) + 12) = length (rx_bytes p) + 12" by simp
  have "recv_loop conn_recv (int (0 + length (rx_bytes p))) 0 0 ?b c =
    ret (0 + length (rx_bytes p), last_seg 0 p, take 0 ?b @ rx_bytes p @ drop (0 + length (rx_bytes p)) ?b, c\<lparr>rxq := q\<rparr>)"
    by (rule recv_loop_segments [OF assms(2,1)]) simp
  then show ?thesis unfolding cl_dataReceiver_def n by (simp add: blit_def)
qed

lemma fsm_loop_next: "fsm_round dial token s = ret (True, s') \<Longrightarrow> fsm_loop dial token s = fsm_loop dial token s'"
  by (subst fsm_loop.simps) simp

lemma fsm_loop_last: "fsm_round dial token s = ret (False, s') \<Longrightarrow> fsm_loop dial token s = ret s'"
  by (subst fsm_loop.simps) simp

section \<open>Logging in\<close>

lemma auth_conn_exchange:
  assumes "cl_ready s (RxData (ftp_wire AUTH_REPLY st n) # q)" "length u + length v \<le> 1000"
  shows "auth_conn [a, u, v] s = ret ((cl_at q (cl_say (ftp_wire AUTH_REQUEST unused (int (length u) + int (length v) + 2) @
    str_bytes u @ [32] @ str_bytes v @ [0]) s))\<lparr>state := (if st = 1 then IS_MAIN else IDLE)\<rparr>)"
proof -
  let ?h = "ftp_wire AUTH_REQUEST unused (int (length u) + int (length v) + 2)"
  have s1: "cl_send_header AUTH_REQUEST (int (length u) + int (length v) + 2) s = ret (cl_say ?h s)"
    by (rule cl_send_header_ready [OF assms(1)]) (use assms(2) in simp_all)
  have cs: "cl_send bs (cl_say cs s) = ret (cl_say (cs @ bs) s)" for bs cs
    using cl_send_ready [of "cl_say cs s" "RxData (ftp_wire AUTH_REPLY st n) # q" bs] assms(1) by simp
  let ?s = "cl_say (?h @ str_bytes u @ [32] @ str_bytes v @ [0]) s"
  have "cl_ready ?s (RxData (ftp_wire AUTH_REPLY st n) # q)" using assms(1) by simp
  from cl_recv_wire [OF this] obtain m where
    m: "cl_recv_header ?s = ret (12, m, cl_at q ?s)" "ftp_msgChecker m AUTH_REPLY 1 12 = (if st = 1 then 0 else 3)"
    by (auto simp: ftp_types)
  have b: "str_bytes '' '' = [32]" by (simp add: str_bytes_def)
  show ?thesis using m by (simp add: auth_conn_def s1 cs b)
qed

text \<open>C10: the login of client and server together. What the client sends for \<open>auth USER PASSWORD\<close> is a
  request that the server answers; with that answer the client is in its main state exactly when
  \<open>USER PASSWORD\<close> is a line of \<open>access.txt\<close>, and idle otherwise.\<close>

theorem login_end_to_end:
  assumes "cl_ready s [RxData reply]" "state s = IS_AUTH" "length u + length v \<le> 900" "0 \<notin> set (str_bytes u @ [32] @ str_bytes v)"
    and "ready t" "requests AUTH_REQUEST (str_bytes u @ [32] @ str_bytes v @ [0]) [] t"
    and "access_file t = file_lines ls" "\<forall>l \<in> set ls. short_line l"
    and "authentication t = ret (again, t')" "sent (csock t') = sent (csock t) @ reply"
  shows "\<exists>s'. fsm_control dial [''auth'', u, v] s = ret s' \<and>
    cl_sent s' = cl_sent s @ ftp_wire AUTH_REQUEST unused (int (length (str_bytes u @ [32] @ str_bytes v @ [0]))) @
      str_bytes u @ [32] @ str_bytes v @ [0] \<and>
    state s' = (if str_bytes u @ [32] @ str_bytes v \<in> set ls then IS_MAIN else IDLE)"
proof -
  let ?c = "str_bytes u @ [32] @ str_bytes v"
  have l: "length ?c < 1000" using assms(3) by simp
  have rq: "requests AUTH_REQUEST (?c @ [0]) [] t" using assms(6) by simp
  from authentication_accepted [OF assms(5) rq assms(4) l assms(7,8)] assms(9,10)
  have r: "reply = ftp_wire AUTH_REPLY (if ?c \<in> set ls then 1 else 0) 0" by auto
  let ?s = "(cl_at [] (cl_say (ftp_wire AUTH_REQUEST unused (int (length u) + int (length v) + 2) @ ?c @ [0]) s))
      \<lparr>state := (if ?c \<in> set ls then IS_MAIN else IDLE)\<rparr>"
  have "auth_conn [''auth'', u, v] s = ret ?s"
    using auth_conn_exchange [OF assms(1) [unfolded r], of u v "''auth''"] assms(3) by (auto split: if_splits)
  then have a1: "fsm_round dial [''auth'', u, v] s = ret (True, ?s)" using assms(2) by (simp add: fsm_round_def)
  have a2: "fsm_round dial [''auth'', u, v] ?s = ret (False, ?s)" by (simp add: fsm_round_def)
  have "fsm_loop dial [''auth'', u, v] s = ret ?s"
    by (rule trans [OF fsm_loop_next [OF a1] fsm_loop_last [OF a2]])
  then have "fsm_control dial [''auth'', u, v] s = ret ?s" by (simp add: fsm_control_def)
  moreover have "cl_sent ?s = cl_sent s @ ftp_wire AUTH_REQUEST unused (int (length (?c @ [0]))) @ ?c @ [0]"
    using assms(1) by (auto simp: cl_sent_def cl_at_def cl_say_def cl_ready_def add.commute add.left_commute)
  ultimately show ?thesis by auto
qed

text \<open>The user \<open>u\<close> with password \<open>v\<close>.\<close>

definition waiting_client :: "rx list \<Rightarrow> STATES \<Rightarrow> ftp_local" where
  "waiting_client q st = \<lparr>state = st, fd = Some \<lparr>rxq = q, txq = [], sent = []\<rparr>, local_files = Map.empty,
     local_writable = (\<lambda>p. True)\<rparr>"

lemma waiting_client_simps [simp]:
  "cl_ready (waiting_client q st) q" "state (waiting_client q st) = st" "cl_sent (waiting_client q st) = []"
  "local_files (waiting_client q st) = Map.empty" "local_writable (waiting_client q st) p"
  by (simp_all add: waiting_client_def cl_ready_def cl_sent_def)

theorem login_end_to_end_witness:
  "\<exists>s'. fsm_control (\<lambda>a p. None) [''auth'', ''u'', ''v''] (waiting_client [RxData (ftp_wire AUTH_REPLY 1 0)] IS_AUTH) = ret s' \<and>
     state s' = IS_MAIN"
proof -
  let ?c = "str_bytes ''u'' @ [32] @ str_bytes ''v''"
  let ?t = "thread_at (RxData (ftp_wire AUTH_REQUEST unused (int (length (?c @ [0])))) # RxData (?c @ [0]) # []) (file_lines [?c]) no_files"
  have c: "?c = [117, 32, 118]" by (simp add: str_bytes_def)
  have rq: "requests AUTH_REQUEST (str_bytes ''u'' @ [32] @ str_bytes ''v'' @ [0]) [] ?t"
    using requests_thread_at [of "?c @ [0]" AUTH_REQUEST "[]" "file_lines [?c]" no_files] by simp
  have sl: "\<forall>l \<in> set [?c]. short_line l" unfolding c by (simp add: short_line_def)
  have ac: "access_file ?t = file_lines [?c]" by simp
  have rq2: "requests AUTH_REQUEST (?c @ [0]) [] ?t" using rq by simp
  have z: "0 \<notin> set ?c" unfolding c by simp
  from authentication_accepted [OF thread_at_simps(1) rq2 z _ ac sl] obtain t' where
    t': "authentication ?t = ret (0, t')" "sent (csock t') = sent (csock ?t) @ ftp_wire AUTH_REPLY 1 0" by auto
  from login_end_to_end [OF waiting_client_simps(1) waiting_client_simps(2) _ z thread_at_simps(1) rq ac sl t', of "\<lambda>a p. None"]
  show ?thesis by auto
qed

section \<open>Downloading\<close>

lemma download_exchange:
  assumes "cl_ready s (RxData (ftp_wire GET_REPLY 1 0) # RxData (ftp_wire FILE_DATA st (int (length (rx_bytes p)))) # p @ q)"
    and "data_segs p" "12 + int (length (rx_bytes p)) \<le> int_max" "length name + 8 < 256" "local_writable s (local_path name)"
  shows "\<exists>s'. download name s = ret s' \<and> state s' = state s \<and> cl_ready s' q \<and>
    cl_sent s' = cl_sent s @ ftp_wire GET_REQUEST unused (int (length name) + 1) @ str_bytes name @ [0] \<and>
    local_files s' = (local_files s)(local_path name \<mapsto> if length p \<le> 1 then rx_bytes p else [])"
proof -
  let ?n = "int (length (rx_bytes p))"
  let ?q = "RxData (ftp_wire FILE_DATA st ?n) # p @ q"
  let ?out = "ftp_wire GET_REQUEST unused (int (length name) + 1) @ str_bytes name @ [0]"
  have s1: "cl_send_header GET_REQUEST (int (length name) + 1) s = ret (cl_say (ftp_wire GET_REQUEST unused (int (length name) + 1)) s)"
    by (rule cl_send_header_ready [OF assms(1)]) (use assms(4) in simp_all)
  have cs: "cl_send bs (cl_say cs s) = ret (cl_say (cs @ bs) s)" for bs cs
    using cl_send_ready [of "cl_say cs s" _ bs] assms(1) by simp
  let ?s = "cl_say ?out s"
  have "cl_ready ?s (RxData (ftp_wire GET_REPLY 1 0) # ?q)" using assms(1) by simp
  from cl_recv_wire [OF this] obtain m where
    m: "cl_recv_header ?s = ret (12, m, cl_at ?q ?s)" "ftp_msgChecker m GET_REPLY 1 12 = 0" by auto
  have r2: "cl_ready (cl_at ?q ?s) ?q" using assms(1) by simp
  from cl_recv_wire [OF r2] obtain m2 where
    m2: "cl_recv_header (cl_at ?q ?s) = ret (12, m2, cl_at (p @ q) (cl_at ?q ?s))" "ftp_msgChecker m2 FILE_DATA unused 12 = 0"
    "host_length m2 = ret ?n" using assms(3) by auto
  define s2 where "s2 = cl_at (p @ q) (cl_at ?q ?s)"
  have r3: "cl_ready s2 (p @ q)" using r2 by (simp add: s2_def)
  then obtain c where c: "fd s2 = Some c" "rxq c = p @ q" "txq c = []" by (auto simp: cl_ready_def)
  have n: "nat (?n + 12) = length (rx_bytes p) + 12" by simp
  let ?s3 = "s2\<lparr>local_files := (local_files s2)(local_path name \<mapsto> [])\<rparr>"
  let ?ok = "last_seg 0 p = ?n"
  have d: "cl_dataReceiver ?n (replicate (nat (?n + 12)) 0) c = ret (last_seg 0 p, rx_bytes p @ replicate 12 0, c\<lparr>rxq := q\<rparr>)"
    unfolding n by (rule cl_dataReceiver_segments [OF c(2) assms(2)])
  have "download name s = ret (if ?ok then ?s3\<lparr>fd := Some (c\<lparr>rxq := q\<rparr>), local_files := (local_files ?s3)(local_path name \<mapsto> rx_bytes p)\<rparr>
      else ?s3\<lparr>fd := Some (c\<lparr>rxq := q\<rparr>)\<rparr>)"
    using assms(4,5) m m2 d c(1)
    by (simp add: download_def s1 cs s2_def [symmetric] cl_conn_def Let_def) (simp add: s2_def)
  moreover have "cl_sent s2 = cl_sent s @ ?out" using assms(1) by (simp add: s2_def)
  then have "sent c = cl_sent s @ ?out" using c(1) by (simp add: cl_sent_def)
  moreover have "state s2 = state s" "local_files s2 = local_files s" by (simp_all add: s2_def)
  ultimately show ?thesis
    using last_seg_whole [OF assms(2)] c(3) by (simp add: cl_ready_def cl_sent_def)
qed

text \<open>C11: a download from the server together with the client. What the client sends for \<open>get\<close> is a
  request that the server answers with the file; the client keeps that file exactly when the data comes
  in at most one segment. When it comes in more, the length of the last one is taken for the length of
  all, and the local copy is left empty.\<close>

theorem download_end_to_end:
  assumes "ready t" "requests GET_REQUEST (str_bytes name @ [0]) q' t" "0 \<notin> set (str_bytes name)" "length name + 8 < 256"
    and "dirents (files t) = Some names" "length names < 512" "str_bytes name \<in> set names" "str_bytes name \<notin> {[46], [46, 46]}"
    and "contents (files t) (filedir @ str_bytes name) = Some bytes" "12 + int (length bytes) \<le> int_max"
    and "ftp_serviceHandler True t = ret (1, t')" "sent (csock t') = sent (csock t) @ reply"
    and "cl_ready s (RxData (take 12 reply) # RxData (take 12 (drop 12 reply)) # p @ q)" "data_segs p" "rx_bytes p = drop 24 reply"
    and "local_writable s (local_path name)"
  shows "\<exists>s'. download name s = ret s' \<and> cl_ready s' q \<and>
    cl_sent s' = cl_sent s @ ftp_wire GET_REQUEST unused (int (length (str_bytes name @ [0]))) @ str_bytes name @ [0] \<and>
    local_files s' = (local_files s)(local_path name \<mapsto> if length p \<le> 1 then bytes else [])"
proof -
  have l: "length (str_bytes name) \<le> 256" using assms(4) by simp
  from download_sent [OF assms(1-3) l assms(5-10)] assms(11,12)
  have r: "reply = ftp_wire GET_REPLY 1 0 @ ftp_wire FILE_DATA unused (int (length bytes)) @ bytes" by auto
  then have p: "take 12 reply = ftp_wire GET_REPLY 1 0" "take 12 (drop 12 reply) = ftp_wire FILE_DATA unused (int (length bytes))"
    "rx_bytes p = bytes" using assms(15) by simp_all
  from assms(13) have "cl_ready s (RxData (ftp_wire GET_REPLY 1 0) # RxData (ftp_wire FILE_DATA unused (int (length (rx_bytes p)))) # p @ q)"
    by (simp only: p)
  from download_exchange [OF this assms(14) _ assms(4,16)] assms(10) p(3) show ?thesis
    by (auto simp: add.commute)
qed

text \<open>The same reply in one segment and in two.\<close>

lemma two_files_download:
  "\<exists>t'. ftp_serviceHandler True (thread_at (RxData (ftp_wire GET_REQUEST unused 2) # [RxData ([98] @ [0])]) [] two_files) = ret (1, t') \<and>
    sent (csock t') = ftp_wire GET_REPLY 1 0 @ ftp_wire FILE_DATA unused 4 @ [1, 2, 3, 4]"
  using download_sent [OF thread_at_simps(1) requests_thread_at [of "[98] @ [0]" GET_REQUEST "[]" "[]" two_files],
      where names = "[[46], [46, 46], [97], [98]]" and bytes = "[1, 2, 3, 4]"]
  by (force simp: two_files_def)

theorem download_end_to_end_witness:
  "(\<exists>s'. download ''b'' (waiting_client [RxData (ftp_wire GET_REPLY 1 0), RxData (ftp_wire FILE_DATA unused 4), RxData [1, 2, 3, 4]] IS_MAIN) = ret s' \<and>
      local_files s' (local_path ''b'') = Some [1, 2, 3, 4]) \<and>
   (\<exists>s'. download ''b'' (waiting_client [RxData (ftp_wire GET_REPLY 1 0), RxData (ftp_wire FILE_DATA unused 4), RxData [1], RxData [2, 3, 4]] IS_MAIN) = ret s' \<and>
      local_files s' (local_path ''b'') = Some [])"
proof -
  let ?t = "thread_at (RxData (ftp_wire GET_REQUEST unused 2) # [RxData ([98] @ [0])]) [] two_files"
  let ?r = "ftp_wire GET_REPLY 1 0 @ ftp_wire FILE_DATA unused 4 @ [1, 2, 3, 4]"
  have b: "str_bytes ''b'' = [98]" by (simp add: str_bytes_def)
  obtain t' where t': "ftp_serviceHandler True ?t = ret (1, t')" "sent (csock t') = sent (csock ?t) @ ?r"
    using two_files_download by auto
  have rq: "requests GET_REQUEST (str_bytes ''b'' @ [0]) [] ?t"
    using requests_thread_at [of "[98] @ [0]" GET_REQUEST "[]" "[]" two_files] by (simp add: b)
  have f: "dirents (files ?t) = Some [[46], [46, 46], [97], [98]]" "contents (files ?t) (filedir @ str_bytes ''b'') = Some [1, 2, 3, 4]"
    by (simp_all add: two_files_def b)
  have "\<exists>s'. download ''b'' (waiting_client (RxData (take 12 ?r) # RxData (take 12 (drop 12 ?r)) # p @ []) IS_MAIN) = ret s' \<and>
      cl_ready s' [] \<and> cl_sent s' = cl_sent (waiting_client (RxData (take 12 ?r) # RxData (take 12 (drop 12 ?r)) # p @ []) IS_MAIN) @
        ftp_wire GET_REQUEST unused (int (length (str_bytes ''b'' @ [0]))) @ str_bytes ''b'' @ [0] \<and>
      local_files s' = (local_files (waiting_client (RxData (take 12 ?r) # RxData (take 12 (drop 12 ?r)) # p @ []) IS_MAIN))
        (local_path ''b'' \<mapsto> if length p \<le> 1 then [1, 2, 3, 4] else [])"
    if "data_segs p" "rx_bytes p = drop 24 ?r" for p
    by (rule download_end_to_end [OF thread_at_simps(1) rq _ _ f(1) _ _ _ f(2) _ t' waiting_client_simps(1) that waiting_client_simps(5)])
      (simp_all add: b)
  from this [of "[RxData [1, 2, 3, 4]]"] this [of "[RxData [1], RxData [2, 3, 4]]"] show ?thesis by auto
qed

section \<open>What the prompt lets through\<close>

text \<open>C36: between \<open>open\<close> and a successful \<open>auth\<close> no command reaches the server: any line that is
  neither \<open>auth USER PASSWORD\<close> nor \<open>exit\<close> nor empty leaves the client and its socket as they are.\<close>

theorem commands_need_login:
  assumes "state s = IS_AUTH" "length input < 255" "getToken input \<noteq> []"
    and "\<not> (getToken input ! 0 = ''auth'' \<and> length (getToken input) = 3)"
    and "\<not> (getToken input ! 0 = ''exit'' \<and> length (getToken input) = 1)"
  shows "client_line dial input s = ret s"
proof -
  have "fsm_round dial (getToken input) s = ret (False, s)"
    using assms(1,4) by (auto simp: fsm_round_def)
  then show ?thesis
    using assms(2,3,5) by (simp add: client_line_def fsm_control_def fsm_loop_last)
qed

theorem commands_need_login_witness:
  "client_line (\<lambda>a p. None) ''get x'' (waiting_client [] IS_AUTH) = ret (waiting_client [] IS_AUTH)"
  by (rule commands_need_login) (simp_all add: getToken_def)

text \<open>an empty line at the prompt of a client that is not idle compares a null pointer.\<close>

theorem empty_line_crashes:
  assumes "state s \<noteq> IDLE" "length input < 255" "set input \<subseteq> {CHR '' ''}"
  shows "client_line dial input s = halt NullDeref"
proof -
  have "space_tokens [] cs = []" if "set cs \<subseteq> {CHR '' ''}" for cs using that by (induction cs) auto
  with assms have "getToken input = []" by (simp add: getToken_def)
  with assms show ?thesis by (simp add: client_line_def fsm_control_def)
qed

theorem empty_line_crashes_witness: "client_line (\<lambda>a p. None) ''  '' (waiting_client [] IS_MAIN) = halt NullDeref"
  by (rule empty_line_crashes) simp_all

text \<open>an upload of a file with fewer than eight bytes writes outside the buffer of the file's
  size, which is cleared by the size of a pointer.\<close>

theorem short_upload_overruns:
  assumes "cl_ready s (RxData (ftp_wire PUT_REPLY st n) # q)" "local_files s (str_bytes name) = Some bytes"
    and "length bytes < 8" "length name < 255"
  shows "upload name s = halt OutOfBounds"
proof -
  let ?h = "ftp_wire PUT_REQUEST unused (int (length name) + 1)"
  have s1: "cl_send_header PUT_REQUEST (int (length name) + 1) s = ret (cl_say ?h s)"
    by (rule cl_send_header_ready [OF assms(1)]) (use assms(4) in simp_all)
  have cs: "cl_send bs (cl_say cs s) = ret (cl_say (cs @ bs) s)" for bs cs
    using cl_send_ready [of "cl_say cs s" _ bs] assms(1) by simp
  let ?s = "cl_say (?h @ str_bytes name @ [0]) s"
  have "cl_ready ?s (RxData (ftp_wire PUT_REPLY st n) # q)" using assms(1) by simp
  from cl_recv_wire [OF this] obtain m where
    m: "cl_recv_header ?s = ret (12, m, cl_at q ?s)" "ftp_msgChecker m PUT_REPLY unused 12 = 0" by auto
  have "cl_ready (cl_at q ?s) q" using assms(1) by simp
  from cl_send_header_ready [OF this, of "int (length bytes)" FILE_DATA] assms(3)
  have "cl_send_header FILE_DATA (int (length bytes)) (cl_at q ?s) = ret (cl_say (ftp_wire FILE_DATA unused (int (length bytes))) (cl_at q ?s))"
    by simp
  with m assms(2,3) show ?thesis
    by (simp add: upload_def s1 cs cl_data_out_def blit_def)
qed

theorem short_upload_overruns_witness:
  "upload ''f'' ((waiting_client [RxData (ftp_wire PUT_REPLY unused 0)] IS_MAIN)\<lparr>local_files := [str_bytes ''f'' \<mapsto> [1, 2, 3]]\<rparr>)
     = halt OutOfBounds"
  by (rule short_upload_overruns [where q = "[]" and st = unused and n = 0 and bytes = "[1, 2, 3]"])
    (simp_all add: waiting_client_def cl_ready_def)

end
