(* ===== verification/ShellSyntax.thy ===== *)
theory ShellSyntax
  imports CText
begin

text \<open>
  The command line of the shell (\<open>shell/osShell.c\<close>): the tokenizer, the syntax check, which is a state machine over
  the tokens, and the grammar it accepts.
\<close>

section \<open>The tokenizer\<close>

text \<open>\<open>gets\<close> fills an array of 40 characters; the ten cells of \<open>tokens\<close> include the final \<open>NULL\<close>.\<close>

definition tokenizer :: "string \<Rightarrow> string list run" where
  "tokenizer cmdLine =
     (if length cmdLine \<ge> 40 then halt OutOfBounds
      else let tokens = space_tokens [] cmdLine
           in if length tokens < 10 then ret tokens else halt OutOfBounds)"

definition checkIllegal :: "string \<Rightarrow> int" where
  "checkIllegal aToken =
     (if list_ex (\<lambda>c. c \<in> {CHR ''>'', CHR ''<'', CHR ''|'', CHR ''*'', CHR ''!'', CHR 0x27, CHR ''\"''}) aToken
      then 0 else 1)"

section \<open>The syntax check\<close>

datatype sh_states = WAIT_CMD | WAIT_ARG | WAIT_IN_FILE | WAIT_OUT_FILE | WAIT_MORE | WAIT_ONE_ARG | NO_MORE

text \<open>The names in \<open>types\<close>; \<open>NoType\<close> is the empty string the array starts with.\<close>

datatype ttype = NoType | BuiltIn | CommandName | Argument | Pipe | RedirectInput | RedirectOutput
  | InputFilename | OutputFilename

record check =
  sh_state :: sh_states
  sh_error :: int
  recursive :: nat
  fileQuota :: nat
  builtInDetect :: bool
  types :: "ttype list"

definition sh_fail :: "check \<Rightarrow> check" where
  "sh_fail s = s\<lparr>sh_error := 1\<rparr>"

definition sh_go :: "nat \<Rightarrow> sh_states \<Rightarrow> ttype \<Rightarrow> check \<Rightarrow> check" where
  "sh_go i st t s = s\<lparr>sh_state := st, types := (types s)[i := t]\<rparr>"

abbreviation builtins :: "string list" where
  "builtins \<equiv> [''cd'', ''exit'', ''fg'', ''jobs'']"

text \<open>The body of the loop for token \<open>i\<close>; the check of the type before the first token is never
  reached, since \<open>WAIT_MORE\<close> follows a file name.\<close>

definition check_token :: "nat \<Rightarrow> string \<Rightarrow> check \<Rightarrow> check" where
  "check_token i t s =
     (case sh_state s of
        WAIT_CMD \<Rightarrow>
          if checkIllegal t = 0 then sh_fail s
          else if t \<in> set builtins then
            (sh_go i (if t = ''cd'' \<or> t = ''fg'' then WAIT_ONE_ARG else NO_MORE) BuiltIn s)\<lparr>builtInDetect := True\<rparr>
          else sh_go i WAIT_ARG CommandName s
      | WAIT_ARG \<Rightarrow>
          if t = ''|'' then (sh_go i WAIT_CMD Pipe s)\<lparr>recursive := recursive s + 1\<rparr>
          else if t = ''<'' then sh_go i WAIT_IN_FILE RedirectInput s
          else if t = ''>'' \<or> t = ''>>'' then sh_go i WAIT_OUT_FILE RedirectOutput s
          else if checkIllegal t = 0 then sh_fail s
          else s\<lparr>types := (types s)[i := Argument]\<rparr>
      | WAIT_ONE_ARG \<Rightarrow> if checkIllegal t = 0 then sh_fail s else sh_go i NO_MORE Argument s
      | WAIT_IN_FILE \<Rightarrow>
          if recursive s = 0 then
            (if checkIllegal t = 0 then sh_fail s
             else (sh_go i WAIT_MORE InputFilename s)\<lparr>fileQuota := fileQuota s + 1\<rparr>)
          else sh_fail s
      | WAIT_OUT_FILE \<Rightarrow>
          if checkIllegal t = 0 then sh_fail s
          else (sh_go i WAIT_MORE OutputFilename s)\<lparr>fileQuota := fileQuota s + 1\<rparr>
      | WAIT_MORE \<Rightarrow>
          if t = ''<'' \<and> types s ! (i - 1) = OutputFilename \<and> fileQuota s \<le> 2 then sh_go i WAIT_IN_FILE RedirectInput s
          else if (t = ''>'' \<or> t = ''>>'') \<and> types s ! (i - 1) = InputFilename \<and> fileQuota s \<le> 2 then
            sh_go i WAIT_OUT_FILE RedirectOutput s
          else if recursive s = 0 then
            (if t = ''|'' \<and> types s ! (i - 1) = InputFilename then
               (sh_go i WAIT_CMD Pipe s)\<lparr>recursive := recursive s + 1\<rparr>
             else sh_fail s)
          else sh_fail s
      | NO_MORE \<Rightarrow> sh_fail s)"

fun check_loop :: "nat \<Rightarrow> string list \<Rightarrow> check \<Rightarrow> check" where
  "check_loop i [] s = s"
| "check_loop i (t # ts) s = check_loop (Suc i) ts (check_token i t s)"

definition check_end :: "check \<Rightarrow> check" where
  "check_end s =
     (if sh_state s \<in> {WAIT_IN_FILE, WAIT_OUT_FILE, WAIT_CMD} \<or> recursive s > 2 \<or> fileQuota s \<ge> 3
      then sh_fail s else s)"

text \<open>\<open>checkSyntax\<close> starts on whatever an earlier line left in \<open>types\<close>.\<close>

definition checkSyntax :: "string list \<Rightarrow> ttype list \<Rightarrow> check" where
  "checkSyntax tokens old = check_end (check_loop 0 tokens
     \<lparr>sh_state = WAIT_CMD, sh_error = 0, recursive = 0, fileQuota = 0, builtInDetect = False, types = old\<rparr>)"

text \<open>The complaint about a line, and the three steps of the interpreter.\<close>

definition outPut :: "string list \<Rightarrow> check \<Rightarrow> string list" where
  "outPut tokens s =
     (if tokens \<noteq> [] then
        (if builtInDetect s \<and> sh_error s \<noteq> 0 then [hd tokens @ '': wrong number of arguments'']
         else if sh_error s \<noteq> 0 then [''Error: invalid input command line''] else [])
      else [])"

definition cmdInterpretor :: "string \<Rightarrow> ttype list \<Rightarrow> (string list \<times> string list \<times> check) run" where
  "cmdInterpretor cmdLine tys =
     andthen (tokenizer cmdLine) (\<lambda>tokens. let correct = checkSyntax tokens tys in ret (outPut tokens correct, tokens, correct))"

definition sh_accepts :: "string list \<Rightarrow> bool" where
  "sh_accepts tokens \<longleftrightarrow> sh_error (checkSyntax tokens (replicate 10 NoType)) = 0"

section \<open>The grammar\<close>

definition plain :: "string \<Rightarrow> bool" where
  "plain t \<longleftrightarrow> checkIllegal t = 1"

definition simple_cmd :: "string list \<Rightarrow> bool" where
  "simple_cmd ws \<longleftrightarrow> ws \<noteq> [] \<and> list_all plain ws \<and> hd ws \<notin> set builtins"

definition redirect_in :: "string list \<Rightarrow> bool" where
  "redirect_in r \<longleftrightarrow> (\<exists>f. r = [''<'', f] \<and> plain f)"

definition redirect_out :: "string list \<Rightarrow> bool" where
  "redirect_out r \<longleftrightarrow> (\<exists>op f. r = [op, f] \<and> op \<in> {''>'', ''>>''} \<and> plain f)"

definition builtin_cmd :: "string list \<Rightarrow> bool" where
  "builtin_cmd ws \<longleftrightarrow> ws \<in> {[''cd''], [''fg''], [''exit''], [''jobs'']} \<or>
     (\<exists>a. plain a \<and> ws \<in> {[''cd'', a], [''fg'', a]})"

text \<open>What may follow the words of a command that is the whole line, of one before a pipe, and of the
  last one of a pipeline.\<close>

definition whole_redirects :: "string list \<Rightarrow> bool" where
  "whole_redirects r \<longleftrightarrow> r = [] \<or> redirect_in r \<or> redirect_out r \<or>
     (\<exists>a b. r = a @ b \<and> (redirect_in a \<and> redirect_out b \<or> redirect_out a \<and> redirect_in b))"

definition first_redirects :: "string list \<Rightarrow> bool" where
  "first_redirects r \<longleftrightarrow> r = [] \<or> redirect_in r \<or> (\<exists>a b. r = a @ b \<and> redirect_out a \<and> redirect_in b)"

definition last_stage :: "string list \<Rightarrow> nat \<Rightarrow> bool" where
  "last_stage ts n \<longleftrightarrow> n = 0 \<and> (builtin_cmd ts \<or> simple_cmd ts) \<or>
     n = 1 \<and> (\<exists>ws r. ts = ws @ r \<and> simple_cmd ws \<and> redirect_out r)"

text \<open>A line is a built-in command, a command with its redirections, or a pipeline of two or three
  stages with at most two files.\<close>

definition shell_line :: "string list \<Rightarrow> bool" where
  "shell_line ts \<longleftrightarrow> builtin_cmd ts \<or>
     (\<exists>ws r. ts = ws @ r \<and> simple_cmd ws \<and> whole_redirects r) \<or>
     (\<exists>ws r l n. ts = ws @ r @ [''|''] @ l \<and> simple_cmd ws \<and> first_redirects r \<and> last_stage l n \<and> length r div 2 + n \<le> 2) \<or>
     (\<exists>ws r ws2 l n. ts = ws @ r @ [''|''] @ ws2 @ [''|''] @ l \<and> simple_cmd ws \<and> first_redirects r \<and>
        simple_cmd ws2 \<and> last_stage l n \<and> length r div 2 + n \<le> 2)"

section \<open>The accepted lines, state by state\<close>

text \<open>The states of the machine with what they remember of the last token, and acceptance from a
  state with \<open>r\<close> pipes and \<open>q\<close> files so far.\<close>

datatype mode = CMD | ARG | IN | OUT | MORE_IN | MORE_OUT | ONE | NONE

definition within :: "nat \<Rightarrow> nat \<Rightarrow> bool" where
  "within r q \<longleftrightarrow> r \<le> 2 \<and> q \<le> 2"

fun acc :: "string list \<Rightarrow> mode \<Rightarrow> nat \<Rightarrow> nat \<Rightarrow> bool" where
  "acc [] k r q = (k \<notin> {CMD, IN, OUT} \<and> within r q)"
| "acc (t # ts) k r q =
     (case k of
        CMD \<Rightarrow> plain t \<and> (if t \<in> set builtins then acc ts (if t = ''cd'' \<or> t = ''fg'' then ONE else NONE) r q else acc ts ARG r q)
      | ARG \<Rightarrow> if t = ''|'' then acc ts CMD (Suc r) q else if t = ''<'' then acc ts IN r q
               else if t = ''>'' \<or> t = ''>>'' then acc ts OUT r q else plain t \<and> acc ts ARG r q
      | IN \<Rightarrow> r = 0 \<and> plain t \<and> acc ts MORE_IN r (Suc q)
      | OUT \<Rightarrow> plain t \<and> acc ts MORE_OUT r (Suc q)
      | MORE_IN \<Rightarrow> if (t = ''>'' \<or> t = ''>>'') \<and> q \<le> 2 then acc ts OUT r q else r = 0 \<and> t = ''|'' \<and> acc ts CMD (Suc r) q
      | MORE_OUT \<Rightarrow> t = ''<'' \<and> q \<le> 2 \<and> acc ts IN r q
      | ONE \<Rightarrow> plain t \<and> acc ts NONE r q
      | NONE \<Rightarrow> False)"

definition in_mode :: "nat \<Rightarrow> mode \<Rightarrow> check \<Rightarrow> bool" where
  "in_mode i k s \<longleftrightarrow> sh_error s = 0 \<and>
     (case k of CMD \<Rightarrow> sh_state s = WAIT_CMD | ARG \<Rightarrow> sh_state s = WAIT_ARG | IN \<Rightarrow> sh_state s = WAIT_IN_FILE
       | OUT \<Rightarrow> sh_state s = WAIT_OUT_FILE | ONE \<Rightarrow> sh_state s = WAIT_ONE_ARG | NONE \<Rightarrow> sh_state s = NO_MORE
       | MORE_IN \<Rightarrow> sh_state s = WAIT_MORE \<and> types s ! (i - 1) = InputFilename
       | MORE_OUT \<Rightarrow> sh_state s = WAIT_MORE \<and> types s ! (i - 1) = OutputFilename)"

lemma plain_not_illegal: "checkIllegal t = 0 \<longleftrightarrow> \<not> plain t"
  by (simp add: plain_def checkIllegal_def)

lemma plain_not_operator: "plain t \<Longrightarrow> t \<notin> {''|'', ''<'', ''>'', ''>>''}"
  by (auto simp: plain_def checkIllegal_def)

lemma plain_builtins: "t \<in> set builtins \<Longrightarrow> plain t"
  by (auto simp: plain_def checkIllegal_def)

lemma check_token_error: "sh_error s = 1 \<Longrightarrow> sh_error (check_token i t s) = 1"
  by (auto simp: check_token_def sh_fail_def sh_go_def split: sh_states.splits)

lemma check_loop_error: "sh_error s = 1 \<Longrightarrow> sh_error (check_loop i ts s) = 1"
  by (induction ts arbitrary: i s) (simp_all add: check_token_error)

lemma check_end_error: "sh_error s = 1 \<Longrightarrow> sh_error (check_end s) = 1"
  by (simp add: check_end_def sh_fail_def)

lemma length_types_token [simp]: "length (types (check_token i t s)) = length (types s)"
  by (auto simp: check_token_def sh_fail_def sh_go_def split: sh_states.splits)

text \<open>One token either fails for good or moves to the mode that \<open>acc\<close> moves to.\<close>

lemma check_token_mode:
  assumes "in_mode i k s" "i < length (types s)"
  shows "sh_error (check_token i t s) = 1 \<and> \<not> acc (t # ts) k (recursive s) (fileQuota s) \<or>
    (\<exists>k'. in_mode (Suc i) k' (check_token i t s) \<and>
       acc (t # ts) k (recursive s) (fileQuota s) = acc ts k' (recursive (check_token i t s)) (fileQuota (check_token i t s)))"
proof (cases k)
  case CMD
  then show ?thesis using assms plain_builtins [of t]
    by (auto simp: in_mode_def check_token_def sh_fail_def sh_go_def plain_not_illegal
        intro: exI [of _ ONE] exI [of _ NONE] exI [of _ ARG])
next
  case ARG
  then show ?thesis using assms
    by (auto simp: in_mode_def check_token_def sh_fail_def sh_go_def plain_not_illegal
        intro: exI [of _ CMD] exI [of _ IN] exI [of _ OUT] exI [of _ ARG])
next
  case IN
  then show ?thesis using assms
    by (auto simp: in_mode_def check_token_def sh_fail_def sh_go_def plain_not_illegal intro: exI [of _ MORE_IN])
next
  case OUT
  then show ?thesis using assms
    by (auto simp: in_mode_def check_token_def sh_fail_def sh_go_def plain_not_illegal intro: exI [of _ MORE_OUT])
next
  case MORE_IN
  then show ?thesis using assms
    by (auto simp: in_mode_def check_token_def sh_fail_def sh_go_def intro: exI [of _ OUT] exI [of _ CMD])
next
  case MORE_OUT
  then show ?thesis using assms
    by (auto simp: in_mode_def check_token_def sh_fail_def sh_go_def intro: exI [of _ IN])
next
  case ONE
  then show ?thesis using assms
    by (auto simp: in_mode_def check_token_def sh_fail_def sh_go_def plain_not_illegal intro: exI [of _ NONE])
next
  case NONE
  then show ?thesis using assms by (auto simp: in_mode_def check_token_def sh_fail_def)
qed

lemma check_end_mode: "in_mode i k s \<Longrightarrow> sh_error (check_end s) = 0 \<longleftrightarrow> acc [] k (recursive s) (fileQuota s)"
  by (cases k) (auto simp: in_mode_def check_end_def sh_fail_def within_def)

lemma check_loop_acc:
  "in_mode i k s \<Longrightarrow> i + length ts \<le> length (types s) \<Longrightarrow>
   sh_error (check_end (check_loop i ts s)) = 0 \<longleftrightarrow> acc ts k (recursive s) (fileQuota s)"
proof (induction ts arbitrary: i k s)
  case Nil
  then show ?case using check_end_mode by simp
next
  case (Cons t ts)
  from Cons.prems(2) have i: "i < length (types s)" "Suc i + length ts \<le> length (types (check_token i t s))" by simp_all
  from check_token_mode [OF Cons.prems(1) i(1), of t ts] show ?case
  proof (elim disjE exE conjE)
    assume "sh_error (check_token i t s) = 1" "\<not> acc (t # ts) k (recursive s) (fileQuota s)"
    then show ?thesis using check_end_error check_loop_error by fastforce
  next
    fix k'
    assume "in_mode (Suc i) k' (check_token i t s)"
      "acc (t # ts) k (recursive s) (fileQuota s) = acc ts k' (recursive (check_token i t s)) (fileQuota (check_token i t s))"
    with Cons.IH [OF this(1) i(2)] show ?thesis by simp
  qed
qed

lemma checkSyntax_acc:
  assumes "length ts \<le> length old"
  shows "sh_error (checkSyntax ts old) = 0 \<longleftrightarrow> acc ts CMD 0 0"
  unfolding checkSyntax_def using assms
  by (subst check_loop_acc [where k = CMD]) (simp_all add: in_mode_def)

section \<open>From the machine to the grammar\<close>

lemma acc_within: "acc ts k r q \<Longrightarrow> within r q"
proof (induction ts arbitrary: k r q)
  case (Cons t ts)
  then show ?case
    by (cases k) (force simp: within_def split: if_splits)+
qed simp

lemma acc_NONE: "acc ts NONE r q \<longleftrightarrow> ts = [] \<and> within r q"
  by (cases ts) simp_all

lemma acc_ONE: "acc ts ONE r q \<longleftrightarrow> (ts = [] \<or> (\<exists>a. plain a \<and> ts = [a])) \<and> within r q"
  by (cases ts) (auto simp: acc_NONE)

text \<open>What may follow the words of a command.\<close>

definition follows :: "nat \<Rightarrow> nat \<Rightarrow> string list \<Rightarrow> bool" where
  "follows r q rest \<longleftrightarrow> rest = [] \<and> within r q \<or>
    (\<exists>l. rest = ''|'' # l \<and> acc l CMD (Suc r) q) \<or> (\<exists>l. rest = ''<'' # l \<and> acc l IN r q) \<or>
    (\<exists>op l. rest = op # l \<and> op \<in> {''>'', ''>>''} \<and> acc l OUT r q)"

lemma acc_ARG: "acc ts ARG r q \<longleftrightarrow> (\<exists>ws rest. ts = ws @ rest \<and> list_all plain ws \<and> follows r q rest)"
proof (induction ts)
  case Nil
  then show ?case by (auto simp: follows_def)
next
  case (Cons t ts)
  show ?case
  proof (cases "t \<in> {''|'', ''<'', ''>'', ''>>''}")
    case True
    then have np: "\<not> plain t" using plain_not_operator by blast
    have "ws = []" if "t # ts = ws @ rest" "list_all plain ws" for ws rest
      using that np by (cases ws) auto
    then have "(\<exists>ws rest. t # ts = ws @ rest \<and> list_all plain ws \<and> follows r q rest) \<longleftrightarrow> follows r q (t # ts)"
      by (metis append_Nil list.pred_inject(1))
    moreover have "acc (t # ts) ARG r q \<longleftrightarrow> follows r q (t # ts)"
      using True by (auto simp: follows_def)
    ultimately show ?thesis by simp
  next
    case False
    then have nf: "\<not> follows r q (t # ts)" by (auto simp: follows_def)
    from False have "acc (t # ts) ARG r q \<longleftrightarrow> plain t \<and> acc ts ARG r q" by simp
    also have "\<dots> \<longleftrightarrow> plain t \<and> (\<exists>ws rest. ts = ws @ rest \<and> list_all plain ws \<and> follows r q rest)"
      using Cons.IH by blast
    also have "\<dots> \<longleftrightarrow> (\<exists>ws rest. t # ts = ws @ rest \<and> list_all plain ws \<and> follows r q rest)"
    proof
      assume "plain t \<and> (\<exists>ws rest. ts = ws @ rest \<and> list_all plain ws \<and> follows r q rest)"
      then obtain ws rest where w: "plain t" "ts = ws @ rest" "list_all plain ws" "follows r q rest" by blast
      then show "\<exists>ws rest. t # ts = ws @ rest \<and> list_all plain ws \<and> follows r q rest"
        by (intro exI [of _ "t # ws"] exI [of _ rest]) simp
    next
      assume "\<exists>ws rest. t # ts = ws @ rest \<and> list_all plain ws \<and> follows r q rest"
      then obtain ws rest where p: "t # ts = ws @ rest" "list_all plain ws" "follows r q rest" by blast
      with nf obtain ws' where "ws = t # ws'" by (cases ws) auto
      with p show "plain t \<and> (\<exists>ws rest. ts = ws @ rest \<and> list_all plain ws \<and> follows r q rest)" by auto
    qed
    finally show ?thesis .
  qed
qed

lemma acc_CMD: "acc ts CMD r q \<longleftrightarrow> builtin_cmd ts \<and> within r q \<or> (\<exists>w ts'. ts = w # ts' \<and> plain w \<and> w \<notin> set builtins \<and> acc ts' ARG r q)"
proof (cases ts)
  case Nil
  then show ?thesis by (auto simp: builtin_cmd_def)
next
  case (Cons w ts')
  then show ?thesis using plain_builtins [of w]
    by (auto simp: builtin_cmd_def acc_ONE acc_NONE)
qed

text \<open>A command with its arguments, and what follows it.\<close>

lemma acc_CMD_simple: "acc ts CMD r q \<longleftrightarrow> builtin_cmd ts \<and> within r q \<or>
   (\<exists>ws rest. ts = ws @ rest \<and> simple_cmd ws \<and> follows r q rest)"
proof -
  have "(\<exists>w ts'. ts = w # ts' \<and> plain w \<and> w \<notin> set builtins \<and> acc ts' ARG r q) \<longleftrightarrow>
      (\<exists>ws rest. ts = ws @ rest \<and> simple_cmd ws \<and> follows r q rest)"
  proof
    assume "\<exists>w ts'. ts = w # ts' \<and> plain w \<and> w \<notin> set builtins \<and> acc ts' ARG r q"
    then obtain w ts' ws rest where "ts = w # ts'" "plain w" "w \<notin> set builtins" "ts' = ws @ rest" "list_all plain ws" "follows r q rest"
      unfolding acc_ARG by blast
    then have "ts = (w # ws) @ rest \<and> simple_cmd (w # ws) \<and> follows r q rest" by (simp add: simple_cmd_def)
    then show "\<exists>ws rest. ts = ws @ rest \<and> simple_cmd ws \<and> follows r q rest" by blast
  next
    assume "\<exists>ws rest. ts = ws @ rest \<and> simple_cmd ws \<and> follows r q rest"
    then obtain w ws rest where w: "ts = (w # ws) @ rest" "simple_cmd (w # ws)" "follows r q rest"
      by (metis simple_cmd_def neq_Nil_conv)
    then have "acc (ws @ rest) ARG r q" unfolding acc_ARG
      by (intro exI [of _ ws] exI [of _ rest]) (simp add: simple_cmd_def)
    with w show "\<exists>w ts'. ts = w # ts' \<and> plain w \<and> w \<notin> set builtins \<and> acc ts' ARG r q" by (auto simp: simple_cmd_def)
  qed
  then show ?thesis unfolding acc_CMD by blast
qed

text \<open>After a pipe no file is read any more.\<close>

lemma acc_OUT_later: "acc l OUT (Suc r) q \<longleftrightarrow> (\<exists>f. l = [f] \<and> plain f) \<and> within (Suc r) (Suc q)"
proof (cases l)
  case (Cons f l')
  have "acc l' MORE_OUT (Suc r) (Suc q) \<longleftrightarrow> l' = [] \<and> within (Suc r) (Suc q)"
  proof (cases l')
    case (Cons x l'')
    have "\<not> acc l'' IN (Suc r) (Suc q)" by (cases l'') simp_all
    with Cons show ?thesis by simp
  qed simp
  with Cons show ?thesis by auto
qed simp

lemma follows_later: "follows (Suc r) q rest \<longleftrightarrow> rest = [] \<and> within (Suc r) q \<or>
    redirect_out rest \<and> within (Suc r) (Suc q) \<or> (\<exists>l. rest = ''|'' # l \<and> acc l CMD (Suc (Suc r)) q)"
proof -
  have i: "\<not> acc l IN (Suc r) q" for l by (cases l) simp_all
  have o: "(\<exists>op l. rest = op # l \<and> op \<in> {''>'', ''>>''} \<and> acc l OUT (Suc r) q) \<longleftrightarrow> redirect_out rest \<and> within (Suc r) (Suc q)"
    unfolding acc_OUT_later redirect_out_def by blast
  show ?thesis unfolding follows_def o using i by blast
qed

lemma last_stage_within: "(\<exists>n. last_stage ts n \<and> within r (q + n)) \<longleftrightarrow> (builtin_cmd ts \<or> simple_cmd ts) \<and> within r q \<or>
      (\<exists>ws rd. ts = ws @ rd \<and> simple_cmd ws \<and> redirect_out rd) \<and> within r (Suc q)"
proof -
  define B where "B = (builtin_cmd ts \<or> simple_cmd ts)"
  define W where "W = (\<exists>ws rd. ts = ws @ rd \<and> simple_cmd ws \<and> redirect_out rd)"
  have l: "last_stage ts n \<longleftrightarrow> n = 0 \<and> B \<or> n = 1 \<and> W" for n
    unfolding last_stage_def B_def W_def by (rule refl)
  have "(\<exists>n. last_stage ts n \<and> within r (q + n)) \<longleftrightarrow> B \<and> within r q \<or> W \<and> within r (Suc q)"
    unfolding l by auto
  then show ?thesis unfolding B_def W_def .
qed

lemma acc_CMD_later: "acc ts CMD (Suc r) q \<longleftrightarrow> (\<exists>n. last_stage ts n \<and> within (Suc r) (q + n)) \<or>
   (\<exists>ws l. ts = ws @ ''|'' # l \<and> simple_cmd ws \<and> acc l CMD (Suc (Suc r)) q)"
proof -
  have "(\<exists>ws rest. ts = ws @ rest \<and> simple_cmd ws \<and> follows (Suc r) q rest) \<longleftrightarrow>
      simple_cmd ts \<and> within (Suc r) q \<or>
      (\<exists>ws rd. ts = ws @ rd \<and> simple_cmd ws \<and> redirect_out rd) \<and> within (Suc r) (Suc q) \<or>
      (\<exists>ws l. ts = ws @ ''|'' # l \<and> simple_cmd ws \<and> acc l CMD (Suc (Suc r)) q)"
    (is "?L \<longleftrightarrow> ?A \<or> ?B \<or> ?C")
  proof
    assume ?L
    then show "?A \<or> ?B \<or> ?C" unfolding follows_later by fastforce
  next
    assume "?A \<or> ?B \<or> ?C"
    then show ?L
    proof (elim disjE)
      assume ?A
      then show ?L by (intro exI [of _ ts] exI [of _ "[]"]) (simp add: follows_later)
    qed (auto simp: follows_later)
  qed
  then show ?thesis unfolding last_stage_within acc_CMD_simple [of ts "Suc r" q] by blast
qed

text \<open>The first command of a line, and the part of a line after its pipe.\<close>

definition piped :: "string list \<Rightarrow> nat \<Rightarrow> bool" where
  "piped ts q \<longleftrightarrow> (\<exists>n. last_stage ts n \<and> q + n \<le> 2) \<or>
     (\<exists>ws l n. ts = ws @ ''|'' # l \<and> simple_cmd ws \<and> last_stage l n \<and> q + n \<le> 2)"

lemma acc_CMD_piped: "acc ts CMD 1 q \<longleftrightarrow> piped ts q"
proof -
  have no: "\<not> acc l CMD 3 q" for l using acc_within [of l CMD 3 q] by (auto simp: within_def)
  have 2: "acc l CMD 2 q \<longleftrightarrow> (\<exists>n. last_stage l n \<and> q + n \<le> 2)" for l
    using acc_CMD_later [of l 1 q] no by (simp add: within_def numeral_eq_Suc)
  show ?thesis using acc_CMD_later [of ts 0 q] 2 by (auto simp: piped_def within_def numeral_eq_Suc)
qed

lemma acc_MORE_IN: "acc l MORE_IN 0 q \<longleftrightarrow> l = [] \<and> q \<le> 2 \<or>
   (\<exists>op f l'. l = op # f # l' \<and> op \<in> {''>'', ''>>''} \<and> plain f \<and> q \<le> 2 \<and> acc l' MORE_OUT 0 (Suc q)) \<or>
   (\<exists>l'. l = ''|'' # l' \<and> piped l' q)"
proof (cases l)
  case (Cons op l')
  then show ?thesis using acc_CMD_piped [of l' q] by (cases l') auto
qed (simp add: within_def)

lemma acc_MORE_OUT: "acc l MORE_OUT 0 q \<longleftrightarrow> l = [] \<and> q \<le> 2 \<or>
   (\<exists>f l'. l = ''<'' # f # l' \<and> plain f \<and> q \<le> 2 \<and> acc l' MORE_IN 0 (Suc q))"
proof (cases l)
  case (Cons op l')
  then show ?thesis by (cases l') auto
qed (simp add: within_def)

lemma redirect_in_append: "(\<exists>a l. rest = a @ l \<and> redirect_in a \<and> P l) \<longleftrightarrow> (\<exists>f l. rest = ''<'' # f # l \<and> plain f \<and> P l)"
proof
  assume "\<exists>f l. rest = ''<'' # f # l \<and> plain f \<and> P l"
  then obtain f l where "rest = ''<'' # f # l" "plain f" "P l" by blast
  then show "\<exists>a l. rest = a @ l \<and> redirect_in a \<and> P l"
    by (intro exI [of _ "[''<'', f]"] exI [of _ l]) (simp add: redirect_in_def)
qed (auto simp: redirect_in_def)

lemma redirect_out_append: "(\<exists>a l. rest = a @ l \<and> redirect_out a \<and> P l) \<longleftrightarrow>
    (\<exists>op f l. rest = op # f # l \<and> op \<in> {''>'', ''>>''} \<and> plain f \<and> P l)"
proof
  assume "\<exists>op f l. rest = op # f # l \<and> op \<in> {''>'', ''>>''} \<and> plain f \<and> P l"
  then obtain op f l where "rest = op # f # l" "op \<in> {''>'', ''>>''}" "plain f" "P l" by blast
  then show "\<exists>a l. rest = a @ l \<and> redirect_out a \<and> P l"
    by (intro exI [of _ "[op, f]"] exI [of _ l]) (simp add: redirect_out_def)
qed (auto simp: redirect_out_def)

lemma acc_three_files: "\<not> acc l k r 3"
  using acc_within [of l k r 3] by (auto simp: within_def)

lemma more_out_2: "acc l MORE_OUT 0 2 \<longleftrightarrow> l = []"
  using acc_MORE_OUT [of l 2] acc_three_files by (simp add: numeral_eq_Suc)

lemma more_in_1: "acc l MORE_IN 0 1 \<longleftrightarrow> l = [] \<or> redirect_out l \<or> (\<exists>l'. l = ''|'' # l' \<and> piped l' 1)"
  using acc_MORE_IN [of l 1] more_out_2 by (auto simp: redirect_out_def numeral_eq_Suc)

lemma more_in_2: "acc l MORE_IN 0 2 \<longleftrightarrow> l = [] \<or> (\<exists>l'. l = ''|'' # l' \<and> piped l' 2)"
  using acc_MORE_IN [of l 2] acc_three_files by (simp add: numeral_eq_Suc)

lemma more_out_1: "acc l MORE_OUT 0 1 \<longleftrightarrow> l = [] \<or> redirect_in l \<or> (\<exists>a l'. l = a @ ''|'' # l' \<and> redirect_in a \<and> piped l' 2)"
proof -
  have "acc l MORE_OUT 0 1 \<longleftrightarrow> l = [] \<or> (\<exists>f l'. l = ''<'' # f # l' \<and> plain f \<and> acc l' MORE_IN 0 2)"
    using acc_MORE_OUT [of l 1] by (simp add: numeral_eq_Suc)
  also have "\<dots> \<longleftrightarrow> l = [] \<or> (\<exists>a l'. l = a @ l' \<and> redirect_in a \<and> acc l' MORE_IN 0 2)"
    unfolding redirect_in_append ..
  finally show ?thesis unfolding more_in_2 by auto
qed

lemma append_three: "(\<exists>a l. rest = a @ l \<and> A a \<and> (l = [] \<or> B l \<or> C l)) \<longleftrightarrow>
    A rest \<or> (\<exists>a b. rest = a @ b \<and> A a \<and> B b) \<or> (\<exists>a l. rest = a @ l \<and> A a \<and> C l)"
  by auto

lemma in_then: "(\<exists>a l. rest = a @ l \<and> redirect_in a \<and> acc l MORE_IN 0 1) \<longleftrightarrow> redirect_in rest \<or>
    (\<exists>a b. rest = a @ b \<and> redirect_in a \<and> redirect_out b) \<or> (\<exists>a l. rest = a @ ''|'' # l \<and> redirect_in a \<and> piped l 1)"
  unfolding more_in_1 append_three by blast

lemma out_then: "(\<exists>a l. rest = a @ l \<and> redirect_out a \<and> acc l MORE_OUT 0 1) \<longleftrightarrow> redirect_out rest \<or>
    (\<exists>a b. rest = a @ b \<and> redirect_out a \<and> redirect_in b) \<or>
    (\<exists>a b l. rest = a @ b @ ''|'' # l \<and> redirect_out a \<and> redirect_in b \<and> piped l 2)"
  unfolding more_out_1 append_three by blast

lemma first_in: "(\<exists>l. rest = ''<'' # l \<and> acc l IN 0 0) \<longleftrightarrow> (\<exists>a l. rest = a @ l \<and> redirect_in a \<and> acc l MORE_IN 0 1)"
proof -
  have "acc l IN 0 0 \<longleftrightarrow> (\<exists>f l'. l = f # l' \<and> plain f \<and> acc l' MORE_IN 0 1)" for l by (cases l) simp_all
  then show ?thesis unfolding redirect_in_append by auto
qed

lemma first_out: "(\<exists>op l. rest = op # l \<and> op \<in> {''>'', ''>>''} \<and> acc l OUT 0 0) \<longleftrightarrow>
   (\<exists>a l. rest = a @ l \<and> redirect_out a \<and> acc l MORE_OUT 0 1)"
proof -
  have "acc l OUT 0 0 \<longleftrightarrow> (\<exists>f l'. l = f # l' \<and> plain f \<and> acc l' MORE_OUT 0 1)" for l by (cases l) simp_all
  then show ?thesis unfolding redirect_out_append by auto
qed

lemma redirect_lengths: "redirect_in a \<Longrightarrow> length a = 2" "redirect_out a \<Longrightarrow> length a = 2"
  by (auto simp: redirect_in_def redirect_out_def)

lemma first_pipe: "(\<exists>r l. rest = r @ [''|''] @ l \<and> first_redirects r \<and> piped l (length r div 2)) \<longleftrightarrow>
    (\<exists>l. rest = ''|'' # l \<and> piped l 0) \<or> (\<exists>a l. rest = a @ ''|'' # l \<and> redirect_in a \<and> piped l 1) \<or>
    (\<exists>a b l. rest = a @ b @ ''|'' # l \<and> redirect_out a \<and> redirect_in b \<and> piped l 2)"
  (is "?L \<longleftrightarrow> ?A \<or> ?B \<or> ?C")
proof
  assume ?L
  then obtain r l where r: "rest = r @ [''|''] @ l" "first_redirects r" "piped l (length r div 2)" by blast
  from r(2) show "?A \<or> ?B \<or> ?C" unfolding first_redirects_def
  proof (elim disjE exE conjE)
    fix a b assume "r = a @ b" "redirect_out a" "redirect_in b"
    with r redirect_lengths show ?thesis by auto
  qed (use r redirect_lengths in auto)
next
  assume "?A \<or> ?B \<or> ?C"
  then show ?L
  proof (elim disjE exE conjE)
    fix a b l assume "rest = a @ b @ ''|'' # l" "redirect_out a" "redirect_in b" "piped l 2"
    with redirect_lengths show ?L by (intro exI [of _ "a @ b"] exI [of _ l]) (auto simp: first_redirects_def)
  next
    fix a l assume "rest = a @ ''|'' # l" "redirect_in a" "piped l 1"
    with redirect_lengths show ?L by (intro exI [of _ a] exI [of _ l]) (auto simp: first_redirects_def)
  next
    fix l assume "rest = ''|'' # l" "piped l 0"
    then show ?L by (intro exI [of _ "[]"] exI [of _ l]) (simp add: first_redirects_def)
  qed
qed

lemma follows_first: "follows 0 0 rest \<longleftrightarrow> whole_redirects rest \<or>
   (\<exists>r l. rest = r @ [''|''] @ l \<and> first_redirects r \<and> piped l (length r div 2))"
proof -
  have "follows 0 0 rest \<longleftrightarrow> rest = [] \<or> (\<exists>l. rest = ''|'' # l \<and> piped l 0) \<or>
      (\<exists>a l. rest = a @ l \<and> redirect_in a \<and> acc l MORE_IN 0 1) \<or> (\<exists>a l. rest = a @ l \<and> redirect_out a \<and> acc l MORE_OUT 0 1)"
    unfolding follows_def first_in first_out using acc_CMD_piped by (simp add: within_def)
  also have "\<dots> \<longleftrightarrow> rest = [] \<or> (\<exists>l. rest = ''|'' # l \<and> piped l 0) \<or>
      redirect_in rest \<or> (\<exists>a b. rest = a @ b \<and> redirect_in a \<and> redirect_out b) \<or> (\<exists>a l. rest = a @ ''|'' # l \<and> redirect_in a \<and> piped l 1) \<or>
      redirect_out rest \<or> (\<exists>a b. rest = a @ b \<and> redirect_out a \<and> redirect_in b) \<or>
      (\<exists>a b l. rest = a @ b @ ''|'' # l \<and> redirect_out a \<and> redirect_in b \<and> piped l 2)"
    unfolding in_then out_then by blast
  also have "\<dots> \<longleftrightarrow> whole_redirects rest \<or>
   (\<exists>r l. rest = r @ [''|''] @ l \<and> first_redirects r \<and> piped l (length r div 2))"
    unfolding first_pipe whole_redirects_def conj_disj_distribL ex_disj_distrib by argo
  finally show ?thesis .
qed

lemma acc_shell_line: "acc ts CMD 0 0 \<longleftrightarrow> shell_line ts"
proof -
  have "acc ts CMD 0 0 \<longleftrightarrow> builtin_cmd ts \<or> (\<exists>ws r. ts = ws @ r \<and> simple_cmd ws \<and> whole_redirects r) \<or>
      (\<exists>ws r l. ts = ws @ r @ [''|''] @ l \<and> simple_cmd ws \<and> first_redirects r \<and> piped l (length r div 2))"
    unfolding acc_CMD_simple [of ts 0 0] follows_first within_def by auto
  also have "\<dots> \<longleftrightarrow> shell_line ts"
    unfolding shell_line_def piped_def by auto
  finally show ?thesis .
qed

section \<open>Properties\<close>

text \<open>C7: the syntax check accepts exactly the lines of the grammar, whatever an earlier line left
  behind: built-in commands, a command with its redirections, and pipelines of up to three stages with at most two
  files. In particular the first stage of a pipeline may have its output redirected when the input
  redirection comes last, and the last stage may be a built-in command.\<close>

theorem checkSyntax_grammar:
  assumes "tokenizer cmdLine = ret ts" "length old = 10"
  shows "sh_error (checkSyntax ts old) = 0 \<longleftrightarrow> shell_line ts"
proof -
  have "length ts \<le> length old" using assms by (auto simp: tokenizer_def Let_def split: if_splits)
  from checkSyntax_acc [OF this] acc_shell_line show ?thesis by blast
qed

theorem checkSyntax_grammar_witness:
  "sh_error (checkSyntax [''a'', ''>'', ''o'', ''<'', ''i'', ''|'', ''b''] (replicate 10 NoType)) = 0 \<and>
   shell_line [''a'', ''>'', ''o'', ''<'', ''i'', ''|'', ''b'']"
proof -
  have t: "tokenizer ''a > o < i | b'' = ret [''a'', ''>'', ''o'', ''<'', ''i'', ''|'', ''b'']" by (simp add: tokenizer_def)
  have "sh_error (checkSyntax [''a'', ''>'', ''o'', ''<'', ''i'', ''|'', ''b''] (replicate 10 NoType)) = 0" by code_simp
  with checkSyntax_grammar [OF t, of "replicate 10 NoType"] show ?thesis by simp
qed

end
