(* ===== verification/ShellExec.thy ===== *)
theory ShellExec
  imports ShellSyntax
begin

text \<open>
  Running a line that passed the syntax check (\<open>cmdExe\<close> and \<open>processCreation\<close> in
  \<open>shell/osShell.c\<close>): the tokens are divided into argument vectors and file names, the pipes are made, and every
  child rearranges its descriptors before it runs its program.
\<close>

section \<open>Dividing the tokens\<close>

text \<open>A cell of an argument vector: memory from \<open>malloc\<close>, \<open>NULL\<close>, or a token.\<close>

datatype cell = Garbage | Null | Ptr string

record division =
  command :: "cell list list"
  sh_files :: "(string option \<times> string option) list"
  noCMD :: nat
  argpos :: nat
  outMode :: bool

text \<open>All rows are set to \<open>NULL\<close>, but the first is then allocated once more.\<close>

definition division_init :: division where
  "division_init = \<lparr>command = replicate 10 Garbage # replicate 9 (replicate 10 Null),
     sh_files = replicate 10 (None, None), noCMD = 0, argpos = 0, outMode = False\<rparr>"

definition set_cell :: "nat \<Rightarrow> nat \<Rightarrow> cell \<Rightarrow> division \<Rightarrow> division run" where
  "set_cell c k v s = andthen (aget (command s) (int c)) (\<lambda>row.
     andthen (aset row (int k) v) (\<lambda>row.
     andthen (aset (command s) (int c) row) (\<lambda>t. ret (s\<lparr>command := t\<rparr>))))"

definition divide_token :: "string \<Rightarrow> string \<Rightarrow> ttype \<Rightarrow> division \<Rightarrow> division run" where
  "divide_token prev t ty s =
     (if ty = CommandName \<or> ty = Argument then
        andthen (set_cell (noCMD s) (argpos s) (Ptr t) s) (\<lambda>s. ret (s\<lparr>argpos := argpos s + 1\<rparr>))
      else if ty = Pipe then
        andthen (set_cell (noCMD s) (argpos s) Null s) (\<lambda>s. ret (s\<lparr>noCMD := noCMD s + 1, argpos := 0\<rparr>))
      else if ty = InputFilename then
        andthen (aget (sh_files s) (int (noCMD s))) (\<lambda>(a, b).
        andthen (aset (sh_files s) (int (noCMD s)) (Some t, b)) (\<lambda>f. ret (s\<lparr>sh_files := f\<rparr>)))
      else if ty = OutputFilename then
        andthen (aget (sh_files s) (int (noCMD s))) (\<lambda>(a, b).
        andthen (aset (sh_files s) (int (noCMD s)) (a, Some t)) (\<lambda>f.
        ret (s\<lparr>sh_files := f, outMode := (if prev = ''>'' then False else if prev = ''>>'' then True else outMode s)\<rparr>)))
      else ret s)"

text \<open>After the last token the cell behind the next one of its command is set to \<open>NULL\<close>.\<close>

fun divide_loop :: "string \<Rightarrow> string list \<Rightarrow> ttype list \<Rightarrow> division \<Rightarrow> division run" where
  "divide_loop prev [] tys s = ret s"
| "divide_loop prev (t # ts) tys s =
     (case tys of [] \<Rightarrow> halt OutOfBounds
      | ty # tys \<Rightarrow>
        andthen (divide_token prev t ty s) (\<lambda>s.
        if ts = [] then set_cell (noCMD s) (argpos s + 1) Null s
        else divide_loop t ts tys s))"

definition divide :: "string list \<Rightarrow> ttype list \<Rightarrow> division run" where
  "divide tokens tys = divide_loop [] tokens tys division_init"

text \<open>The argument vector that \<open>execvp\<close> reads: the cells before the first \<open>NULL\<close>.\<close>

fun read_argv :: "cell list \<Rightarrow> string list run" where
  "read_argv [] = halt OutOfBounds"
| "read_argv (Garbage # cs) = halt Uninitialised"
| "read_argv (Null # cs) = ret []"
| "read_argv (Ptr t # cs) = andthen (read_argv cs) (\<lambda>ts. ret (t # ts))"

section \<open>Descriptors\<close>

text \<open>What an open descriptor stands for, and the descriptor table of a process.\<close>

datatype handle = Tty | ReadFile string | WriteFile bool string | PipeRead nat | PipeWrite nat

type_synonym fdtab = "handle option list"

fun lowest :: "fdtab \<Rightarrow> nat" where
  "lowest [] = 0"
| "lowest (None # t) = 0"
| "lowest (Some h # t) = Suc (lowest t)"

definition fd_open :: "handle \<Rightarrow> fdtab \<Rightarrow> nat \<times> fdtab" where
  "fd_open h t = (let n = lowest t in (n, if n < length t then t[n := Some h] else t @ [Some h]))"

definition fd_get :: "fdtab \<Rightarrow> nat \<Rightarrow> handle option" where
  "fd_get t n = (if n < length t then t ! n else None)"

definition fd_dup2 :: "nat \<Rightarrow> nat \<Rightarrow> fdtab \<Rightarrow> fdtab option" where
  "fd_dup2 a b t = (case fd_get t a of None \<Rightarrow> None | Some h \<Rightarrow> if b < length t then Some (t[b := Some h]) else None)"

definition fd_close :: "nat \<Rightarrow> fdtab \<Rightarrow> fdtab option" where
  "fd_close n t = (case fd_get t n of None \<Rightarrow> None | Some h \<Rightarrow> Some (t[n := None]))"

text \<open>Opening a file onto descriptor \<open>n\<close>: \<open>open\<close>, \<open>dup2\<close>, \<open>close\<close>.\<close>

definition redirect :: "bool \<Rightarrow> handle \<Rightarrow> nat \<Rightarrow> fdtab \<Rightarrow> fdtab option" where
  "redirect ok h n t = (if \<not> ok then None
     else (case fd_open h t of (fd, t) \<Rightarrow> Option.bind (fd_dup2 fd n t) (fd_close fd)))"

fun close_all :: "(nat \<times> nat) list \<Rightarrow> fdtab \<Rightarrow> fdtab option" where
  "close_all [] t = Some t"
| "close_all ((r, w) # fds) t = Option.bind (Option.bind (fd_close r t) (fd_close w)) (close_all fds)"

section \<open>One child\<close>

text \<open>
  What the child does before \<open>execvp\<close>: \<open>None\<close> when it exits instead. \<open>can_open\<close> says which files the
  kernel opens for reading (\<open>False\<close>) and writing (\<open>True\<close>). A failing step of the last part lets the others run before
  the child exits, which nobody sees.
\<close>

definition child_setup :: "(bool \<Rightarrow> string \<Rightarrow> bool) \<Rightarrow> string option \<times> string option \<Rightarrow> bool \<Rightarrow>
    (nat \<times> nat) option \<Rightarrow> (nat \<times> nat) option \<Rightarrow> (nat \<times> nat) list \<Rightarrow> nat \<Rightarrow> fdtab \<Rightarrow> fdtab option" where
  "child_setup can_open file out_mode front_fd back_fd fds ioPort t =
     Option.bind (case fst file of None \<Rightarrow> Some t | Some f \<Rightarrow> redirect (can_open False f) (ReadFile f) 0 t) (\<lambda>t.
     Option.bind (case snd file of None \<Rightarrow> Some t | Some f \<Rightarrow> redirect (can_open True f) (WriteFile out_mode f) 1 t) (\<lambda>t.
     Option.bind
       (if ioPort = 1 then Option.bind front_fd (\<lambda>(r, w). fd_dup2 w 1 t)
        else if ioPort = 2 then
          Option.bind front_fd (\<lambda>(r, w). Option.bind (fd_dup2 r 0 t) (\<lambda>t. Option.bind back_fd (\<lambda>(r, w). fd_dup2 w 1 t)))
        else if ioPort = 3 then Option.bind back_fd (\<lambda>(r, w). fd_dup2 r 0 t)
        else Some t)
       (close_all fds)))"

section \<open>The pipeline\<close>

fun make_pipes :: "nat \<Rightarrow> nat \<Rightarrow> fdtab \<Rightarrow> (nat \<times> nat) list \<times> fdtab" where
  "make_pipes i 0 t = ([], t)"
| "make_pipes i (Suc n) t =
     (case fd_open (PipeRead i) t of (r, t) \<Rightarrow>
      (case fd_open (PipeWrite i) t of (w, t) \<Rightarrow>
       (case make_pipes (Suc i) n t of (fds, t) \<Rightarrow> ((r, w) # fds, t))))"

text \<open>The descriptors of child \<open>i\<close>, when every \<open>pipe\<close> and \<open>fork\<close> succeeds. The shell has the terminal
  on 0, 1 and 2.\<close>

definition cmdExe_child :: "(bool \<Rightarrow> string \<Rightarrow> bool) \<Rightarrow> division \<Rightarrow> nat \<Rightarrow> fdtab option" where
  "cmdExe_child can_open s i =
     (case make_pipes 0 (noCMD s) [Some Tty, Some Tty, Some Tty] of (fds, t) \<Rightarrow>
      let file = sh_files s ! i in
      if noCMD s = 0 then child_setup can_open file (outMode s) None None [] 0 t
      else if i = 0 then child_setup can_open file (outMode s) (Some (fds ! 0)) None fds 1 t
      else if i = noCMD s then child_setup can_open file (outMode s) None (Some (fds ! (noCMD s - 1))) fds 3 t
      else child_setup can_open file (outMode s) (Some (fds ! (i - 1))) (Some (fds ! i)) fds 2 t)"

text \<open>The program and the descriptors a line gives to its \<open>i\<close>th child.\<close>

definition cmdExe_run :: "(bool \<Rightarrow> string \<Rightarrow> bool) \<Rightarrow> string list \<Rightarrow> ttype list \<Rightarrow> nat \<Rightarrow> (string list \<times> fdtab) option run" where
  "cmdExe_run can_open tokens tys i =
     andthen (divide tokens tys) (\<lambda>s.
     case cmdExe_child can_open s i of None \<Rightarrow> ret None
     | Some t \<Rightarrow> andthen (read_argv (command s ! i)) (\<lambda>argv. ret (Some (argv, t))))"

section \<open>Lemmas\<close>

lemma set_cell_row:
  assumes "c < length (command s)" "k < length (command s ! c)"
  shows "set_cell c k v s = ret (s\<lparr>command := (command s)[c := (command s ! c)[k := v]]\<rparr>)"
  using assms by (simp add: set_cell_def)

text \<open>What the loop still does after a token: the final cell when no token follows.\<close>

definition divide_rest :: "string \<Rightarrow> string list \<Rightarrow> ttype list \<Rightarrow> division \<Rightarrow> division run" where
  "divide_rest prev ts tys s = (if ts = [] then set_cell (noCMD s) (argpos s + 1) Null s else divide_loop prev ts tys s)"

lemma divide_rest_Cons: "divide_rest prev (t # ts) (ty # tys) s = andthen (divide_token prev t ty s) (divide_rest t ts tys)"
proof -
  have "(\<lambda>s. if ts = [] then set_cell (noCMD s) (argpos s + 1) Null s else divide_loop t ts tys s) = divide_rest t ts tys"
    by (simp add: divide_rest_def fun_eq_iff)
  then show ?thesis by (simp add: divide_rest_def)
qed

lemma divide_rest_loop: "ts \<noteq> [] \<Longrightarrow> divide_loop prev ts tys s = divide_rest prev ts tys s"
  by (simp add: divide_rest_def)

text \<open>The words of a command go to consecutive cells.\<close>

lemma divide_words:
  assumes "noCMD s < length (command s)" "command s ! noCMD s = cs @ ds" "length cs = argpos s" "length ws < length ds"
    and "length tw = length ws" "set tw \<subseteq> {CommandName, Argument}"
  shows "divide_rest prev (ws @ tail) (tw @ tys) s = divide_rest (last (prev # ws)) tail tys
    (s\<lparr>command := (command s)[noCMD s := cs @ map Ptr ws @ drop (length ws) ds], argpos := argpos s + length ws\<rparr>)"
  using assms
proof (induction ws arbitrary: s cs ds prev tw)
  case Nil
  then have "command s = (command s)[noCMD s := cs @ ds]" by (metis list_update_id)
  then have "s = s\<lparr>command := (command s)[noCMD s := cs @ ds], argpos := argpos s\<rparr>" by (cases s) simp
  with Nil show ?case by simp
next
  case (Cons w ws)
  then obtain d ds' ty tw' where d: "ds = d # ds'" "tw = ty # tw'" by (cases ds; cases tw) auto
  let ?s1 = "s\<lparr>command := (command s)[noCMD s := (cs @ [Ptr w]) @ ds'], argpos := argpos s + 1\<rparr>"
  have "set_cell (noCMD s) (argpos s) (Ptr w) s = ret (s\<lparr>command := (command s)[noCMD s := (cs @ [Ptr w]) @ ds']\<rparr>)"
    using Cons.prems d by (subst set_cell_row) (auto simp: list_update_append)
  then have "divide_rest prev ((w # ws) @ tail) (tw @ tys) s = divide_rest w (ws @ tail) (tw' @ tys) ?s1"
    using Cons.prems d by (auto simp add: divide_rest_Cons divide_token_def)
  also have "\<dots> = divide_rest (last (w # ws)) tail tys (?s1\<lparr>command := (command ?s1)[noCMD ?s1 := (cs @ [Ptr w]) @ map Ptr ws @ drop (length ws) ds'],
      argpos := argpos ?s1 + length ws\<rparr>)"
    by (rule Cons.IH) (use Cons.prems d in auto)
  finally show ?case by (simp add: d)
qed

lemma divide_pipe:
  assumes "noCMD s < length (command s)" "argpos s < length (command s ! noCMD s)"
  shows "divide_rest prev (t # tail) (Pipe # tys) s = divide_rest t tail tys
    (s\<lparr>command := (command s)[noCMD s := (command s ! noCMD s)[argpos s := Null]], noCMD := noCMD s + 1, argpos := 0\<rparr>)"
  using assms by (simp add: divide_rest_Cons divide_token_def set_cell_row)

lemma read_argv_ptrs: "read_argv (map Ptr ws @ Null # cs) = ret ws"
  by (induction ws) simp_all

section \<open>Lemmas on descriptor tables\<close>

text \<open>The table while a child is being set up: the pipes are open behind the first three descriptors.\<close>

fun pipe_slots :: "nat \<Rightarrow> nat \<Rightarrow> fdtab" where
  "pipe_slots i 0 = []"
| "pipe_slots i (Suc n) = Some (PipeRead i) # Some (PipeWrite i) # pipe_slots (Suc i) n"

fun pipe_fds :: "nat \<Rightarrow> nat \<Rightarrow> (nat \<times> nat) list" where
  "pipe_fds b 0 = []"
| "pipe_fds b (Suc n) = (b, Suc b) # pipe_fds (b + 2) n"

definition child_table :: "nat \<Rightarrow> handle \<Rightarrow> handle \<Rightarrow> fdtab \<Rightarrow> bool" where
  "child_table n a b t \<longleftrightarrow> (\<exists>k. t = [Some a, Some b, Some Tty] @ pipe_slots 0 n @ replicate k None)"

lemma length_pipe_slots [simp]: "length (pipe_slots i n) = 2 * n"
  by (induction n arbitrary: i) simp_all

lemma length_pipe_fds [simp]: "length (pipe_fds b n) = n"
  by (induction n arbitrary: b) simp_all

lemma nth_pipe_fds [simp]: "i < n \<Longrightarrow> pipe_fds b n ! i = (b + 2 * i, b + 2 * i + 1)"
proof (induction n arbitrary: i b)
  case (Suc n)
  then show ?case by (cases i) simp_all
qed simp

lemma nth_pipe_slots: "j < n \<Longrightarrow> pipe_slots i n ! (2 * j) = Some (PipeRead (i + j)) \<and> pipe_slots i n ! Suc (2 * j) = Some (PipeWrite (i + j))"
proof (induction n arbitrary: i j)
  case (Suc n)
  then show ?case by (cases j) simp_all
qed simp

lemma lowest_append_slots [simp]: "lowest (pipe_slots i n @ t) = 2 * n + lowest t"
  by (induction n arbitrary: i) simp_all

lemma lowest_slots [simp]: "lowest (pipe_slots i n) = 2 * n"
  using lowest_append_slots [of i n "[]"] by simp

lemma lowest_nones [simp]: "lowest (replicate k None) = 0"
  by (cases k) simp_all

lemma lowest_full: "None \<notin> set t \<Longrightarrow> lowest t = length t"
  by (induction t rule: lowest.induct) auto

lemma fd_open_full: "None \<notin> set t \<Longrightarrow> fd_open h t = (length t, t @ [Some h])"
  by (simp add: fd_open_def lowest_full)

lemma make_pipes_slots: "None \<notin> set t \<Longrightarrow> make_pipes i n t = (pipe_fds (length t) n, t @ pipe_slots i n)"
  by (induction n arbitrary: i t) (simp_all add: fd_open_full)

lemma fd_close_simp: "fd_get t n = Some h \<Longrightarrow> fd_close n t = Some (t[n := None])"
  by (simp add: fd_close_def)

lemma fd_dup2_simp: "fd_get t a = Some h \<Longrightarrow> b < length t \<Longrightarrow> fd_dup2 a b t = Some (t[b := Some h])"
  by (simp add: fd_dup2_def)

lemma fd_get_update: "fd_get (t[n := x]) m = (if n < length t \<and> m = n then x else fd_get t m)"
  by (auto simp: fd_get_def nth_list_update)

lemma fd_get_some: "fd_get t n = Some h \<Longrightarrow> n < length t"
  by (simp add: fd_get_def split: if_splits)

text \<open>Closing distinct open descriptors closes those and leaves the others.\<close>

lemma close_all_closes:
  assumes "distinct (concat (map (\<lambda>(r, w). [r, w]) fds))"
    and "\<And>m. m \<in> set (concat (map (\<lambda>(r, w). [r, w]) fds)) \<Longrightarrow> fd_get t m \<noteq> None"
  shows "\<exists>t'. close_all fds t = Some t' \<and>
    (\<forall>m. fd_get t' m = (if m \<in> set (concat (map (\<lambda>(r, w). [r, w]) fds)) then None else fd_get t m))"
  using assms
proof (induction fds arbitrary: t)
  case (Cons p fds)
  obtain r w where p: "p = (r, w)" by fastforce
  with Cons.prems obtain a b where g: "fd_get t r = Some a" "fd_get t w = Some b" "r \<noteq> w" by fastforce
  let ?t = "t[r := None, w := None]"
  have get: "fd_get ?t m = (if m \<in> {r, w} then None else fd_get t m)" for m
    using g by (auto simp: fd_get_update dest: fd_get_some)
  have "fd_close w (t[r := None]) = Some ?t" using g by (simp add: fd_close_simp fd_get_update)
  moreover from Cons.IH [of ?t] obtain t' where "close_all fds ?t = Some t'"
    "\<forall>m. fd_get t' m = (if m \<in> set (concat (map (\<lambda>(r, w). [r, w]) fds)) then None else fd_get ?t m)"
    using Cons.prems p get by fastforce
  ultimately show ?case using g(1) p get by (auto simp: fd_close_simp)
qed simp

lemma set_pipe_fds: "set (concat (map (\<lambda>(r, w). [r, w]) (pipe_fds b n))) = {b..<b + 2 * n}"
  by (induction n arbitrary: b) auto

lemma distinct_pipe_fds: "distinct (concat (map (\<lambda>(r, w). [r, w]) (pipe_fds b n)))"
proof (induction n arbitrary: b)
  case (Suc n)
  then show ?case using set_pipe_fds [of "b + 2" n] by (auto simp del: set_concat)
qed simp

section \<open>Lemmas on the wiring of a child\<close>

lemma child_table_get:
  assumes "child_table n a b t"
  shows "fd_get t 0 = Some a" "fd_get t 1 = Some b" "fd_get t 2 = Some Tty" "length t \<ge> 3 + 2 * n"
    "j < n \<Longrightarrow> fd_get t (3 + 2 * j) = Some (PipeRead j)" "j < n \<Longrightarrow> fd_get t (4 + 2 * j) = Some (PipeWrite j)"
    "m \<ge> 3 + 2 * n \<Longrightarrow> fd_get t m = None"
proof -
  from assms obtain k where t: "t = Some a # Some b # Some Tty # pipe_slots 0 n @ replicate k None"
    by (auto simp: child_table_def)
  then show "fd_get t 0 = Some a" "fd_get t 1 = Some b" "fd_get t 2 = Some Tty" "length t \<ge> 3 + 2 * n"
    by (simp_all add: fd_get_def numeral_eq_Suc)
  show "j < n \<Longrightarrow> fd_get t (3 + 2 * j) = Some (PipeRead j)" "j < n \<Longrightarrow> fd_get t (4 + 2 * j) = Some (PipeWrite j)"
    using nth_pipe_slots [of j n 0] by (simp_all add: t fd_get_def numeral_eq_Suc nth_append)
  show "m \<ge> 3 + 2 * n \<Longrightarrow> fd_get t m = None"
    by (auto simp: t fd_get_def nth_append numeral_eq_Suc nth_Cons' )
qed

lemma child_table_redirect:
  assumes "child_table n a b t"
  shows "\<exists>t'. redirect True h 0 t = Some t' \<and> child_table n h b t'"
    "\<exists>t'. redirect True h 1 t = Some t' \<and> child_table n a h t'"
proof -
  from assms obtain k where t: "t = Some a # Some b # Some Tty # pipe_slots 0 n @ replicate k None"
    by (auto simp: child_table_def)
  let ?t = "Some a # Some b # Some Tty # pipe_slots 0 n @ Some h # replicate (k - 1) None"
  have o: "fd_open h t = (3 + 2 * n, ?t)"
    by (cases k) (simp_all add: t fd_open_def numeral_eq_Suc list_update_append)
  have g: "fd_get ?t (3 + 2 * n) = Some h" by (simp add: fd_get_def numeral_eq_Suc nth_append)
  have "redirect True h 0 t = Some (Some h # Some b # Some Tty # pipe_slots 0 n @ replicate (Suc (k - 1)) None)"
    using o g by (simp add: redirect_def fd_dup2_def fd_close_def fd_get_def numeral_eq_Suc list_update_append)
  then show "\<exists>t'. redirect True h 0 t = Some t' \<and> child_table n h b t'"
    unfolding child_table_def by (auto simp del: replicate_Suc)
  have "redirect True h 1 t = Some (Some a # Some h # Some Tty # pipe_slots 0 n @ replicate (Suc (k - 1)) None)"
    using o g by (simp add: redirect_def fd_dup2_def fd_close_def fd_get_def numeral_eq_Suc list_update_append)
  then show "\<exists>t'. redirect True h 1 t = Some t' \<and> child_table n a h t'"
    unfolding child_table_def by (auto simp del: replicate_Suc)
qed

text \<open>The descriptors of a child that runs: what it reads from and writes to, the terminal, nothing else.\<close>

definition wired :: "handle \<Rightarrow> handle \<Rightarrow> fdtab \<Rightarrow> bool" where
  "wired a b t \<longleftrightarrow> fd_get t 0 = Some a \<and> fd_get t 1 = Some b \<and> fd_get t 2 = Some Tty \<and> (\<forall>m. 3 \<le> m \<longrightarrow> fd_get t m = None)"

lemma close_pipes:
  assumes "child_table n a b t" "u = t[0 := Some c, 1 := Some d]"
  shows "\<exists>t'. close_all (pipe_fds 3 n) u = Some t' \<and> wired c d t'"
proof -
  note g = child_table_get [OF assms(1)]
  have u: "fd_get u m = (if m = 0 then Some c else if m = 1 then Some d else fd_get t m)" for m
    using g(4) by (auto simp: assms(2) fd_get_update)
  have "fd_get u m \<noteq> None" if "3 \<le> m" "m < 3 + 2 * n" for m
  proof -
    have "m = 3 + 2 * ((m - 3) div 2) \<or> m = 4 + 2 * ((m - 3) div 2)" "(m - 3) div 2 < n" using that by linarith+
    then show ?thesis using g(5,6) [of "(m - 3) div 2"] u [of m] that(1) by (metis not_numeral_le_zero numeral_le_one_iff option.distinct(1) semiring_norm(70))
  qed
  then obtain t' where t': "close_all (pipe_fds 3 n) u = Some t'"
    "\<forall>m. fd_get t' m = (if m \<in> {3..<3 + 2 * n} then None else fd_get u m)"
    using close_all_closes [OF distinct_pipe_fds, of 3 n u] unfolding set_pipe_fds by auto
  then have "wired c d t'" using u g(3,7) by (auto simp: wired_def)
  with t' show ?thesis by blast
qed

definition files_open :: "(bool \<Rightarrow> string \<Rightarrow> bool) \<Rightarrow> string option \<times> string option \<Rightarrow> bool" where
  "files_open can_open file \<longleftrightarrow> pred_option (can_open False) (fst file) \<and> pred_option (can_open True) (snd file)"

definition file_in :: "string option \<times> string option \<Rightarrow> handle" where
  "file_in file = (case fst file of None \<Rightarrow> Tty | Some f \<Rightarrow> ReadFile f)"

definition file_out :: "bool \<Rightarrow> string option \<times> string option \<Rightarrow> handle" where
  "file_out app file = (case snd file of None \<Rightarrow> Tty | Some f \<Rightarrow> WriteFile app f)"

text \<open>After the redirections.\<close>

lemma child_redirected:
  assumes "files_open can_open file"
  shows "\<exists>t. child_table n (file_in file) (file_out m file) t \<and>
    child_setup can_open file m front_fd back_fd fds ioPort ([Some Tty, Some Tty, Some Tty] @ pipe_slots 0 n) =
    Option.bind
       (if ioPort = 1 then Option.bind front_fd (\<lambda>(r, w). fd_dup2 w 1 t)
        else if ioPort = 2 then
          Option.bind front_fd (\<lambda>(r, w). Option.bind (fd_dup2 r 0 t) (\<lambda>t. Option.bind back_fd (\<lambda>(r, w). fd_dup2 w 1 t)))
        else if ioPort = 3 then Option.bind back_fd (\<lambda>(r, w). fd_dup2 r 0 t)
        else Some t)
       (close_all fds)"
proof -
  let ?t0 = "[Some Tty, Some Tty, Some Tty] @ pipe_slots 0 n"
  have "child_table n Tty Tty ?t0" unfolding child_table_def by (rule exI [of _ 0]) simp
  with assms obtain t1 where t1: "(case fst file of None \<Rightarrow> Some ?t0 | Some f \<Rightarrow> redirect (can_open False f) (ReadFile f) 0 ?t0) = Some t1"
    "child_table n (file_in file) Tty t1"
    using child_table_redirect(1) [of n Tty Tty ?t0]
    by (cases "fst file") (auto simp: file_in_def files_open_def simp del: append.simps)
  with assms obtain t2 where t2: "(case snd file of None \<Rightarrow> Some t1 | Some f \<Rightarrow> redirect (can_open True f) (WriteFile m f) 1 t1) = Some t2"
    "child_table n (file_in file) (file_out m file) t2"
    using child_table_redirect(2) [OF t1(2)] by (cases "snd file") (auto simp: file_out_def files_open_def)
  show ?thesis
    by (rule exI [of _ t2]) (use t1 t2 in \<open>simp add: child_setup_def del: append.simps\<close>)
qed

lemma cmdExe_child_wired:
  assumes "i \<le> noCMD s" "files_open can_open (sh_files s ! i)"
  shows "\<exists>t. cmdExe_child can_open s i = Some t \<and>
    wired (if i = 0 then file_in (sh_files s ! i) else PipeRead (i - 1))
      (if i = noCMD s then file_out (outMode s) (sh_files s ! i) else PipeWrite i) t"
proof -
  let ?n = "noCMD s" and ?f = "sh_files s ! i"
  have mk: "make_pipes 0 ?n [Some Tty, Some Tty, Some Tty] = (pipe_fds 3 ?n, [Some Tty, Some Tty, Some Tty] @ pipe_slots 0 ?n)"
    using make_pipes_slots [of "[Some Tty, Some Tty, Some Tty]" 0 ?n] by (simp add: eval_nat_numeral)
  note red = child_redirected [OF assms(2), of ?n "outMode s"]
  have upd: "t[0 := fd_get t 0, 1 := fd_get t 1] = t" if "length t \<ge> 3" for t
    using that by (intro nth_equalityI) (auto simp: fd_get_def nth_list_update)
  consider "?n = 0" | "?n > 0" "i = 0" | "0 < i" "i < ?n" | "0 < i" "i = ?n" using assms(1) by linarith
  then show ?thesis
  proof cases
    case 1
    with red [of None None "[]" 0] obtain t where t: "child_table 0 (file_in ?f) (file_out (outMode s) ?f) t"
      "cmdExe_child can_open s i = Some t" using mk assms(1) by (auto simp: cmdExe_child_def Let_def)
    with child_table_get [OF t(1)] have "wired (file_in ?f) (file_out (outMode s) ?f) t" by (simp add: wired_def)
    with t 1 assms(1) show ?thesis by auto
  next
    case 2
    from red [of "Some (pipe_fds 3 ?n ! 0)" None "pipe_fds 3 ?n" 1] obtain t where t: "child_table ?n (file_in ?f) (file_out (outMode s) ?f) t"
      "cmdExe_child can_open s i = Option.bind (fd_dup2 4 1 t) (close_all (pipe_fds 3 ?n))"
      using mk 2 by (auto simp: cmdExe_child_def Let_def)
    note g = child_table_get [OF t(1)]
    have "t[1 := Some (PipeWrite 0)] = t[0 := Some (file_in ?f), 1 := Some (PipeWrite 0)]" using upd [of t] g(1,4) by (metis list_update_id fd_get_def list_update_overwrite option.distinct(1))
    then show ?thesis using close_pipes [OF t(1) refl] g(4) g(6) [of 0] 2 t(2) fd_dup2_simp [of t 4 "PipeWrite 0" 1] by simp
  next
    case 3
    from red [of "Some (pipe_fds 3 ?n ! (i - 1))" "Some (pipe_fds 3 ?n ! i)" "pipe_fds 3 ?n" 2] obtain t where
      t: "child_table ?n (file_in ?f) (file_out (outMode s) ?f) t"
      "cmdExe_child can_open s i = Option.bind (Option.bind (fd_dup2 (3 + 2 * (i - 1)) 0 t) (fd_dup2 (4 + 2 * i) 1)) (close_all (pipe_fds 3 ?n))"
      using mk 3 by (auto simp: cmdExe_child_def Let_def)
    note g = child_table_get [OF t(1)]
    let ?u = "t[0 := Some (PipeRead (i - 1))]"
    have "fd_dup2 (3 + 2 * (i - 1)) 0 t = Some ?u" using g(4) g(5) [of "i - 1"] 3 by (intro fd_dup2_simp) auto
    moreover have "fd_dup2 (4 + 2 * i) 1 ?u = Some (?u[1 := Some (PipeWrite i)])"
      using g(4) g(6) [of i] 3 by (intro fd_dup2_simp) (auto simp: fd_get_update)
    ultimately show ?thesis using close_pipes [OF t(1) refl] 3 t(2) by (simp only: bind.bind_lunit) auto
  next
    case 4
    from red [of None "Some (pipe_fds 3 ?n ! (?n - 1))" "pipe_fds 3 ?n" 3] obtain t where
      t: "child_table ?n (file_in ?f) (file_out (outMode s) ?f) t"
      "cmdExe_child can_open s i = Option.bind (fd_dup2 (3 + 2 * (i - 1)) 0 t) (close_all (pipe_fds 3 ?n))"
      using mk 4 by (auto simp: cmdExe_child_def Let_def)
    note g = child_table_get [OF t(1)]
    have "t[0 := Some (PipeRead (i - 1))] = t[0 := Some (PipeRead (i - 1)), 1 := Some (file_out (outMode s) ?f)]"
      using g(2,4) by (intro nth_equalityI) (auto simp: fd_get_def nth_list_update)
    moreover have "fd_dup2 (3 + 2 * (i - 1)) 0 t = Some (t[0 := Some (PipeRead (i - 1))])"
      using g(4) g(5) [of "i - 1"] 4 by (intro fd_dup2_simp) auto
    ultimately show ?thesis using close_pipes [OF t(1) refl, of "PipeRead (i - 1)" "file_out (outMode s) ?f"] 4 t(2)
      by (simp only: bind.bind_lunit) auto
  qed
qed

end
