(* ===== verification/ShellSpec.thy ===== *)
theory ShellSpec
  imports ShellExec
begin

text \<open>
  What the shell promises for a line it accepts: the stages of a pipeline run with their own words and are connected
  one to the next, and what happens to a line that has no pipe.
\<close>

section \<open>The types of the words of a stage\<close>

fun pipe_tokens :: "string list list \<Rightarrow> string list" where
  "pipe_tokens [] = []"
| "pipe_tokens [ws] = ws"
| "pipe_tokens (ws # stages) = ws @ ''|'' # pipe_tokens stages"

definition word_types :: "string list \<Rightarrow> ttype list" where
  "word_types ws = CommandName # replicate (length ws - 1) Argument"

fun pipe_types :: "string list list \<Rightarrow> ttype list" where
  "pipe_types [] = []"
| "pipe_types [ws] = word_types ws"
| "pipe_types (ws # stages) = word_types ws @ Pipe # pipe_types stages"

lemma length_word_types: "simple_cmd ws \<Longrightarrow> length (word_types ws) = length ws"
  by (cases ws) (simp_all add: word_types_def simple_cmd_def)

lemma set_word_types: "set (word_types ws) \<subseteq> {CommandName, Argument}"
  by (auto simp: word_types_def)

lemma length_pipe_types: "list_all simple_cmd stages \<Longrightarrow> length (pipe_types stages) = length (pipe_tokens stages)"
  by (induction stages rule: pipe_tokens.induct) (simp_all add: length_word_types)

lemma check_args:
  "sh_state s = WAIT_ARG \<Longrightarrow> list_all plain ws \<Longrightarrow> types s = pre @ junk \<Longrightarrow> length pre = i \<Longrightarrow> length ws \<le> length junk \<Longrightarrow>
   check_loop i (ws @ tail) s =
   check_loop (i + length ws) tail (s\<lparr>types := pre @ replicate (length ws) Argument @ drop (length ws) junk\<rparr>)"
proof (induction ws arbitrary: i s pre junk)
  case Nil
  then have "s\<lparr>types := pre @ junk\<rparr> = s" by (cases s) simp
  then show ?case by simp
next
  case (Cons w ws)
  then obtain j junk' where j: "junk = j # junk'" by (cases junk) auto
  have "check_token i w s = s\<lparr>types := (pre @ [Argument]) @ junk'\<rparr>"
    using Cons.prems plain_not_operator [of w] j by (auto simp: check_token_def plain_def list_update_append)
  with Cons.prems show ?case by (simp add: j Cons.IH [where pre = "pre @ [Argument]" and junk = junk'])
qed

lemma check_words:
  assumes "sh_state s = WAIT_CMD" "simple_cmd ws" "types s = pre @ junk" "length pre = i" "length ws \<le> length junk"
  shows "check_loop i (ws @ tail) s =
    check_loop (i + length ws) tail (s\<lparr>sh_state := WAIT_ARG, types := pre @ word_types ws @ drop (length ws) junk\<rparr>)"
proof -
  from assms obtain w ws' j junk' where w: "ws = w # ws'" "junk = j # junk'" by (cases ws; cases junk) (auto simp: simple_cmd_def)
  with assms have "check_token i w s = s\<lparr>sh_state := WAIT_ARG, types := (pre @ [CommandName]) @ junk'\<rparr>"
    by (auto simp: check_token_def simple_cmd_def plain_def sh_go_def list_update_append)
  with assms w show ?thesis
    by (simp add: check_args [where pre = "pre @ [CommandName]" and junk = junk'] simple_cmd_def word_types_def)
qed

lemma check_pipe:
  assumes "sh_state s = WAIT_ARG \<or> sh_state s = WAIT_MORE \<and> recursive s = 0 \<and> last pre = InputFilename \<and> pre \<noteq> []"
    "types s = pre @ junk" "length pre = i" "junk \<noteq> []"
  shows "check_loop i (''|'' # tail) s =
    check_loop (Suc i) tail (s\<lparr>sh_state := WAIT_CMD, recursive := recursive s + 1, types := pre @ Pipe # tl junk\<rparr>)"
proof -
  from assms(4) obtain j junk' where j: "junk = j # junk'" by (cases junk) auto
  have "types s ! (i - 1) = last pre" if "pre \<noteq> []" using that assms by (auto simp: nth_append last_conv_nth)
  with assms j have "check_token i ''|'' s = s\<lparr>sh_state := WAIT_CMD, recursive := recursive s + 1, types := pre @ Pipe # tl junk\<rparr>"
    by (cases s) (auto simp: check_token_def sh_go_def list_update_append)
  then show ?thesis by simp
qed

lemma check_stages:
  assumes "stages \<noteq> []" "list_all simple_cmd stages" "sh_state s = WAIT_CMD" "types s = pre @ junk" "length pre = i"
    "length (pipe_tokens stages) \<le> length junk"
  shows "check_loop i (pipe_tokens stages @ tail) s = check_loop (i + length (pipe_tokens stages)) tail
    (s\<lparr>sh_state := WAIT_ARG, recursive := recursive s + (length stages - 1),
       types := pre @ pipe_types stages @ drop (length (pipe_tokens stages)) junk\<rparr>)"
  using assms
proof (induction stages arbitrary: i s pre junk rule: pipe_tokens.induct)
  case 1
  then show ?case by simp
next
  case (2 ws)
  have "s\<lparr>sh_state := WAIT_ARG, types := x, recursive := recursive s\<rparr> = s\<lparr>sh_state := WAIT_ARG, types := x\<rparr>" for x
    by (cases s) simp
  with 2 show ?case by (simp add: check_words)
next
  case (3 ws v vs)
  let ?j1 = "drop (length ws) junk" and ?st = "v # vs"
  have "check_loop i (pipe_tokens (ws # ?st) @ tail) s = check_loop (i + length ws) (''|'' # (pipe_tokens ?st @ tail))
      (s\<lparr>sh_state := WAIT_ARG, types := (pre @ word_types ws) @ ?j1\<rparr>)"
    using 3 by (simp add: check_words [where pre = pre and junk = junk])
  also have "\<dots> = check_loop (Suc (i + length ws)) (pipe_tokens ?st @ tail)
      (s\<lparr>sh_state := WAIT_CMD, recursive := recursive s + 1, types := ((pre @ word_types ws) @ [Pipe]) @ tl ?j1\<rparr>)"
    using "3.prems" by (subst check_pipe [where pre = "pre @ word_types ws" and junk = ?j1]) (auto simp: length_word_types)
  also have "\<dots> = check_loop (Suc (i + length ws) + length (pipe_tokens ?st)) tail
      (s\<lparr>sh_state := WAIT_ARG, recursive := recursive s + 1 + (length ?st - 1),
         types := ((pre @ word_types ws) @ [Pipe]) @ pipe_types ?st @ drop (length (pipe_tokens ?st)) (tl ?j1)\<rparr>)"
    using "3.prems" by (subst "3.IH" [where pre = "(pre @ word_types ws) @ [Pipe]" and junk = "tl ?j1"]) (auto simp: length_word_types)
  finally show ?case by (simp add: ac_simps drop_Suc [symmetric] del: drop_drop) (simp add: ac_simps drop_Suc tl_drop)
qed

section \<open>The argument vectors of the stages\<close>

lemma divide_stages:
  assumes "stages \<noteq> []" "list_all simple_cmd stages" "length (pipe_tokens stages) < 10"
    and "noCMD s + length stages \<le> 10" "length (command s) = 10" "\<forall>row\<in>set (command s). length row = 10" "argpos s = 0"
  shows "\<exists>s' prev'. divide_rest prev (pipe_tokens stages @ rest) (pipe_types stages @ tys) s = divide_rest prev' rest tys s' \<and>
    noCMD s' = noCMD s + (length stages - 1) \<and> argpos s' = length (last stages) \<and> sh_files s' = sh_files s \<and> outMode s' = outMode s \<and>
    length (command s') = 10 \<and> (\<forall>row\<in>set (command s'). length row = 10) \<and>
    (\<forall>j. j < noCMD s \<longrightarrow> command s' ! j = command s ! j) \<and>
    (\<forall>j. j + 1 < length stages \<longrightarrow> read_argv (command s' ! (noCMD s + j)) = ret (stages ! j)) \<and>
    command s' ! noCMD s' = map Ptr (last stages) @ drop (length (last stages)) (command s ! noCMD s')"
  using assms
proof (induction stages arbitrary: s prev rule: pipe_tokens.induct)
  case 1
  then show ?case by simp
next
  case (2 ws)
  then have row: "length (command s ! noCMD s) = 10" "noCMD s < 10" by simp_all
  let ?row = "map Ptr ws @ drop (length ws) (command s ! noCMD s)"
  let ?s1 = "s\<lparr>command := (command s)[noCMD s := ?row], argpos := length ws\<rparr>"
  have "divide_rest prev (pipe_tokens [ws] @ rest) (pipe_types [ws] @ tys) s = divide_rest (last (prev # ws)) rest tys ?s1"
    using 2 row by (simp add: divide_words [where cs = "[]" and ds = "command s ! noCMD s"] length_word_types set_word_types)
  moreover have "\<forall>row\<in>set (command ?s1). length row = 10"
    using "2.prems"(3,6) row by (auto dest!: set_update_subset_insert [THEN subsetD])
  ultimately show ?case using 2 row by (intro exI [of _ ?s1] exI [of _ "last (prev # ws)"]) simp
next
  case (3 ws v vs)
  let ?st = "v # vs" and ?c = "noCMD s"
  have row: "length (command s ! ?c) = 10" and c: "?c < 10" "length ws < 10" using "3.prems" by auto
  let ?row = "map Ptr ws @ Null # drop (Suc (length ws)) (command s ! ?c)"
  let ?s1 = "s\<lparr>command := (command s)[?c := ?row], noCMD := ?c + 1, argpos := 0\<rparr>"
  have upd: "(map Ptr ws @ drop (length ws) (command s ! ?c))[length ws := Null] = ?row"
    using row c by (simp add: list_update_append Cons_nth_drop_Suc [symmetric])
  have step: "divide_rest prev (pipe_tokens (ws # ?st) @ rest) (pipe_types (ws # ?st) @ tys) s
      = divide_rest ''|'' (pipe_tokens ?st @ rest) (pipe_types ?st @ tys) ?s1"
    using "3.prems" row c
    by (simp add: divide_words [where cs = "[]" and ds = "command s ! ?c"] length_word_types set_word_types divide_pipe upd)
  have rows: "\<forall>row\<in>set (command ?s1). length row = 10"
    using "3.prems"(6) row c by (auto dest!: set_update_subset_insert [THEN subsetD])
  obtain s' prev' where ih: "divide_rest ''|'' (pipe_tokens ?st @ rest) (pipe_types ?st @ tys) ?s1 = divide_rest prev' rest tys s'"
    "noCMD s' = noCMD ?s1 + (length ?st - 1)" "argpos s' = length (last ?st)" "sh_files s' = sh_files s" "outMode s' = outMode s"
    "length (command s') = 10" "\<forall>row\<in>set (command s'). length row = 10"
    "\<forall>j. j < noCMD ?s1 \<longrightarrow> command s' ! j = command ?s1 ! j"
    "\<forall>j. j + 1 < length ?st \<longrightarrow> read_argv (command s' ! (noCMD ?s1 + j)) = ret (?st ! j)"
    "command s' ! noCMD s' = map Ptr (last ?st) @ drop (length (last ?st)) (command ?s1 ! noCMD s')"
    using "3.IH" [of ?s1 "''|''"] "3.prems" rows by auto
  have argv: "read_argv (command s' ! (?c + j)) = ret ((ws # ?st) ! j)" if "j + 1 < length (ws # ?st)" for j
  proof (cases j)
    case 0
    have "command s' ! ?c = ?row" using ih(8) "3.prems" c by (simp add: nth_list_update)
    with 0 show ?thesis by (simp add: read_argv_ptrs)
  next
    case (Suc k)
    then show ?thesis using ih(9) that by auto
  qed
  have "command s' ! j = command s ! j" if "j < ?c" for j using ih(8) that by (simp add: nth_list_update)
  moreover have "command ?s1 ! noCMD s' = command s ! noCMD s'" using ih(2) by (simp add: nth_list_update)
  ultimately show ?case using step ih argv by (intro exI [of _ s'] exI [of _ prev']) auto
qed

section \<open>A whole pipeline\<close>

definition in_tokens :: "string option \<Rightarrow> string list" where
  "in_tokens inp = (case inp of None \<Rightarrow> [] | Some f \<Rightarrow> [''<'', f])"

definition in_types :: "string option \<Rightarrow> ttype list" where
  "in_types inp = (case inp of None \<Rightarrow> [] | Some f \<Rightarrow> [RedirectInput, InputFilename])"

definition out_tokens :: "(bool \<times> string) option \<Rightarrow> string list" where
  "out_tokens outp = (case outp of None \<Rightarrow> [] | Some (app, f) \<Rightarrow> [if app then ''>>'' else ''>'', f])"

definition out_types :: "(bool \<times> string) option \<Rightarrow> ttype list" where
  "out_types outp = (case outp of None \<Rightarrow> [] | Some (app, f) \<Rightarrow> [RedirectOutput, OutputFilename])"

definition pipeline :: "string list \<Rightarrow> string option \<Rightarrow> string list list \<Rightarrow> (bool \<times> string) option \<Rightarrow> string list" where
  "pipeline ws inp stages outp = ws @ in_tokens inp @ ''|'' # pipe_tokens stages @ out_tokens outp"

definition stage_in :: "string option \<Rightarrow> nat \<Rightarrow> handle" where
  "stage_in inp i = (if i = 0 then (case inp of None \<Rightarrow> Tty | Some f \<Rightarrow> ReadFile f) else PipeRead (i - 1))"

definition stage_out :: "(bool \<times> string) option \<Rightarrow> nat \<Rightarrow> nat \<Rightarrow> handle" where
  "stage_out outp n i = (if i = n then (case outp of None \<Rightarrow> Tty | Some (app, f) \<Rightarrow> WriteFile app f) else PipeWrite i)"

lemmas redirection_defs = in_tokens_def in_types_def out_tokens_def out_types_def

lemma check_in:
  assumes "sh_state s = WAIT_ARG" "recursive s = 0" "types s = pre @ junk" "length pre = i" "length (in_tokens inp) \<le> length junk"
    "pred_option plain inp"
  shows "\<exists>s'. check_loop i (in_tokens inp @ tail) s = check_loop (i + length (in_tokens inp)) tail s' \<and>
    (sh_state s' = WAIT_ARG \<or> sh_state s' = WAIT_MORE \<and> last (pre @ in_types inp) = InputFilename \<and> pre @ in_types inp \<noteq> []) \<and>
    types s' = (pre @ in_types inp) @ drop (length (in_tokens inp)) junk \<and> recursive s' = 0 \<and>
    fileQuota s' = fileQuota s + length (in_tokens inp) div 2 \<and> sh_error s' = sh_error s"
proof (cases inp)
  case None
  with assms show ?thesis by (intro exI [of _ s]) (simp add: redirection_defs)
next
  case (Some f)
  then obtain a b junk' where j: "junk = a # b # junk'"
    using assms(5) by (auto simp: redirection_defs Suc_le_length_iff)
  let ?s = "s\<lparr>sh_state := WAIT_MORE, fileQuota := fileQuota s + 1, types := pre @ RedirectInput # InputFilename # junk'\<rparr>"
  have "check_loop i (in_tokens inp @ tail) s = check_loop (i + 2) tail ?s"
    using assms Some j by (cases s) (auto simp: redirection_defs check_token_def plain_def sh_go_def list_update_append)
  with Some j assms show ?thesis by (intro exI [of _ ?s]) (simp add: redirection_defs)
qed

lemma check_out:
  assumes "sh_state s = WAIT_ARG" "types s = pre @ junk" "length pre = i" "length (out_tokens outp) \<le> length junk"
    "pred_option (\<lambda>(app, f). plain f) outp"
  shows "\<exists>s'. check_loop i (out_tokens outp) s = s' \<and> sh_state s' \<in> {WAIT_ARG, WAIT_MORE} \<and>
    types s' = pre @ out_types outp @ drop (length (out_tokens outp)) junk \<and> recursive s' = recursive s \<and>
    fileQuota s' = fileQuota s + length (out_tokens outp) div 2 \<and> sh_error s' = sh_error s"
proof (cases outp)
  case None
  with assms show ?thesis by (simp add: redirection_defs)
next
  case (Some p)
  then obtain app f a b junk' where j: "junk = a # b # junk'" "p = (app, f)"
    using assms(4) by (cases p) (auto simp: redirection_defs Suc_le_length_iff)
  let ?s = "s\<lparr>sh_state := WAIT_MORE, fileQuota := fileQuota s + 1, types := pre @ RedirectOutput # OutputFilename # junk'\<rparr>"
  have "check_loop i (out_tokens outp) s = ?s"
    using assms Some j by (cases s) (auto simp: redirection_defs check_token_def plain_def sh_go_def list_update_append)
  with Some j assms show ?thesis by (simp add: redirection_defs)
qed

lemma check_pipeline:
  assumes "simple_cmd ws" "list_all simple_cmd stages" "stages \<noteq> []" "length stages \<le> 2"
    and "pred_option plain inp" "pred_option (\<lambda>(app, f). plain f) outp"
    and "length (pipeline ws inp stages outp) \<le> length old"
  shows "sh_error (checkSyntax (pipeline ws inp stages outp) old) = 0 \<and>
    (\<exists>junk. types (checkSyntax (pipeline ws inp stages outp) old) =
       word_types ws @ in_types inp @ Pipe # pipe_types stages @ out_types outp @ junk)"
proof -
  let ?s0 = "\<lparr>sh_state = WAIT_CMD, sh_error = 0, recursive = 0, fileQuota = 0, builtInDetect = False, types = old\<rparr>"
  let ?n1 = "length ws" and ?n2 = "length ws + length (in_tokens inp)"
  let ?p1 = "word_types ws" and ?p2 = "(word_types ws @ in_types inp) @ [Pipe]"
  have len: "length ws + length (in_tokens inp) + Suc (length (pipe_tokens stages) + length (out_tokens outp)) \<le> length old"
    using assms(7) by (simp add: pipeline_def)
  have l1: "length ?p1 = ?n1" "length (in_types inp) = length (in_tokens inp)" using length_word_types [OF assms(1)]
    by (auto simp: redirection_defs split: option.splits)
  let ?s1 = "?s0\<lparr>sh_state := WAIT_ARG, types := ?p1 @ drop ?n1 old\<rparr>"
  have c1: "check_loop 0 (pipeline ws inp stages outp) ?s0 = check_loop ?n1 (in_tokens inp @ ''|'' # pipe_tokens stages @ out_tokens outp) ?s1"
    unfolding pipeline_def using assms len by (subst check_words [where pre = "[]" and junk = old]) auto
  obtain s2 where s2: "check_loop ?n1 (in_tokens inp @ ''|'' # pipe_tokens stages @ out_tokens outp) ?s1 =
      check_loop ?n2 (''|'' # pipe_tokens stages @ out_tokens outp) s2"
    "sh_state s2 = WAIT_ARG \<or> sh_state s2 = WAIT_MORE \<and> last (?p1 @ in_types inp) = InputFilename \<and> ?p1 @ in_types inp \<noteq> []"
    "types s2 = (?p1 @ in_types inp) @ drop (length (in_tokens inp)) (drop ?n1 old)" "recursive s2 = 0"
    "fileQuota s2 = fileQuota ?s1 + length (in_tokens inp) div 2" "sh_error s2 = sh_error ?s1"
  proof -
    have "sh_state ?s1 = WAIT_ARG" "recursive ?s1 = 0" "types ?s1 = ?p1 @ drop ?n1 old" "length (in_tokens inp) \<le> length (drop ?n1 old)"
      using len by simp_all
    from check_in [OF this(1-3) l1(1) this(4) assms(5)] that show ?thesis by blast
  qed
  let ?j2 = "drop (length (in_tokens inp)) (drop ?n1 old)"
  let ?s3 = "s2\<lparr>sh_state := WAIT_CMD, recursive := 1, types := ?p2 @ tl ?j2\<rparr>"
  have c3: "check_loop ?n2 (''|'' # pipe_tokens stages @ out_tokens outp) s2 = check_loop (Suc ?n2) (pipe_tokens stages @ out_tokens outp) ?s3"
    using s2 l1 len by (subst check_pipe [where pre = "?p1 @ in_types inp" and junk = ?j2]) auto
  let ?j3 = "drop (length (pipe_tokens stages)) (tl ?j2)" and ?p4 = "?p2 @ pipe_types stages"
  let ?s4 = "?s3\<lparr>sh_state := WAIT_ARG, recursive := length stages, types := ?p4 @ ?j3\<rparr>"
  have c4: "check_loop (Suc ?n2) (pipe_tokens stages @ out_tokens outp) ?s3 =
      check_loop (Suc ?n2 + length (pipe_tokens stages)) (out_tokens outp) ?s4"
    using assms l1 len by (subst check_stages [where pre = ?p2 and junk = "tl ?j2"]) auto
  obtain s5 where s5: "check_loop (Suc ?n2 + length (pipe_tokens stages)) (out_tokens outp) ?s4 = s5"
    "sh_state s5 \<in> {WAIT_ARG, WAIT_MORE}" "types s5 = ?p4 @ out_types outp @ drop (length (out_tokens outp)) ?j3"
    "recursive s5 = length stages" "fileQuota s5 = fileQuota ?s4 + length (out_tokens outp) div 2" "sh_error s5 = sh_error ?s4"
  proof -
    have "sh_state ?s4 = WAIT_ARG" "types ?s4 = ?p4 @ ?j3" "length ?p4 = Suc ?n2 + length (pipe_tokens stages)"
      "length (out_tokens outp) \<le> length ?j3"
      using len l1 assms(2) by (simp_all add: length_pipe_types)
    from check_out [OF this assms(6)] that show ?thesis by force
  qed
  have "length (in_tokens inp) div 2 + length (out_tokens outp) div 2 \<le> 2"
    by (auto simp: redirection_defs split: option.splits)
  moreover have "checkSyntax (pipeline ws inp stages outp) old = check_end s5"
    unfolding checkSyntax_def c1 s2(1) c3 c4 s5(1) ..
  ultimately show ?thesis using s5 s2(5,6) assms(4) by (auto simp: check_end_def)
qed

text \<open>Setting the final cells of the last stage.\<close>

lemma divide_out:
  assumes "length (command s) = 10" "\<forall>row\<in>set (command s). length row = 10" "noCMD s < 10" "argpos s < 9" "length (sh_files s) = 10"
    and "sh_files s ! noCMD s = (None, None)"
  shows "\<exists>s'. divide_rest prev (out_tokens outp) (out_types outp @ junk) s = ret s' \<and>
    noCMD s' = noCMD s \<and> command s' = (command s)[noCMD s := (command s ! noCMD s)[argpos s + 1 := Null]] \<and>
    sh_files s' = (sh_files s)[noCMD s := (None, map_option snd outp)] \<and>
    outMode s' = (case outp of None \<Rightarrow> outMode s | Some (app, f) \<Rightarrow> app)"
proof (cases outp)
  case None
  with assms show ?thesis by (simp add: redirection_defs divide_rest_def set_cell_row list_update_id [of "sh_files s" "noCMD s", unfolded assms(6)])
next
  case (Some p)
  then obtain app f where p: "outp = Some (app, f)" by (cases p) auto
  let ?s = "s\<lparr>sh_files := (sh_files s)[noCMD s := (None, Some f)], outMode := app\<rparr>"
  have "divide_rest prev (out_tokens outp) (out_types outp @ junk) s = divide_rest f [] junk ?s"
    using assms p by (simp add: redirection_defs divide_rest_Cons divide_token_def)
  with assms p show ?thesis by (simp add: divide_rest_def set_cell_row)
qed

lemma pipe_tokens_length: "list_all simple_cmd stages \<Longrightarrow> length stages \<le> length (pipe_tokens stages)"
proof (induction stages rule: pipe_tokens.induct)
  case (3 ws v vs)
  then show ?case by (cases ws) (auto simp: simple_cmd_def)
qed (auto simp: simple_cmd_def Suc_le_eq)

lemma last_stage_length: "stages \<noteq> [] \<Longrightarrow> length (last stages) \<le> length (pipe_tokens stages)"
  by (induction stages rule: pipe_tokens.induct) simp_all

lemma divide_first:
  assumes "simple_cmd ws" "length ws < 9"
  shows "\<exists>s prev' row. divide (ws @ in_tokens inp @ ''|'' # tail) (word_types ws @ in_types inp @ Pipe # tys) = divide_rest prev' tail tys s \<and>
    command s = row # replicate 9 (replicate 10 Null) \<and> length row = 10 \<and> read_argv row = ret ws \<and>
    sh_files s = (inp, None) # replicate 9 (None, None) \<and> noCMD s = 1 \<and> argpos s = 0 \<and> \<not> outMode s"
proof -
  let ?i = division_init
  let ?row = "map Ptr ws @ Null # replicate (9 - length ws) Garbage"
  let ?s1 = "?i\<lparr>command := (map Ptr ws @ replicate (10 - length ws) Garbage) # replicate 9 (replicate 10 Null), argpos := length ws\<rparr>"
  let ?s2 = "?s1\<lparr>sh_files := (inp, None) # replicate 9 (None, None)\<rparr>"
  let ?s3 = "?s2\<lparr>command := ?row # replicate 9 (replicate 10 Null), noCMD := 1, argpos := 0\<rparr>"
  have "divide (ws @ in_tokens inp @ ''|'' # tail) (word_types ws @ in_types inp @ Pipe # tys)
      = divide_rest (last ([] # ws)) (in_tokens inp @ ''|'' # tail) (in_types inp @ Pipe # tys) ?s1"
    unfolding divide_def using assms
    by (subst divide_rest_loop, simp, subst divide_words [where cs = "[]" and ds = "replicate 10 Garbage"])
      (simp_all add: division_init_def length_word_types set_word_types)
  also have "\<dots> = divide_rest (case inp of None \<Rightarrow> last ([] # ws) | Some f \<Rightarrow> f) (''|'' # tail) (Pipe # tys) ?s2"
  proof -
    have "replicate 10 x = x # replicate 9 x" for x :: "string option \<times> string option" by (simp add: numeral_eq_Suc)
    then show ?thesis by (cases inp) (simp_all add: redirection_defs divide_rest_Cons divide_token_def division_init_def aget_def aset_def)
  qed
  also have "\<dots> = divide_rest ''|'' tail tys ?s3"
  proof -
    have "(map Ptr ws @ replicate (10 - length ws) Garbage)[length ws := Null] = ?row"
    proof -
      from assms(2) have "10 - length ws = Suc (9 - length ws)" by simp
      then show ?thesis by (simp add: list_update_append)
    qed
    then show ?thesis using assms(2) by (subst divide_pipe) (simp_all add: division_init_def)
  qed
  finally show ?thesis using assms(2)
    by (intro exI [of _ ?s3] exI [of _ "''|''"] exI [of _ ?row]) (simp add: read_argv_ptrs division_init_def)
qed

text \<open>The argument vectors of a pipeline whose last row has just been ended.\<close>

lemma pipeline_argv:
  assumes "i \<le> length stages" "stages \<noteq> []" "length stages < length rows" "read_argv (rows ! 0) = ret ws"
    "\<forall>j. Suc j < length stages \<longrightarrow> read_argv (rows ! Suc j) = ret (stages ! j)"
    "rows' = rows[length stages := map Ptr (last stages) @ Null # row]"
  shows "read_argv (rows' ! i) = ret ((ws # stages) ! i)"
proof -
  consider "i = length stages" | "i = 0" "i < length stages" | j where "i = Suc j" "Suc j < length stages"
    using assms(1,2) by (cases i) force+
  then show ?thesis
    using assms(2-5) by cases (simp_all add: assms(6) read_argv_ptrs nth_Cons' last_conv_nth)
qed

lemma divide_pipeline:
  assumes "simple_cmd ws" "list_all simple_cmd stages" "stages \<noteq> []" "length (pipeline ws inp stages outp) < 10"
  shows "\<exists>s. divide (pipeline ws inp stages outp) (word_types ws @ in_types inp @ Pipe # pipe_types stages @ out_types outp @ junk) = ret s \<and>
    noCMD s = length stages \<and> (\<forall>i\<le>length stages. read_argv (command s ! i) = ret ((ws # stages) ! i)) \<and>
    (\<forall>i\<le>length stages. sh_files s ! i = (if i = 0 then inp else None, if i = length stages then map_option snd outp else None)) \<and>
    outMode s = (case outp of None \<Rightarrow> False | Some (app, f) \<Rightarrow> app)"
proof -
  let ?n = "length stages"
  have len: "length ws + length (pipe_tokens stages) < 9" using assms(4) by (simp add: pipeline_def)
  note plen = pipe_tokens_length [OF assms(2)] last_stage_length [OF assms(3)]
  obtain s1 prev1 row where s1: "divide (pipeline ws inp stages outp) (word_types ws @ in_types inp @ Pipe # pipe_types stages @ out_types outp @ junk)
      = divide_rest prev1 (pipe_tokens stages @ out_tokens outp) (pipe_types stages @ out_types outp @ junk) s1"
    "command s1 = row # replicate 9 (replicate 10 Null)" "length row = 10" "read_argv row = ret ws"
    "sh_files s1 = (inp, None) # replicate 9 (None, None)" "noCMD s1 = 1" "argpos s1 = 0" "\<not> outMode s1"
    unfolding pipeline_def using divide_first [OF assms(1)] len by (meson add_lessD1)
  obtain s2 prev2 where s2: "divide_rest prev1 (pipe_tokens stages @ out_tokens outp) (pipe_types stages @ out_types outp @ junk) s1 =
      divide_rest prev2 (out_tokens outp) (out_types outp @ junk) s2"
    "noCMD s2 = noCMD s1 + (?n - 1)" "argpos s2 = length (last stages)" "sh_files s2 = sh_files s1" "outMode s2 = outMode s1"
    "length (command s2) = 10" "\<forall>row\<in>set (command s2). length row = 10" "\<forall>j. j < noCMD s1 \<longrightarrow> command s2 ! j = command s1 ! j"
    "\<forall>j. j + 1 < ?n \<longrightarrow> read_argv (command s2 ! (noCMD s1 + j)) = ret (stages ! j)"
    "command s2 ! noCMD s2 = map Ptr (last stages) @ drop (length (last stages)) (command s1 ! noCMD s2)"
    using divide_stages [OF assms(3,2), of s1 prev1 "out_tokens outp" "out_types outp @ junk"] s1 len plen by auto
  have n: "noCMD s2 = ?n" "?n < 10" "0 < ?n" using s2(2) s1(6) assms(3) len plen by (cases stages; simp)+
  have row1: "command s1 ! ?n = replicate 10 Null" "sh_files s1 ! ?n = (None, None)" using s1(2,5) n by (simp_all add: nth_Cons')
  obtain s3 where s3: "divide_rest prev2 (out_tokens outp) (out_types outp @ junk) s2 = ret s3" "noCMD s3 = ?n"
    "command s3 = (command s2)[?n := (command s2 ! ?n)[length (last stages) + 1 := Null]]"
    "sh_files s3 = (sh_files s2)[?n := (None, map_option snd outp)]" "outMode s3 = (case outp of None \<Rightarrow> outMode s2 | Some (app, f) \<Rightarrow> app)"
  proof -
    have "noCMD s2 < 10" "argpos s2 < 9" "length (sh_files s2) = 10" "sh_files s2 ! noCMD s2 = (None, None)"
      using s1(5) s2(3,4) n len plen row1 by simp_all
    from divide_out [OF s2(6,7) this, of prev2 outp junk] that s2(3) n(1) show ?thesis by (metis (no_types))
  qed
  have lastrow: "(command s2 ! ?n)[length (last stages) + 1 := Null] = map Ptr (last stages) @ Null # replicate (9 - length (last stages)) Null"
  proof -
    from len plen have "10 - length (last stages) = Suc (Suc (8 - length (last stages)))"
      "9 - length (last stages) = Suc (8 - length (last stages))" by simp_all
    with s2(10) n row1 show ?thesis by (simp add: list_update_append)
  qed
  have argv: "read_argv (command s3 ! i) = ret ((ws # stages) ! i)" if "i \<le> ?n" for i
    using pipeline_argv [OF that assms(3), of "command s2" ws, OF _ _ _ s3(3) [unfolded lastrow]] n s1(2,4,6) s2(6,8,9) by simp
  have files: "sh_files s3 ! i = (if i = 0 then inp else None, if i = ?n then map_option snd outp else None)" if "i \<le> ?n" for i
    using that n s1(5) s2(4) by (cases stages) (auto simp: s3(4) nth_list_update nth_Cons')
  show ?thesis using s1(1,8) s2(1,5) s3 argv files by (auto split: option.splits)
qed

section \<open>Properties\<close>

text \<open>C8: A line of two or three stages, the first reading from a file and the last writing or
  appending to one if the line says so, passes the syntax check, and every child runs with the words of
  its stage, reads the pipe of the stage before it and writes the pipe to the next, with every
  other end of every pipe closed, so that end of file travels down the pipeline.\<close>

theorem pipeline_runs:
  assumes "simple_cmd ws" "list_all simple_cmd stages" "stages \<noteq> []" "length stages \<le> 2"
    and "pred_option plain inp" "pred_option (\<lambda>(app, f). plain f) outp"
    and "pred_option (can_open False) inp" "pred_option (\<lambda>(app, f). can_open True f) outp"
    and "length (pipeline ws inp stages outp) < 10" "length old = 10" "i \<le> length stages"
  shows "let s = checkSyntax (pipeline ws inp stages outp) old
    in sh_error s = 0 \<and> (\<exists>t. cmdExe_run can_open (pipeline ws inp stages outp) (types s) i = ret (Some ((ws # stages) ! i, t)) \<and>
         wired (stage_in inp i) (stage_out outp (length stages) i) t)"
proof -
  from assms(9,10) have le: "length (pipeline ws inp stages outp) \<le> length old" by simp
  from check_pipeline [OF assms(1-6) le] obtain junk where ok: "sh_error (checkSyntax (pipeline ws inp stages outp) old) = 0"
    "types (checkSyntax (pipeline ws inp stages outp) old) = word_types ws @ in_types inp @ Pipe # pipe_types stages @ out_types outp @ junk"
    by blast
  from divide_pipeline [OF assms(1-3,9), of junk] obtain s where s:
    "divide (pipeline ws inp stages outp) (types (checkSyntax (pipeline ws inp stages outp) old)) = ret s" "noCMD s = length stages"
    "read_argv (command s ! i) = ret ((ws # stages) ! i)"
    "sh_files s ! i = (if i = 0 then inp else None, if i = length stages then map_option snd outp else None)"
    "outMode s = (case outp of None \<Rightarrow> False | Some (app, f) \<Rightarrow> app)"
    unfolding ok using assms(11) by blast
  have "files_open can_open (sh_files s ! i)"
    using assms(7,8) by (cases outp) (auto simp: s(4) files_open_def)
  from cmdExe_child_wired [OF _ this] assms(11) s(2) obtain t where t: "cmdExe_child can_open s i = Some t"
    "wired (if i = 0 then file_in (sh_files s ! i) else PipeRead (i - 1))
      (if i = noCMD s then file_out (outMode s) (sh_files s ! i) else PipeWrite i) t" by auto
  then have "wired (stage_in inp i) (stage_out outp (length stages) i) t"
    using s(2,4,5) assms(3) by (cases outp) (auto simp: stage_in_def stage_out_def file_in_def file_out_def split: option.splits)
  with t(1) s(1,3) ok(1) show ?thesis by (simp add: cmdExe_run_def)
qed

theorem pipeline_runs_witness:
  "let line = [''sort'', ''<'', ''in'', ''|'', ''uniq'', ''-c'', ''>>'', ''out'']; s = checkSyntax line (replicate 10 NoType)
   in sh_error s = 0 \<and> (\<exists>t. cmdExe_run (\<lambda>w f. True) line (types s) 1 = ret (Some ([''uniq'', ''-c''], t)) \<and>
        wired (PipeRead 0) (WriteFile True ''out'') t)"
  using pipeline_runs [of "[''sort'']" "[[''uniq'', ''-c'']]" "Some ''in''" "Some (True, ''out'')" "\<lambda>w f. True" "replicate 10 NoType" 1]
  by (simp add: pipeline_def redirection_defs simple_cmd_def plain_def checkIllegal_def stage_in_def stage_out_def)

text \<open>A command without a pipe hands \<open>execvp\<close> an argument vector whose end was never written: the
  first row is allocated a second time without being cleared, and the last token of the line clears
  the cell after the next one.\<close>

theorem single_command_unterminated:
  assumes "simple_cmd ws" "length ws < 9" "length old = 10"
  shows "let s = checkSyntax ws old
    in sh_error s = 0 \<and> cmdExe_run can_open ws (types s) 0 = halt Uninitialised"
proof -
  let ?s0 = "\<lparr>sh_state = WAIT_CMD, sh_error = 0, recursive = 0, fileQuota = 0, builtInDetect = False, types = old\<rparr>"
  let ?s1 = "?s0\<lparr>sh_state := WAIT_ARG, types := word_types ws @ drop (length ws) old\<rparr>"
  have "check_loop 0 ws ?s0 = ?s1"
    using check_words [of ?s0 ws "[]" old 0 "[]"] assms by simp
  then have chk: "checkSyntax ws old = ?s1" by (simp add: checkSyntax_def check_end_def)
  let ?d = "division_init\<lparr>command := (map Ptr ws @ replicate (10 - length ws) Garbage) # replicate 9 (replicate 10 Null), argpos := length ws\<rparr>"
  have "divide ws (types ?s1) = divide_rest (last ([] # ws)) [] (drop (length ws) old) ?d"
    unfolding divide_def using assms divide_words [of division_init "[]" "replicate 10 Garbage" ws "word_types ws" "[]" "[]" "drop (length ws) old"]
    by (subst divide_rest_loop) (auto simp: simple_cmd_def division_init_def length_word_types [OF assms(1)] set_word_types)
  moreover have "10 - length ws = Suc (Suc (8 - length ws))" using assms(2) by simp
  ultimately have "divide ws (types ?s1) = ret (?d\<lparr>command :=
      (map Ptr ws @ Garbage # Null # replicate (8 - length ws) Garbage) # replicate 9 (replicate 10 Null)\<rparr>)"
    using assms(2) by (simp add: divide_rest_def set_cell_row division_init_def list_update_append)
  moreover have "read_argv (map Ptr ws @ Garbage # cs) = halt Uninitialised" for cs by (induction ws) simp_all
  moreover have "cmdExe_child can_open (?d\<lparr>command := c\<rparr>) 0 = Some [Some Tty, Some Tty, Some Tty]" for c
    by (simp add: cmdExe_child_def child_setup_def division_init_def)
  ultimately show ?thesis unfolding chk by (simp add: cmdExe_run_def)
qed

theorem single_command_unterminated_witness:
  "let s = checkSyntax [''ls'', ''-l''] (replicate 10 NoType)
   in sh_error s = 0 \<and> cmdExe_run (\<lambda>w f. True) [''ls'', ''-l''] (types s) 0 = halt Uninitialised"
  by (rule single_command_unterminated) (simp_all add: simple_cmd_def plain_def checkIllegal_def)

end
