(* ===== verification/ShellJobs.thy ===== *)
theory ShellJobs
  imports ShellExec
begin

text \<open>
  The parent's side of the shell (\<open>cmdExe\<close>, \<open>builtInCMD\<close> and \<open>main\<close> in \<open>shell/osShell.c\<close>): starting
  and waiting for the processes of a line, the table of stopped jobs, the built-in commands, and the main loop.
\<close>

section \<open>The job table\<close>

record jobs =
  cmdJob :: "string list"
  jobnum :: nat
  jobpid :: "int list list"

definition jobs_init :: jobs where
  "jobs_init = \<lparr>cmdJob = replicate 10 [], jobnum = 0, jobpid = replicate 10 (replicate 10 (- 1))\<rparr>"

text \<open>
  What the kernel answers: whether all \<open>pipe\<close> calls succeed, what the \<open>i\<close>th \<open>fork\<close> returns, whether a
  waited child is reported stopped (or else ended), and what \<open>fg\<close> gets for a process it resumes: no signal
  delivered, a failing \<open>waitpid\<close>, or a status that is stopped or not.
\<close>

datatype resumed = NoSignal | WaitFails | Waited bool

record kernel =
  pipes_ok :: bool
  forks :: "nat \<Rightarrow> int"
  stopped :: "int \<Rightarrow> bool"
  resume :: "int \<Rightarrow> resumed"

section \<open>Running a line\<close>

text \<open>The array \<open>pid\<close> after the \<open>fork\<close>s (\<open>None\<close>: never written) and whether one failed.\<close>

fun spawn :: "(nat \<Rightarrow> int) \<Rightarrow> nat \<Rightarrow> nat \<Rightarrow> int option list \<times> bool" where
  "spawn fork i 0 = ([], False)"
| "spawn fork i (Suc n) =
     (if fork i = - 1 then (Some (- 1) # replicate n None, True)
      else (case spawn fork (Suc i) n of (ps, e) \<Rightarrow> (Some (fork i) # ps, e)))"

definition set_pid :: "nat \<Rightarrow> int \<Rightarrow> jobs \<Rightarrow> jobs run" where
  "set_pid i p js = andthen (aget (jobpid js) (int (jobnum js))) (\<lambda>row.
     andthen (aset row (int i) p) (\<lambda>row.
     andthen (aset (jobpid js) (int (jobnum js)) row) (\<lambda>t. ret (js\<lparr>jobpid := t\<rparr>))))"

fun wait_loop :: "(int \<Rightarrow> bool) \<Rightarrow> nat \<Rightarrow> int option list \<Rightarrow> bool option \<Rightarrow> jobs \<Rightarrow> (bool option \<times> jobs) run" where
  "wait_loop stp i [] status js = ret (status, js)"
| "wait_loop stp i (None # ps) status js = halt Uninitialised"
| "wait_loop stp i (Some p # ps) status js =
     (if p = - 1 then ret (status, js)
      else andthen (if stp p then set_pid i p js else ret js) (wait_loop stp (Suc i) ps (Some (stp p))))"

definition record_job :: "bool option \<Rightarrow> string \<Rightarrow> jobs \<Rightarrow> jobs run" where
  "record_job status cmdTmp js =
     (case status of None \<Rightarrow> halt Uninitialised
      | Some st \<Rightarrow> if st then andthen (aset (cmdJob js) (int (jobnum js)) cmdTmp) (\<lambda>c. ret (js\<lparr>cmdJob := c, jobnum := jobnum js + 1\<rparr>))
                   else ret js)"

definition cmdExe :: "kernel \<Rightarrow> string \<Rightarrow> string list \<Rightarrow> ttype list \<Rightarrow> jobs \<Rightarrow> (bool \<times> jobs) run" where
  "cmdExe k cmdTmp tokens tys js =
     andthen (divide tokens tys) (\<lambda>s.
     case (if 0 < noCMD s \<and> \<not> pipes_ok k then (replicate (noCMD s + 1) None, True) else spawn (forks k) 0 (noCMD s + 1)) of (pid, err) \<Rightarrow>
     andthen (wait_loop (stopped k) 0 pid None js) (\<lambda>(status, js).
     andthen (record_job status cmdTmp js) (\<lambda>js. ret (err, js))))"

section \<open>The built-in commands\<close>

text \<open>\<open>fg\<close> waits for the processes of its job up to the first cell that is -1; a full row is read
  past its end. \<open>status\<close> keeps the last status a \<open>waitpid\<close> stored.\<close>

fun fg_loop :: "(int \<Rightarrow> resumed) \<Rightarrow> int list \<Rightarrow> bool option \<Rightarrow> bool option run" where
  "fg_loop res [] status = halt OutOfBounds"
| "fg_loop res (p # ps) status =
     (if p = - 1 then ret status
      else fg_loop res ps (case res p of Waited st \<Rightarrow> Some st | _ \<Rightarrow> status))"

function shift_jobs :: "nat \<Rightarrow> nat \<Rightarrow> jobs \<Rightarrow> jobs run" where
  "shift_jobs index n js =
     (if index < n then
        andthen (aget (cmdJob js) (int index)) (\<lambda>c. andthen (aset (cmdJob js) (int index - 1) c) (\<lambda>cs.
        andthen (aget (jobpid js) (int index)) (\<lambda>r. andthen (aset (jobpid js) (int index - 1) r) (\<lambda>rs.
        shift_jobs (Suc index) n (js\<lparr>cmdJob := cs, jobpid := rs\<rparr>)))))
      else ret js)"

  by pat_completeness auto
termination by (relation "measure (\<lambda>(index, n, js). n - index)") auto

declare shift_jobs.simps [simp del]

definition fg :: "(int \<Rightarrow> resumed) \<Rightarrow> string list \<Rightarrow> jobs \<Rightarrow> jobs run" where
  "fg res tokens js =
     (if jobnum js = 0 then ret js
      else if length tokens < 2 then halt NullDeref
      else let jobfg = atoi (tokens ! 1) in
        andthen (aget (jobpid js) (jobfg - 1)) (\<lambda>row.
        andthen (fg_loop res row None) (\<lambda>status.
        andthen (aget (cmdJob js) (jobfg - 1)) (\<lambda>tmp.
        if length tmp \<ge> 40 then halt OutOfBounds
        else case status of None \<Rightarrow> halt Uninitialised
          | Some st \<Rightarrow>
            andthen (shift_jobs (nat jobfg) (jobnum js) js) (\<lambda>js.
            if st then
              andthen (aset (cmdJob js) (int (jobnum js) - 1) tmp) (\<lambda>cs.
              andthen (aset (jobpid js) (int (jobnum js) - 1) row) (\<lambda>rs. ret (js\<lparr>cmdJob := cs, jobpid := rs\<rparr>)))
            else
              andthen (aset (jobpid js) (int (jobnum js) - 1) (replicate 10 (- 1))) (\<lambda>rs.
              ret (js\<lparr>jobpid := rs, jobnum := jobnum js - 1\<rparr>)))))))"

text \<open>What \<open>jobs\<close> prints; the messages of the other commands are left out.\<close>

definition jobs_listing :: "jobs \<Rightarrow> string list run" where
  "jobs_listing js =
     (if jobnum js \<le> length (cmdJob js)
      then ret (map (\<lambda>i. show_nat (i + 1) @ '' '' @ cmdJob js ! i) [0..<jobnum js]) else halt OutOfBounds)"

definition builtInCMD :: "kernel \<Rightarrow> string list \<Rightarrow> jobs \<Rightarrow> (string list \<times> jobs) run" where
  "builtInCMD k tokens js =
     (case tokens of [] \<Rightarrow> halt NullDeref
      | t # ts \<Rightarrow>
        if t = ''cd'' then ret ([], js)
        else if t = ''fg'' then andthen (fg (resume k) tokens js) (\<lambda>js. ret ([], js))
        else if t = ''jobs'' then andthen (jobs_listing js) (\<lambda>out. ret (out, js))
        else if t = ''exit'' then (if jobnum js = 0 then halt (Exit 1) else ret ([], js))
        else ret ([], js))"

section \<open>The main loop\<close>



definition shell_start :: "ttype list \<times> jobs" where
  "shell_start = (replicate 10 NoType, jobs_init)"


section \<open>The table as a list of jobs\<close>

definition jobs_ok :: "jobs \<Rightarrow> bool" where
  "jobs_ok js \<longleftrightarrow> length (cmdJob js) = 10 \<and> length (jobpid js) = 10 \<and> (\<forall>row\<in>set (jobpid js). length row = 10) \<and>
     jobnum js \<le> 10 \<and> (\<forall>c\<in>set (cmdJob js). length c < 40)"

text \<open>Nothing is left in the rows behind the jobs.\<close>

definition jobs_clean :: "jobs \<Rightarrow> bool" where
  "jobs_clean js \<longleftrightarrow> (\<forall>i. jobnum js \<le> i \<longrightarrow> i < 10 \<longrightarrow> jobpid js ! i = replicate 10 (- 1))"

definition joblist :: "jobs \<Rightarrow> (string \<times> int list) list" where
  "joblist js = zip (take (jobnum js) (cmdJob js)) (take (jobnum js) (jobpid js))"

text \<open>Resuming the job at position \<open>n\<close>: it goes to the end when it stops again, and away otherwise.\<close>

definition resume_job :: "nat \<Rightarrow> bool \<Rightarrow> (string \<times> int list) list \<Rightarrow> (string \<times> int list) list" where
  "resume_job n st jobs = take n jobs @ drop (Suc n) jobs @ (if st then [jobs ! n] else [])"

lemma length_joblist [simp]: "jobs_ok js \<Longrightarrow> length (joblist js) = jobnum js"
  by (simp add: joblist_def jobs_ok_def)

lemma shift_jobs_lists:
  assumes "0 < i" "i \<le> n" "n \<le> length (cmdJob js)" "length (cmdJob js) = length (jobpid js)"
  shows "shift_jobs i n js = ret (js\<lparr>
     cmdJob := take (i - 1) (cmdJob js) @ drop i (take n (cmdJob js)) @ drop (n - 1) (cmdJob js),
     jobpid := take (i - 1) (jobpid js) @ drop i (take n (jobpid js)) @ drop (n - 1) (jobpid js)\<rparr>)"
  using assms
proof (induction i n js rule: shift_jobs.induct)
  case (1 i n js)
  show ?case
  proof (cases "i < n")
    case False
    with "1.prems" have "i = n" by simp
    then show ?thesis by (subst shift_jobs.simps) (cases js, simp)
  next
    case True
    have upd: "take i (xs[i - Suc 0 := xs ! i]) @ drop (Suc i) (take n (xs[i - Suc 0 := xs ! i])) @ drop (n - Suc 0) (xs[i - Suc 0 := xs ! i]) =
      take (i - 1) xs @ drop i (take n xs) @ drop (n - 1) xs" if "n \<le> length xs" for xs :: "'a list"
    proof -
      from "1.prems" True obtain k where k: "i = Suc k" "k < n - 1" by (cases i) auto
      have "take i (xs[k := xs ! i]) = take k xs @ [xs ! i]"
        using k that by (simp add: take_Suc_conv_app_nth nth_list_update)
      moreover have "xs ! i # drop (Suc i) (take n xs) = drop i (take n xs)"
        using True that by (simp add: Cons_nth_drop_Suc [symmetric])
      moreover have "drop (Suc i) (take n (xs[k := xs ! i])) = drop (Suc i) (take n xs)" using k by (simp add: take_update_swap)
      ultimately show ?thesis using k by simp
    qed
    let ?js = "js\<lparr>cmdJob := (cmdJob js)[i - 1 := cmdJob js ! i], jobpid := (jobpid js)[i - 1 := jobpid js ! i]\<rparr>"
    have "shift_jobs i n js = shift_jobs (Suc i) n ?js"
      using "1.prems" True by (subst shift_jobs.simps) (simp add: aget_def aset_def nat_diff_distrib)
    also have "\<dots> = ret (?js\<lparr>
      cmdJob := take i (cmdJob ?js) @ drop (Suc i) (take n (cmdJob ?js)) @ drop (n - 1) (cmdJob ?js),
      jobpid := take i (jobpid ?js) @ drop (Suc i) (take n (jobpid ?js)) @ drop (n - 1) (jobpid ?js)\<rparr>)"
      using "1.IH" [OF True] "1.prems" True by (simp add: aget_def aset_def)
    finally show ?thesis using upd [of "cmdJob js"] upd [of "jobpid js"] "1.prems" True by simp
  qed
qed

lemma zip_joblist:
  assumes "length A = length B" "n < length A"
  shows "zip (take n A @ drop (Suc n) A @ as) (take n B @ drop (Suc n) B @ bs) = take n (zip A B) @ drop (Suc n) (zip A B) @ zip as bs"
  using assms by (simp add: take_zip drop_zip)

lemma fg_loop_last:
  assumes "pids \<noteq> []" "- 1 \<notin> set pids" "res (last pids) = Waited st"
  shows "fg_loop res (pids @ - 1 # r) status = ret (Some st)"
  using assms by (induction pids arbitrary: status) (auto split: if_splits)

section \<open>Lemmas on fg\<close>

text \<open>The array after position \<open>n\<close> of its front part has been closed up: the cells behind it have moved down by one.\<close>

definition closed_up :: "nat \<Rightarrow> nat \<Rightarrow> 'a list \<Rightarrow> 'a list" where
  "closed_up n N L = take n L @ drop (Suc n) (take N L) @ drop (N - 1) L"

lemma closed_up_front:
  assumes "n < N" "N \<le> length L"
  shows "length (closed_up n N L) = length L" "set (closed_up n N L) \<subseteq> set L"
    "take (N - 1) (closed_up n N L) = take n (take N L) @ drop (Suc n) (take N L)"
proof -
  let ?f = "take n L @ drop (Suc n) (take N L)"
  have "length ?f = N - 1" using assms by simp
  then show "take (N - 1) (closed_up n N L) = take n (take N L) @ drop (Suc n) (take N L)"
    using assms by (simp add: closed_up_def min_absorb1)
  show "length (closed_up n N L) = length L" using assms by (simp add: closed_up_def)
  show "set (closed_up n N L) \<subseteq> set L" by (auto simp: closed_up_def dest: in_set_takeD in_set_dropD)
qed

text \<open>The last cell of the front part is then set.\<close>

lemma closed_gap:
  assumes "n < N" "N \<le> length L"
  shows "take N ((closed_up n N L)[N - 1 := x]) = take n (take N L) @ drop (Suc n) (take N L) @ [x]"
    "take (N - 1) ((closed_up n N L)[N - 1 := x]) = take n (take N L) @ drop (Suc n) (take N L)"
    "(closed_up n N L)[N - 1 := x] ! (N - 1) = x" "\<And>i. N \<le> i \<Longrightarrow> (closed_up n N L)[N - 1 := x] ! i = L ! i"
    "set ((closed_up n N L)[N - 1 := x]) \<subseteq> insert x (set L)"
proof -
  let ?M = "(closed_up n N L)[N - 1 := x]"
  note c = closed_up_front [OF assms]
  have l: "N - 1 < length (closed_up n N L)" using c(1) assms by simp
  show t: "take (N - 1) ?M = take n (take N L) @ drop (Suc n) (take N L)" using c(3) by simp
  show n: "?M ! (N - 1) = x" using l by simp
  have "take N ?M = take (N - 1) ?M @ [?M ! (N - 1)]"
    using take_Suc_conv_app_nth [of "N - 1" ?M] l assms(1) by simp
  then show "take N ?M = take n (take N L) @ drop (Suc n) (take N L) @ [x]" unfolding t n by simp
  show "set ?M \<subseteq> insert x (set L)" using c(2) set_update_subset_insert [of "closed_up n N L" "N - 1" x] by blast
  show "?M ! i = L ! i" if "N \<le> i" for i
  proof -
    have "closed_up n N L ! i = drop (N - 1) L ! (i - (N - 1))"
      unfolding closed_up_def append_assoc [symmetric] by (subst nth_append) (use that assms in simp)
    with that assms show ?thesis by simp
  qed
qed

text \<open>The state that \<open>fg\<close> leaves: a job that stopped again moves to the end, one that ended leaves its process row blank.\<close>

definition after_fg :: "nat \<Rightarrow> bool \<Rightarrow> jobs \<Rightarrow> jobs" where
  "after_fg n st js = (let N = jobnum js; C = closed_up n N (cmdJob js); P = closed_up n N (jobpid js) in
     if st then js\<lparr>cmdJob := C[N - 1 := cmdJob js ! n], jobpid := P[N - 1 := jobpid js ! n]\<rparr>
     else js\<lparr>cmdJob := C, jobpid := P[N - 1 := replicate 10 (- 1)], jobnum := N - 1\<rparr>)"

lemma jobs_okD:
  assumes "jobs_ok js" "n < jobnum js"
  shows "length (cmdJob js) = 10" "length (jobpid js) = 10" "jobnum js \<le> 10" "length (jobpid js ! n) = 10" "length (cmdJob js ! n) < 40"
    "\<forall>r\<in>set (jobpid js). length r = 10" "\<forall>c\<in>set (cmdJob js). length c < 40"
  using assms by (auto simp: jobs_ok_def)

lemma fg_runs:
  assumes "jobs_ok js" "atoi a = int (Suc n)" "n < jobnum js" "fg_loop res (jobpid js ! n) None = ret (Some st)"
  shows "fg res (t # a # ts) js = ret (after_fg n st js)"
proof -
  let ?N = "jobnum js"
  note ok = jobs_okD [OF assms(1,3)]
  have s: "shift_jobs (Suc n) ?N js = ret (js\<lparr>cmdJob := closed_up n ?N (cmdJob js), jobpid := closed_up n ?N (jobpid js)\<rparr>)"
    using shift_jobs_lists [of "Suc n" ?N js] ok(1-3) assms(3) by (simp add: closed_up_def)
  have l: "length (closed_up n ?N (cmdJob js)) = 10" "length (closed_up n ?N (jobpid js)) = 10"
    using closed_up_front(1) [OF assms(3), of "cmdJob js"] closed_up_front(1) [OF assms(3), of "jobpid js"] ok(1-3) by simp_all
  have i: "int ?N - 1 = int (?N - 1)" "int (Suc n) - 1 = int n" "?N - 1 < 10" "n < 10" using assms(3) ok(3) by simp_all
  show ?thesis using ok(1,2,5) assms(2-4) l i(3,4)
    by (simp add: fg_def Let_def s i(1,2) after_fg_def del: of_nat_diff of_nat_Suc)
qed

lemma joblist_after_fg:
  assumes "jobs_ok js" "n < jobnum js"
  shows "joblist (after_fg n st js) = resume_job n st (joblist js)"
proof -
  let ?N = "jobnum js" and ?C = "cmdJob js" and ?P = "jobpid js"
  note ok = jobs_okD [OF assms]
  have jn: "joblist js = zip (take ?N ?C) (take ?N ?P)" by (simp add: joblist_def)
  have nth: "(joblist js) ! n = (?C ! n, ?P ! n)" using assms(2) ok by (simp add: joblist_def)
  have lens: "length (take ?N ?C) = length (take ?N ?P)" "n < length (take ?N ?C)" using ok assms(2) by simp_all
  have N: "?N \<le> length ?C" "?N \<le> length ?P" using ok by simp_all
  show ?thesis
  proof (cases st)
    case True
    then show ?thesis
      using closed_gap(1) [OF assms(2) N(1), of "?C ! n"] closed_gap(1) [OF assms(2) N(2), of "?P ! n"] zip_joblist [OF lens, of "[?C ! n]" "[?P ! n]"]
      by (simp add: jn [symmetric] resume_job_def nth) (simp add: joblist_def after_fg_def Let_def)
  next
    case False
    then show ?thesis
      using closed_up_front(3) [OF assms(2) N(1)] closed_gap(2) [OF assms(2) N(2), of "replicate 10 (- 1)"] zip_joblist [OF lens, of "[]" "[]"]
      by (simp add: jn [symmetric] resume_job_def) (simp add: joblist_def after_fg_def Let_def)
  qed
qed

lemma after_fg_ok:
  assumes "jobs_ok js" "n < jobnum js"
  shows "jobs_ok (after_fg n st js)"
proof -
  let ?N = "jobnum js"
  note ok = jobs_okD [OF assms]
  have N: "?N \<le> length (cmdJob js)" "?N \<le> length (jobpid js)" using ok by simp_all
  note c = closed_up_front(1,2) [OF assms(2) N(1)] closed_up_front(1,2) [OF assms(2) N(2)]
    closed_gap(5) [OF assms(2) N(1), of "cmdJob js ! n"] closed_gap(5) [OF assms(2) N(2), of "jobpid js ! n"]
    closed_gap(5) [OF assms(2) N(2), of "replicate 10 (- 1)"]
  show ?thesis using ok c by (cases st) (auto simp: jobs_ok_def after_fg_def Let_def)
qed

lemma after_fg_clean:
  assumes "jobs_ok js" "n < jobnum js" "jobs_clean js"
  shows "jobs_clean (after_fg n st js)"
  unfolding jobs_clean_def
proof (intro allI impI)
  fix i assume i: "jobnum (after_fg n st js) \<le> i" "i < 10"
  have N: "jobnum js \<le> length (jobpid js)" using jobs_okD [OF assms(1,2)] by simp
  show "jobpid (after_fg n st js) ! i = replicate 10 (- 1)"
  proof (cases "jobnum js \<le> i")
    case True
    with closed_gap(4) [OF assms(2) N this] assms(3) i(2) show ?thesis by (simp add: jobs_clean_def after_fg_def Let_def)
  next
    case False
    with i have "\<not> st" "i = jobnum js - 1" by (auto simp: after_fg_def Let_def split: if_splits)
    with closed_gap(3) [OF assms(2) N] show ?thesis by (simp add: after_fg_def Let_def)
  qed
qed

lemma fg_closes_gap:
  assumes "jobs_ok js" "atoi a = int (Suc n)" "n < jobnum js" "fg_loop res (jobpid js ! n) None = ret (Some st)"
  shows "\<exists>js'. fg res (t # a # ts) js = ret js' \<and> jobs_ok js' \<and> joblist js' = resume_job n st (joblist js) \<and>
    (jobs_clean js \<longrightarrow> jobs_clean js')"
  using fg_runs [OF assms] joblist_after_fg after_fg_ok after_fg_clean assms(1,3) by blast

section \<open>Lemmas on waiting\<close>

text \<open>The row of a new job: the cells of the processes that stopped are set.\<close>

fun marked :: "(int \<Rightarrow> bool) \<Rightarrow> nat \<Rightarrow> int list \<Rightarrow> int list \<Rightarrow> int list" where
  "marked stp i [] row = row"
| "marked stp i (p # ps) row = marked stp (Suc i) ps (if stp p then row[i := p] else row)"

lemma length_marked [simp]: "length (marked stp i ps row) = length row"
  by (induction ps arbitrary: i row) simp_all

lemma marked_all: "list_all stp ps \<Longrightarrow> i + length ps \<le> length row \<Longrightarrow>
  marked stp i ps row = take i row @ ps @ drop (i + length ps) row"
proof (induction ps arbitrary: i row)
  case (Cons p ps)
  then have "i < length row" by simp
  then have "take (Suc i) (row[i := p]) = take i row @ [p]" by (simp add: take_Suc_conv_app_nth)
  with Cons show ?case by simp
qed simp

lemma marked_none: "list_all (\<lambda>p. \<not> stp p) ps \<Longrightarrow> marked stp i ps row = row"
  by (induction ps arbitrary: i) simp_all

lemma marked_before: "j < i \<Longrightarrow> marked stp i ps row ! j = row ! j"
  by (induction ps arbitrary: i row) simp_all

lemma wait_loop_marks:
  assumes "jobnum js < length (jobpid js)" "i + length ps \<le> length (jobpid js ! jobnum js)" "- 1 \<notin> set ps"
  shows "wait_loop stp i (map Some ps) st js = ret (if ps = [] then st else Some (stp (last ps)),
    js\<lparr>jobpid := (jobpid js)[jobnum js := marked stp i ps (jobpid js ! jobnum js)]\<rparr>)"
  using assms
proof (induction ps arbitrary: i st js)
  case Nil
  then show ?case by (cases js) simp
next
  case (Cons p ps)
  let ?js = "if stp p then js\<lparr>jobpid := (jobpid js)[jobnum js := (jobpid js ! jobnum js)[i := p]]\<rparr> else js"
  have "(if stp p then set_pid i p js else ret js) = ret ?js" using Cons.prems by (simp add: set_pid_def)
  moreover have "wait_loop stp (Suc i) (map Some ps) (Some (stp p)) ?js = ret (if ps = [] then Some (stp p) else Some (stp (last ps)),
    ?js\<lparr>jobpid := (jobpid ?js)[jobnum ?js := marked stp (Suc i) ps (jobpid ?js ! jobnum ?js)]\<rparr>)"
    by (rule Cons.IH) (use Cons.prems in auto)
  ultimately show ?case using Cons.prems by auto
qed

lemma spawn_all: "(\<And>j. i \<le> j \<Longrightarrow> j < i + n \<Longrightarrow> fork j \<noteq> - 1) \<Longrightarrow> spawn fork i n = (map Some (map fork [i..<i + n]), False)"
proof (induction n arbitrary: i)
  case (Suc n)
  then have "spawn fork (Suc i) n = (map Some (map fork [Suc i..<Suc i + n]), False)" by simp
  moreover have "[i..<i + Suc n] = i # [Suc i..<Suc i + n]" by (simp add: upt_rec)
  ultimately show ?case using Suc.prems [of i] by simp
qed simp

text \<open>The processes a line starts.\<close>

definition started :: "kernel \<Rightarrow> division \<Rightarrow> int list" where
  "started k s = map (forks k) [0..<Suc (noCMD s)]"

lemma started_nonempty [simp]: "started k s \<noteq> []" "length (started k s) = Suc (noCMD s)"
  by (simp_all add: started_def)

lemma last_started: "last (started k s) = forks k (noCMD s)" by (simp add: started_def)

lemma spawn_started:
  assumes "- 1 \<notin> set (started k s)"
  shows "spawn (forks k) 0 (noCMD s + 1) = (map Some (started k s), False)"
proof -
  have "forks k j \<noteq> - 1" if "j < Suc (noCMD s)" for j
    using assms that by (metis (no_types) started_def atLeast0LessThan image_eqI lessThan_iff set_map set_upt)
  then show ?thesis by (subst spawn_all) (simp_all add: started_def)
qed

lemma cmdExe_waits:
  assumes "jobs_ok js" "divide tokens tys = ret s" "pipes_ok k" "- 1 \<notin> set (started k s)" "noCMD s < 10" "jobnum js < 10"
  defines "js' \<equiv> js\<lparr>jobpid := (jobpid js)[jobnum js := marked (stopped k) 0 (started k s) (jobpid js ! jobnum js)]\<rparr>"
  shows "cmdExe k line tokens tys js = ret (False,
    if stopped k (forks k (noCMD s)) then js'\<lparr>cmdJob := (cmdJob js)[jobnum js := line], jobnum := Suc (jobnum js)\<rparr> else js')"
proof -
  have sp: "spawn (forks k) 0 (noCMD s + 1) = (map Some (started k s), False)"
    using assms(4) by (rule spawn_started)
  have "length (jobpid js ! jobnum js) = 10" using assms(1,6) by (simp add: jobs_ok_def)
  then have "wait_loop (stopped k) 0 (map Some (started k s)) None js = ret (Some (stopped k (forks k (noCMD s))), js')"
    using assms by (subst wait_loop_marks) (simp_all add: jobs_ok_def last_started)
  with assms sp show ?thesis by (simp add: cmdExe_def record_job_def jobs_ok_def)
qed

lemma wait_loop_keeps:
  "wait_loop stp i ps st js = ret (st', js') \<Longrightarrow> jobs_ok js \<Longrightarrow> jobs_ok js' \<and> jobnum js' = jobnum js \<and> cmdJob js' = cmdJob js"
proof (induction stp i ps st js rule: wait_loop.induct)
  case (3 stp i p ps st js)
  show ?case
  proof (cases "p = - 1")
    case True
    with 3 show ?thesis by simp
  next
    case False
    with "3.prems" obtain js1 where js1: "(if stp p then set_pid i p js else ret js) = ret js1"
      "wait_loop stp (Suc i) ps (Some (stp p)) js1 = ret (st', js')" by auto
    have "jobs_ok js1 \<and> jobnum js1 = jobnum js \<and> cmdJob js1 = cmdJob js"
    proof (cases "stp p")
      case True
      with js1(1) obtain row where "js1 = js\<lparr>jobpid := (jobpid js)[jobnum js := (jobpid js ! jobnum js)[i := p]]\<rparr>"
        "jobnum js < length (jobpid js)"
        by (auto simp: set_pid_def andthen_ret_iff aget_ret aset_ret)
      then show ?thesis using "3.prems"(2) by (auto simp: jobs_ok_def dest!: set_update_subset_insert [THEN subsetD])
    next
      case False
      with js1(1) "3.prems"(2) show ?thesis by simp
    qed
    with "3.IH" [OF False js1(2)] show ?thesis by simp
  qed
qed simp_all

lemma cmdExe_ok:
  assumes "cmdExe k line tokens tys js = ret (err, js')" "jobs_ok js" "length line < 40"
  shows "jobs_ok js'"
proof -
  from assms(1) obtain pid st js1 where w: "wait_loop (stopped k) 0 pid None js = ret (st, js1)" "record_job st line js1 = ret js'"
    unfolding cmdExe_def by (auto split: prod.splits)
  note ok = wait_loop_keeps [OF w(1) assms(2)]
  show ?thesis
  proof (cases "st = Some True")
    case True
    with w(2) have "js' = js1\<lparr>cmdJob := (cmdJob js1)[jobnum js1 := line], jobnum := jobnum js1 + 1\<rparr>" "jobnum js1 < length (cmdJob js1)"
      by (auto simp: record_job_def andthen_ret_iff aset_ret)
    with ok assms(3) show ?thesis by (auto simp: jobs_ok_def dest!: set_update_subset_insert [THEN subsetD])
  next
    case False
    with w(2) ok show ?thesis by (auto simp: record_job_def split: option.splits if_splits)
  qed
qed

section \<open>The invariant of the main loop\<close>








lemma jobs_start: "jobs_ok (snd shell_start)" "jobs_clean (snd shell_start)"
  by (simp_all add: shell_start_def jobs_init_def jobs_ok_def jobs_clean_def)


section \<open>Properties\<close>

text \<open>The inputs of the examples.\<close>

definition sample_kernel :: "(int \<Rightarrow> bool) \<Rightarrow> kernel" where
  "sample_kernel stp = \<lparr>pipes_ok = True, forks = (\<lambda>i. int i + 100), stopped = stp, resume = (\<lambda>p. Waited False)\<rparr>"

lemma sample_divides: "\<exists>s. divide [''yes'', ''|'', ''cat''] [CommandName, Pipe, CommandName] = ret s \<and> noCMD s = 1"
  by (simp add: divide_def division_init_def divide_token_def set_cell_def aget_def aset_def numeral_eq_Suc)

lemma sample_started: "noCMD s = 1 \<Longrightarrow> started (sample_kernel stp) s = [100, 101]"
  by (simp add: started_def sample_kernel_def)

lemma atoi_digit: "atoi ''1'' = 1"
  by (simp add: atoi_def scan_int_def isspace_def starts_digit_def digit_val_def)

lemma cmdExe_records:
  assumes "jobs_ok js" "jobs_clean js" "jobnum js < 10" "divide tokens tys = ret s" "noCMD s < 10"
    and "pipes_ok k" "- 1 \<notin> set (started k s)" "length line < 40"
    and "list_all (\<lambda>p. stopped k p = st) (started k s)"
  shows "\<exists>js'. cmdExe k line tokens tys js = ret (False, js') \<and> jobs_ok js' \<and> jobs_clean js' \<and>
    joblist js' = joblist js @ (if st then [(line, started k s @ replicate (9 - noCMD s) (- 1))] else [])"
proof -
  let ?row = "jobpid js ! jobnum js"
  have ok: "length (jobpid js) = 10" "length (cmdJob js) = 10" "?row = replicate 10 (- 1)"
    using assms(1-3) by (auto simp: jobs_ok_def jobs_clean_def)
  have last: "stopped k (forks k (noCMD s)) = st" using assms(9) by (simp add: started_def)
  have m: "marked (stopped k) 0 (started k s) ?row = (if st then started k s @ replicate (9 - noCMD s) (- 1) else ?row)"
  proof (cases st)
    case True
    with assms(5,9) show ?thesis by (simp add: marked_all ok(3))
  next
    case False
    with assms(9) show ?thesis by (simp add: marked_none)
  qed
  let ?P = "(jobpid js)[jobnum js := (if st then started k s @ replicate (9 - noCMD s) (- 1) else ?row)]"
  let ?js = "if st then js\<lparr>jobpid := ?P, cmdJob := (cmdJob js)[jobnum js := line], jobnum := Suc (jobnum js)\<rparr> else js\<lparr>jobpid := ?P\<rparr>"
  have run: "cmdExe k line tokens tys js = ret (False, ?js)"
    using cmdExe_waits [OF assms(1,4,6,7,5,3), of line] m last by simp
  have "joblist ?js = joblist js @ (if st then [(line, started k s @ replicate (9 - noCMD s) (- 1))] else [])"
    using ok(1,2) assms(3) by (simp add: joblist_def take_Suc_conv_app_nth zip_append)
  moreover have "jobs_clean ?js" using assms(2) ok(1) by (auto simp: jobs_clean_def nth_list_update)
  ultimately show ?thesis using run cmdExe_ok [OF run assms(1,8)] by blast
qed

text \<open>C32: A line whose processes all stop becomes the last job of the table, with all its processes; a
  line whose processes all end leaves the table as it was. Both leave nothing behind the jobs.\<close>

theorem stopped_line_recorded:
  assumes "jobs_ok js" "jobs_clean js" "jobnum js < 10" "divide tokens tys = ret s" "noCMD s < 10"
    and "pipes_ok k" "- 1 \<notin> set (started k s)" "length line < 40"
    and "list_all (\<lambda>p. stopped k p = st) (started k s)"
  shows "\<exists>js'. cmdExe k line tokens tys js = ret (False, js') \<and> jobs_ok js' \<and> jobs_clean js' \<and>
    joblist js' = joblist js @ (if st then [(line, started k s @ replicate (9 - noCMD s) (- 1))] else [])"
  using assms by (rule cmdExe_records)

theorem stopped_line_recorded_witness:
  "\<exists>js'. cmdExe (sample_kernel (\<lambda>p. True)) ''yes | cat'' [''yes'', ''|'', ''cat''] [CommandName, Pipe, CommandName] jobs_init = ret (False, js') \<and>
     joblist js' = [(''yes | cat'', [100, 101, - 1, - 1, - 1, - 1, - 1, - 1, - 1, - 1])]"
proof -
  obtain s where s: "divide [''yes'', ''|'', ''cat''] [CommandName, Pipe, CommandName] = ret s" "noCMD s = 1"
    using sample_divides by blast
  then show ?thesis
    using stopped_line_recorded [OF _ _ _ s(1), of jobs_init "sample_kernel (\<lambda>p. True)" "''yes | cat''" True]
      jobs_start sample_started [OF s(2)]
    by (simp add: shell_start_def sample_kernel_def) (force simp: jobs_init_def joblist_def numeral_eq_Suc)
qed

text \<open>C21: Resuming job \<open>n + 1\<close> with \<open>fg\<close> waits for its processes and then moves it behind the
  other jobs, if its last process stopped again, or removes it; the other jobs keep their
  order.\<close>

theorem fg_resumes_job:
  assumes "jobs_ok js" "atoi a = int (Suc n)" "n < jobnum js"
    and "jobpid js ! n = pids @ - 1 # r" "pids \<noteq> []" "- 1 \<notin> set pids" "resume k (last pids) = Waited st"
  shows "\<exists>js'. builtInCMD k [''fg'', a] js = ret ([], js') \<and> jobs_ok js' \<and> joblist js' = resume_job n st (joblist js) \<and>
    (jobs_clean js \<longrightarrow> jobs_clean js')"
  using fg_closes_gap [OF assms(1-3), of "resume k" st "''fg''" "[]"] fg_loop_last [where res = "resume k", OF assms(5-7)] assms(4)
  by (auto simp: builtInCMD_def)

theorem fg_resumes_job_witness:
  "\<exists>js'. builtInCMD (sample_kernel (\<lambda>p. True)) [''fg'', ''1'']
      (jobs_init\<lparr>jobnum := 1, jobpid := (100 # replicate 9 (- 1)) # replicate 9 (replicate 10 (- 1))\<rparr>) = ret ([], js') \<and> joblist js' = []"
  using fg_resumes_job [of "jobs_init\<lparr>jobnum := 1, jobpid := (100 # replicate 9 (- 1)) # replicate 9 (replicate 10 (- 1))\<rparr>"
      "''1''" 0 "[100]" "replicate 8 (- 1)" "sample_kernel (\<lambda>p. True)" False]
  by (auto simp: jobs_ok_def jobs_init_def atoi_digit sample_kernel_def numeral_eq_Suc joblist_def resume_job_def)

text \<open>Only the status of the last process decides: when the processes before it end and the last one
  stops, the line becomes a job whose first process is -1, and \<open>fg\<close> on it reads a
  status that no \<open>waitpid\<close> has stored, whatever the kernel answers.\<close>

theorem last_stopped_job_lost:
  assumes "jobs_ok js" "jobs_clean js" "jobnum js < 10" "divide tokens tys = ret s" "0 < noCMD s" "noCMD s < 10"
    and "pipes_ok k" "- 1 \<notin> set (started k s)" "length line < 40"
    and "list_all (\<lambda>p. \<not> stopped k p) (butlast (started k s))" "stopped k (last (started k s))"
    and "atoi a = int (Suc (jobnum js))"
  shows "\<exists>js'. cmdExe k line tokens tys js = ret (False, js') \<and> jobnum js' = Suc (jobnum js) \<and>
    (\<forall>k'. builtInCMD k' [''fg'', a] js' = halt Uninitialised)"
proof -
  let ?n = "jobnum js" and ?m = "marked (stopped k) 0 (started k s) (jobpid js ! jobnum js)"
  let ?js = "js\<lparr>jobpid := (jobpid js)[?n := ?m], cmdJob := (cmdJob js)[?n := line], jobnum := Suc ?n\<rparr>"
  have run: "cmdExe k line tokens tys js = ret (False, ?js)"
    using cmdExe_waits [OF assms(1,4,7,8,6,3), of line] assms(11) by (simp add: last_started)
  have ok: "length (jobpid js) = 10" "length (cmdJob js) = 10" "jobpid js ! ?n = replicate 10 (- 1)"
    using assms(1-3) by (auto simp: jobs_ok_def jobs_clean_def)
  obtain p ps where p: "started k s = p # ps" "ps \<noteq> []"
    using assms(5) by (cases "started k s"; cases "tl (started k s)") (auto simp: started_def upt_rec)
  with assms(10) have "\<not> stopped k p" by simp
  with p have "?m ! 0 = - 1" by (simp add: marked_before ok(3))
  moreover have "length ?m = 10" using ok(3) by simp
  ultimately obtain r where r: "?m = - 1 # r" by (cases ?m) auto
  have "builtInCMD k' [''fg'', a] ?js = halt Uninitialised" for k'
    using ok assms(3,9,12) r by (simp add: builtInCMD_def fg_def Let_def aget_def)
  with run show ?thesis by auto
qed

theorem last_stopped_job_lost_witness:
  "\<exists>js'. cmdExe (sample_kernel (\<lambda>p. p = 101)) ''yes | cat'' [''yes'', ''|'', ''cat''] [CommandName, Pipe, CommandName] jobs_init = ret (False, js') \<and>
     builtInCMD (sample_kernel (\<lambda>p. True)) [''fg'', ''1''] js' = halt Uninitialised"
proof -
  obtain s where s: "divide [''yes'', ''|'', ''cat''] [CommandName, Pipe, CommandName] = ret s" "noCMD s = 1"
    using sample_divides by blast
  have "jobnum jobs_init = 0" by (simp add: jobs_init_def)
  then show ?thesis
    using last_stopped_job_lost [OF _ _ _ s(1), of jobs_init "sample_kernel (\<lambda>p. p = 101)" "''yes | cat''" "''1''"]
      jobs_start sample_started [OF s(2)] s(2) atoi_digit
    by (fastforce simp: shell_start_def sample_kernel_def)
qed

section \<open>The full table\<close>

text \<open>With ten jobs, a process of a further line that stops is written past the end of the table.\<close>

theorem eleventh_job_overruns:
  assumes "jobs_ok js" "jobnum js = 10" "divide tokens tys = ret s" "pipes_ok k"
    and "- 1 \<notin> set (started k s)" "list_ex (stopped k) (started k s)"
  shows "cmdExe k line tokens tys js = halt OutOfBounds"
proof -
  have "wait_loop (stopped k) i (map Some ps) st js = halt OutOfBounds"
    if "- 1 \<notin> set ps" "list_ex (stopped k) ps" for i ps st
    using that assms(1,2) by (induction ps arbitrary: i st) (auto simp: set_pid_def aget_def jobs_ok_def)
  moreover have "spawn (forks k) 0 (noCMD s + 1) = (map Some (started k s), False)"
    using assms(5) by (rule spawn_started)
  ultimately show ?thesis using assms(3-6) by (simp add: cmdExe_def)
qed

theorem eleventh_job_overruns_witness:
  "cmdExe (sample_kernel (\<lambda>p. True)) ''yes | cat'' [''yes'', ''|'', ''cat''] [CommandName, Pipe, CommandName] (jobs_init\<lparr>jobnum := 10\<rparr>) = halt OutOfBounds"
proof -
  obtain s where s: "divide [''yes'', ''|'', ''cat''] [CommandName, Pipe, CommandName] = ret s" "noCMD s = 1"
    using sample_divides by blast
  then show ?thesis
    using eleventh_job_overruns [OF _ _ s(1), of "jobs_init\<lparr>jobnum := 10\<rparr>" "sample_kernel (\<lambda>p. True)" "''yes | cat''"] sample_started [OF s(2)]
    by (simp add: sample_kernel_def jobs_ok_def jobs_init_def)
qed










end
