(* ===== verification/ProxyText.thy ===== *)
theory ProxyText
  imports CText
begin

text \<open>
  Editing HTTP headers in place (\<open>isItem\<close>, \<open>getValue\<close>, \<open>modifyValue\<close> and \<open>insertValue\<close> in
  \<open>proxy server/myproxy.c\<close>). A header is the C string in \<open>msg_in\<close>; the functions search it with \<open>strstr\<close>. The
  second half relates them to a header as a list of lines.
\<close>

section \<open>Searching and editing a C string\<close>

definition HEADER_MAX :: nat where "HEADER_MAX = 6 * 1024"

fun strstr :: "string \<Rightarrow> string \<Rightarrow> string option" where
  "strstr [] t = (if t = [] then Some [] else None)"
| "strstr (c # cs) t = (if take (length t) (c # cs) = t then Some (c # cs) else strstr cs t)"

definition isItem :: "string \<Rightarrow> string \<Rightarrow> bool" where
  "isItem msg_in item \<longleftrightarrow> strstr msg_in item \<noteq> None"

abbreviation CRLF :: string where "CRLF \<equiv> [CHR 0x0D, CHR 0x0A]"

text \<open>\<open>None\<close> is the result 0, when \<open>value\<close>, an array of \<open>n\<close> characters, stays as it was.\<close>

definition getValue :: "nat \<Rightarrow> string \<Rightarrow> string \<Rightarrow> string \<Rightarrow> string option run" where
  "getValue n msg_in start_item end_item =
     (case strstr msg_in start_item of None \<Rightarrow> ret None
      | Some s \<Rightarrow>
        let start_s = drop (length start_item) s in
        case strstr start_s end_item of None \<Rightarrow> ret None
        | Some end_s \<Rightarrow>
          let len = length start_s - length end_s in
          if len = 0 then ret None
          else if len < n then ret (Some (take len start_s)) else halt OutOfBounds)"

text \<open>The edited header; the results of the two functions, which nobody looks at, are left out. \<open>temp\<close>
  has 1000 characters.\<close>

definition modifyValue :: "string \<Rightarrow> string \<Rightarrow> string \<Rightarrow> string \<Rightarrow> string run" where
  "modifyValue msg_in start_item end_item value =
     (case strstr msg_in start_item of None \<Rightarrow> ret msg_in
      | Some s \<Rightarrow>
        let start_s = drop (length start_item) s in
        case strstr start_s end_item of None \<Rightarrow> ret msg_in
        | Some end_s \<Rightarrow>
          if length start_s - length end_s = 0 then ret msg_in
          else if length end_s \<ge> 1000 then halt OutOfBounds
          else let msg = take (length msg_in - length start_s) msg_in @ value @ end_s in
            if length msg < HEADER_MAX then ret msg else halt OutOfBounds)"

definition insertValue :: "string \<Rightarrow> string \<Rightarrow> string \<Rightarrow> string run" where
  "insertValue msg_in item value =
     (let temp = CRLF @ item @ value @ CRLF @ CRLF in
      if length temp \<ge> 1000 then halt OutOfBounds
      else case strstr msg_in (CRLF @ CRLF) of None \<Rightarrow> ret msg_in
      | Some start_s \<Rightarrow>
        let msg = take (length msg_in - length start_s) msg_in @ temp in
        if length msg < HEADER_MAX then ret msg else halt OutOfBounds)"

section \<open>Headers as lists of lines\<close>

text \<open>A header has a first line and then field lines; the fields start with an item such as
  \<open>Connection: \<close>. The first line that starts with the item counts.\<close>

fun field_lines :: "string list \<Rightarrow> string" where
  "field_lines [] = CRLF @ CRLF"
| "field_lines (l # ls) = CRLF @ l @ field_lines ls"

definition header :: "string \<Rightarrow> string list \<Rightarrow> string" where
  "header first ls = first @ field_lines ls"

definition starts :: "string \<Rightarrow> string \<Rightarrow> bool" where
  "starts item l \<longleftrightarrow> take (length item) l = item"

fun field :: "string list \<Rightarrow> string \<Rightarrow> string option" where
  "field [] item = None"
| "field (l # ls) item = (if starts item l then Some (drop (length item) l) else field ls item)"

text \<open>The lines from the one that counts on.\<close>

fun from_field :: "string list \<Rightarrow> string \<Rightarrow> string list" where
  "from_field [] item = []"
| "from_field (l # ls) item = (if starts item l then l # ls else from_field ls item)"

fun set_field :: "string list \<Rightarrow> string \<Rightarrow> string \<Rightarrow> string list" where
  "set_field [] item v = [item @ v]"
| "set_field (l # ls) item v = (if starts item l then (item @ v) # ls else l # set_field ls item v)"

definition no_cr :: "string \<Rightarrow> bool" where
  "no_cr s \<longleftrightarrow> CHR 0x0D \<notin> set s"

definition header_ok :: "string \<Rightarrow> string list \<Rightarrow> bool" where
  "header_ok first ls \<longleftrightarrow> no_cr first \<and> list_all (\<lambda>l. no_cr l \<and> l \<noteq> []) ls"

lemma strstr_skip_char: "c \<notin> set p \<Longrightarrow> strstr (p @ s) (c # t) = strstr s (c # t)"
  by (induction p) auto

lemma strstr_skip: "no_cr p \<Longrightarrow> strstr (p @ s) (CHR 0x0D # t) = strstr s (CHR 0x0D # t)"
  by (simp add: no_cr_def strstr_skip_char)

lemma isItem_set: "isItem s t \<Longrightarrow> set t \<subseteq> set s"
proof (induction s)
  case (Cons c s)
  then show ?case
  proof (cases "take (length t) (c # s) = t")
    case True
    then show ?thesis by (metis set_take_subset)
  qed (auto simp: isItem_def)
qed (auto simp: isItem_def split: if_splits)

lemma field_lines_start: "\<exists>r. field_lines ls = CHR 0x0D # CHR 0x0A # r"
  by (cases ls) auto

lemma starts_line:
  assumes "no_cr item" "field_lines ls = CHR 0x0D # r"
  shows "take (length item) (l @ CHR 0x0D # r) = item \<longleftrightarrow> starts item l"
proof (cases "length item \<le> length l")
  case True
  then show ?thesis by (simp add: starts_def)
next
  case False
  then have "take (length item) (l @ CHR 0x0D # r) \<noteq> item"
    using assms(1) by (cases "length item - length l") (auto simp: no_cr_def dest: arg_cong [where f = set])
  moreover have "\<not> starts item l" using False by (auto simp: starts_def dest: arg_cong [where f = length])
  ultimately show ?thesis by simp
qed

lemma strstr_item:
  assumes "no_cr item" "item \<noteq> []" "list_all no_cr ls"
  shows "strstr (field_lines ls) (CRLF @ item) =
    (case from_field ls item of [] \<Rightarrow> None | l # rest \<Rightarrow> Some (CRLF @ l @ field_lines rest))"
  using assms(3)
proof (induction ls)
  case Nil
  with assms(1,2) show ?case by (cases item) (auto simp: no_cr_def)
next
  case (Cons l ls)
  obtain r where r: "field_lines ls = CHR 0x0D # CHR 0x0A # r" using field_lines_start by blast
  from starts_line [OF assms(1) r] have st: "take (length item) (l @ field_lines ls) = item \<longleftrightarrow> starts item l" by (simp add: r)
  have "strstr (CHR 0x0A # l @ field_lines ls) (CRLF @ item) = strstr (field_lines ls) (CRLF @ item)"
    using strstr_skip [of "CHR 0x0A # l" "field_lines ls"] Cons.prems by (simp add: no_cr_def)
  with Cons st show ?case by simp
qed

lemma strstr_header_item:
  assumes "no_cr item" "item \<noteq> []" "header_ok first ls"
  shows "strstr (header first ls) (CRLF @ item) =
    (case from_field ls item of [] \<Rightarrow> None | l # rest \<Rightarrow> Some (CRLF @ l @ field_lines rest))"
proof -
  have "list_all no_cr ls" using assms(3) by (auto simp: header_ok_def list_all_iff)
  then show ?thesis using assms strstr_item strstr_skip [of first] by (simp add: header_def header_ok_def)
qed

lemma field_from: "field ls item = (case from_field ls item of [] \<Rightarrow> None | l # rest \<Rightarrow> Some (drop (length item) l))"
  by (induction ls) auto

lemma isItem_header:
  "no_cr item \<Longrightarrow> item \<noteq> [] \<Longrightarrow> header_ok first ls \<Longrightarrow> isItem (header first ls) (CRLF @ item) \<longleftrightarrow> field ls item \<noteq> None"
  using strstr_header_item [of item first ls] by (simp add: isItem_def field_from split: list.splits)

lemma strstr_line_end: "no_cr v \<Longrightarrow> strstr (v @ field_lines ls) CRLF = Some (field_lines ls)"
  using field_lines_start [of ls] by (auto simp: strstr_skip)

lemma getValue_header:
  assumes "no_cr item" "item \<noteq> []" "header_ok first ls"
  shows "getValue n (header first ls) (CRLF @ item) CRLF =
    (case field ls item of None \<Rightarrow> ret None
     | Some v \<Rightarrow> if v = [] then ret None else if length v < n then ret (Some v) else halt OutOfBounds)"
proof (cases "from_field ls item")
  case Nil
  then show ?thesis using strstr_header_item [OF assms] by (simp add: getValue_def field_from)
next
  case (Cons l rest)
  then have "l \<in> set ls" and l: "starts item l" by (induction ls) (auto split: if_splits)
  then have "no_cr (drop (length item) l)" using assms(3) by (auto simp: header_ok_def list_all_iff no_cr_def dest: in_set_dropD)
  moreover have "drop (length item) (l @ field_lines rest) = drop (length item) l @ field_lines rest"
    using l by (cases "length item \<le> length l") (auto simp: starts_def dest: arg_cong [where f = length])
  ultimately show ?thesis using strstr_header_item [OF assms] Cons
    by (simp add: getValue_def field_from strstr_line_end Let_def)
qed

section \<open>Fields as an interface\<close>

text \<open>What a client of a header relies on: a field that was set reads back, and the fields with an
  independent name keep their values.\<close>

locale header_fields =
  fixes get :: "'h \<Rightarrow> 'k \<Rightarrow> 'v option"
    and put :: "'h \<Rightarrow> 'k \<Rightarrow> 'v \<Rightarrow> 'h"
    and independent :: "'k \<Rightarrow> 'k \<Rightarrow> bool"
  assumes get_put: "get (put h k v) k = Some v"
    and get_put_other: "independent k k' \<Longrightarrow> get (put h k v) k' = get h k'"
begin

lemma get_put_two:
  assumes "independent k' k"
  shows "get (put (put h k v) k' v') k = Some v" "get (put (put h k v) k' v') k' = Some v'"
  using assms by (simp_all add: get_put get_put_other)

lemma get_put_two_other:
  "independent k k'' \<Longrightarrow> independent k' k'' \<Longrightarrow> get (put (put h k v) k' v') k'' = get h k''"
  by (simp add: get_put_other)

end

section \<open>Setting a field\<close>

text \<open>What the proxy does before it forwards a header: replace the value of a field or append the field.\<close>

definition set_header :: "string \<Rightarrow> string \<Rightarrow> string \<Rightarrow> string run" where
  "set_header msg_in item value =
     (if isItem msg_in (CRLF @ item) then modifyValue msg_in (CRLF @ item) CRLF value else insertValue msg_in item value)"

abbreviation lines_before :: "string list \<Rightarrow> string" where
  "lines_before ls \<equiv> concat (map (\<lambda>l. CHR 0x0D # CHR 0x0A # l) ls)"

lemma field_lines_append: "field_lines (xs @ ys) = lines_before xs @ field_lines ys"
  by (induction xs) simp_all

lemma from_field_split: "from_field ls item = l # rest \<Longrightarrow>
  \<exists>xs u. ls = xs @ (item @ u) # rest \<and> l = item @ u \<and> (\<forall>v. set_field ls item v = xs @ (item @ v) # rest)"
proof (induction ls)
  case (Cons x ls)
  show ?case
  proof (cases "starts item x")
    case True
    then have "x = item @ drop (length item) x" unfolding starts_def by (metis append_take_drop_id)
    with True Cons.prems show ?thesis by (intro exI [of _ "[]"] exI [of _ "drop (length item) x"]) auto
  next
    case False
    with Cons obtain xs u where "ls = xs @ (item @ u) # rest" "l = item @ u" "\<forall>v. set_field ls item v = xs @ (item @ v) # rest" by auto
    with False show ?thesis by (intro exI [of _ "x # xs"] exI [of _ u]) simp
  qed
qed simp

lemma from_field_none: "field ls item = None \<Longrightarrow> set_field ls item v = ls @ [item @ v]"
  by (induction ls) (auto split: if_splits)

lemma strstr_blank:
  assumes "header_ok first ls"
  shows "strstr (header first ls) (CRLF @ CRLF) = Some (CRLF @ CRLF)"
proof -
  have "strstr (field_lines ls) (CRLF @ CRLF) = Some (CRLF @ CRLF)" if "list_all (\<lambda>l. no_cr l \<and> l \<noteq> []) ls" for ls
    using that
  proof (induction ls)
    case (Cons l ls)
    then obtain c l' where l: "l = c # l'" "c \<noteq> CHR 0x0D" by (cases l) (auto simp: no_cr_def)
    with Cons strstr_skip [of "CHR 0x0A # l" "field_lines ls"] show ?case by (simp add: no_cr_def)
  qed simp
  with assms strstr_skip [of first "field_lines ls"] show ?thesis by (simp add: header_def header_ok_def)
qed

text \<open>The rest of the header behind the value that is replaced.\<close>

definition after_field :: "string list \<Rightarrow> string \<Rightarrow> string" where
  "after_field ls item = field_lines (tl (from_field ls item))"

lemma modifyValue_header:
  assumes "no_cr item" "item \<noteq> []" "header_ok first ls" "field ls item = Some u" "u \<noteq> []"
  shows "modifyValue (header first ls) (CRLF @ item) CRLF v =
    (if length (after_field ls item) \<ge> 1000 \<or> length (header first (set_field ls item v)) \<ge> HEADER_MAX then halt OutOfBounds
     else ret (header first (set_field ls item v)))"
proof -
  from assms(4) obtain l rest where fr: "from_field ls item = l # rest" by (cases "from_field ls item") (auto simp: field_from)
  from from_field_split [OF fr] obtain xs u' where x: "ls = xs @ (item @ u') # rest" "l = item @ u'"
    "\<forall>v. set_field ls item v = xs @ (item @ v) # rest" by blast
  have u: "u' = u" using assms(4) fr x(2) by (simp add: field_from)
  have "no_cr u" using assms(3) x(1) u by (auto simp: header_ok_def no_cr_def)
  then have se: "strstr (u @ field_lines rest) CRLF = Some (field_lines rest)" by (rule strstr_line_end)
  have st: "strstr (header first ls) (CRLF @ item) = Some (CRLF @ item @ u @ field_lines rest)"
    using strstr_header_item [OF assms(1-3)] fr x(2) u by simp
  have H: "header first ls = (first @ lines_before xs @ CRLF @ item) @ u @ field_lines rest"
    "header first (set_field ls item v) = (first @ lines_before xs @ CRLF @ item) @ v @ field_lines rest"
    using x u by (simp_all add: header_def field_lines_append)
  have tk: "take (length (header first ls) - length (u @ field_lines rest)) (header first ls) = first @ lines_before xs @ CRLF @ item"
    unfolding H(1) by simp
  have af: "after_field ls item = field_lines rest" using fr by (simp add: after_field_def)
  have dr: "drop (length (CRLF @ item)) (CRLF @ item @ u @ field_lines rest) = u @ field_lines rest" by simp
  show ?thesis
    unfolding modifyValue_def st option.case Let_def dr se tk af H(2) using assms(5) by (auto simp: not_le)
qed

lemma insertValue_header:
  assumes "header_ok first ls" "field ls item = None"
  shows "insertValue (header first ls) item v =
    (if length item + length v + 6 \<ge> 1000 \<or> length (header first (set_field ls item v)) \<ge> HEADER_MAX then halt OutOfBounds
     else ret (header first (set_field ls item v)))"
proof -
  have H: "header first ls = (first @ lines_before ls) @ CRLF @ CRLF" using field_lines_append [of ls "[]"] by (simp add: header_def)
  have tk: "take (length (header first ls) - length (CRLF @ CRLF)) (header first ls) = first @ lines_before ls" unfolding H by simp
  have H2: "header first (set_field ls item v) = (first @ lines_before ls) @ CRLF @ item @ v @ CRLF @ CRLF"
    using field_lines_append [of ls "[item @ v]"] by (simp add: header_def from_field_none [OF assms(2)])
  show ?thesis
    unfolding insertValue_def Let_def strstr_blank [OF assms(1)] option.case tk H2 by (auto simp: not_le)
qed

text \<open>What a set of a field returns: on a header the edit of the list of lines, unless a buffer overflows.\<close>

definition edit_fits :: "string \<Rightarrow> string list \<Rightarrow> string \<Rightarrow> string \<Rightarrow> bool" where
  "edit_fits first ls item v \<longleftrightarrow> length (header first (set_field ls item v)) < HEADER_MAX \<and>
     (if field ls item = None then length item + length v + 6 < 1000 else length (after_field ls item) < 1000)"

lemma set_header_lines:
  assumes "no_cr item" "item \<noteq> []" "header_ok first ls" "field ls item \<noteq> Some []"
  shows "set_header (header first ls) item v = (if edit_fits first ls item v then ret (header first (set_field ls item v)) else halt OutOfBounds)"
proof (cases "field ls item")
  case None
  with insertValue_header [OF assms(3) None] isItem_header [OF assms(1-3)] show ?thesis
    unfolding set_header_def edit_fits_def by (auto simp: not_less)
next
  case (Some u)
  with assms(4) have "u \<noteq> []" by auto
  with modifyValue_header [OF assms(1-3) Some] isItem_header [OF assms(1-3)] Some show ?thesis
    unfolding set_header_def edit_fits_def by (auto simp: not_less)
qed

lemma starts_append [simp]: "starts item (item @ v)"
  by (simp add: starts_def)

lemma field_set_field: "field (set_field ls item v) item = Some v"
  by (induction ls) simp_all

lemma field_set_other:
  assumes "\<And>w. \<not> starts item' (item @ w)" "\<And>w. \<not> starts item (item' @ w)"
  shows "field (set_field ls item v) item' = field ls item'"
proof (induction ls)
  case (Cons l ls)
  have "\<not> starts item' l" if "starts item l"
  proof -
    from that have "l = item @ drop (length item) l" unfolding starts_def by (metis append_take_drop_id)
    with assms(1) show ?thesis by metis
  qed
  with Cons assms(1) show ?case by auto
qed (simp add: assms(1))

lemma set_field_ok: "header_ok first ls \<Longrightarrow> no_cr item \<Longrightarrow> no_cr v \<Longrightarrow> item \<noteq> [] \<Longrightarrow> header_ok first (set_field ls item v)"
  by (induction ls) (auto simp: header_ok_def no_cr_def)

text \<open>Two items neither of which starts the other.\<close>

definition apart :: "string \<Rightarrow> string \<Rightarrow> bool" where
  "apart a b \<longleftrightarrow> take (length a) b \<noteq> take (length b) a"

lemma apart_starts: "apart a b \<Longrightarrow> \<not> starts b (a @ w) \<and> \<not> starts a (b @ w)"
  unfolding apart_def starts_def
  by (metis (no_types) append_take_drop_id take_append append_eq_append_conv_if diff_is_0_eq' nat_le_linear take0 append_Nil2 take_all)

interpretation fields: header_fields field set_field apart
  by unfold_locales (simp_all add: field_set_field field_set_other apart_starts)

end
