(* ===== verification/HttpDate.thy ===== *)
theory HttpDate
  imports CText
begin

text \<open>
  HTTP dates and \<open>time_t\<close>: what \<open>getIMT\<close>, \<open>compareIMS\<close>, \<open>getCurrentTime\<close> and \<open>convertToUnixTime\<close> of
  \<open>proxy server/myproxy.c\<close> use of \<open>gmtime_r\<close>, \<open>strftime\<close>, \<open>strptime\<close> and \<open>timegm\<close> with their one format,
  \<^verbatim>\<open>%a, %d %b %Y %H:%M:%S GMT\<close>.
\<close>

section \<open>The calendar\<close>

definition leap_year :: "int \<Rightarrow> bool" where
  "leap_year y \<longleftrightarrow> y mod 4 = 0 \<and> y mod 100 \<noteq> 0 \<or> y mod 400 = 0"

definition year_len :: "int \<Rightarrow> int" where
  "year_len y = (if leap_year y then 366 else 365)"

definition month_lens :: "int \<Rightarrow> int list" where
  "month_lens y = [31, if leap_year y then 29 else 28, 31, 30, 31, 30, 31, 31, 30, 31, 30, 31]"

text \<open>Days from the first day of 1970 to the first day of a year.\<close>

definition days_before :: "int \<Rightarrow> int" where
  "days_before y = 365 * (y - 1970) + (y - 1) div 4 - (y - 1) div 100 + (y - 1) div 400 - 477"

function year_up :: "int \<Rightarrow> int \<Rightarrow> int \<times> int" where
  "year_up y d = (if year_len y \<le> d then year_up (y + 1) (d - year_len y) else (y, d))"
  by pat_completeness auto
termination by (relation "measure (\<lambda>(y, d). nat d)") (auto simp: year_len_def split: if_splits)

function year_down :: "int \<Rightarrow> int \<Rightarrow> int \<times> int" where
  "year_down y d = (if d < 0 then year_down (y - 1) (d + year_len (y - 1)) else (y, d))"
  by pat_completeness auto
termination by (relation "measure (\<lambda>(y, d). nat (- d))") (auto simp: year_len_def split: if_splits)

declare year_up.simps [simp del] year_down.simps [simp del]

definition year_of_day :: "int \<Rightarrow> int \<times> int" where
  "year_of_day d = (if d < 0 then year_down 1970 d else year_up 1970 d)"

fun month_of :: "nat \<Rightarrow> int list \<Rightarrow> int \<Rightarrow> nat \<times> int" where
  "month_of i [] d = (i, d)"
| "month_of i (m # ms) d = (if d < m then (i, d) else month_of (Suc i) ms (d - m))"

record tm =
  tm_year :: int
  tm_mon :: nat
  tm_mday :: int
  tm_hour :: int
  tm_min :: int
  tm_sec :: int
  tm_wday :: nat

definition gmtime :: "int \<Rightarrow> tm" where
  "gmtime t = (case year_of_day (t div 86400) of (y, yd) \<Rightarrow>
     (case month_of 0 (month_lens y) yd of (m, d) \<Rightarrow>
      \<lparr>tm_year = y, tm_mon = m, tm_mday = d + 1, tm_hour = t mod 86400 div 3600, tm_min = t mod 3600 div 60,
       tm_sec = t mod 60, tm_wday = nat ((t div 86400 + 4) mod 7)\<rparr>))"

definition timegm :: "tm \<Rightarrow> int" where
  "timegm v = ((days_before (tm_year v) + sum_list (take (tm_mon v) (month_lens (tm_year v))) + tm_mday v - 1) * 24 + tm_hour v) * 3600
     + tm_min v * 60 + tm_sec v"

section \<open>The text of a date\<close>

definition day_names :: "string list" where
  "day_names = [''Sunday'', ''Monday'', ''Tuesday'', ''Wednesday'', ''Thursday'', ''Friday'', ''Saturday'']"

definition month_names :: "string list" where
  "month_names = [''January'', ''February'', ''March'', ''April'', ''May'', ''June'', ''July'', ''August'', ''September'',
     ''October'', ''November'', ''December'']"

definition two :: "int \<Rightarrow> string" where
  "two n = [digit (nat n div 10), digit (nat n mod 10)]"

definition http_date :: "int \<Rightarrow> string" where
  "http_date t = (let v = gmtime t in
     take 3 (day_names ! tm_wday v) @ '', '' @ two (tm_mday v) @ '' '' @ take 3 (month_names ! tm_mon v) @ '' '' @
     show_int (tm_year v) @ '' '' @ two (tm_hour v) @ '':'' @ two (tm_min v) @ '':'' @ two (tm_sec v) @ '' GMT'')"

text \<open>\<open>strptime\<close>: names in full or their first three letters, in any case; a space of the format skips any white
  space; a number has at most \<open>n\<close> digits and lies between two bounds.\<close>

definition letter_pairs :: "(char \<times> char) list" where
  "letter_pairs = zip ''ABCDEFGHIJKLMNOPQRSTUVWXYZ'' ''abcdefghijklmnopqrstuvwxyz''"

definition lower :: "char \<Rightarrow> char" where
  "lower c = (case map_of letter_pairs c of None \<Rightarrow> c | Some d \<Rightarrow> d)"

definition scan_word :: "string \<Rightarrow> string \<Rightarrow> string option" where
  "scan_word w s = (if map lower (take (length w) s) = map lower w then Some (drop (length w) s) else None)"

fun scan_name :: "nat \<Rightarrow> string list \<Rightarrow> string \<Rightarrow> (nat \<times> string) option" where
  "scan_name i [] s = None"
| "scan_name i (w # ws) s =
     (case scan_word w s of Some r \<Rightarrow> Some (i, r)
      | None \<Rightarrow> (case scan_word (take 3 w) s of Some r \<Rightarrow> Some (i, r) | None \<Rightarrow> scan_name (Suc i) ws s))"

fun more_digits :: "nat \<Rightarrow> int \<Rightarrow> int \<Rightarrow> string \<Rightarrow> int \<times> string" where
  "more_digits 0 hi v s = (v, s)"
| "more_digits (Suc n) hi v [] = (v, [])"
| "more_digits (Suc n) hi v (c # cs) =
     (case digit_val c of None \<Rightarrow> (v, c # cs)
      | Some d \<Rightarrow> if v * 10 \<le> hi then more_digits n hi (v * 10 + int d) cs else (v, c # cs))"

definition get_number :: "int \<Rightarrow> int \<Rightarrow> nat \<Rightarrow> string \<Rightarrow> (int \<times> string) option" where
  "get_number lo hi n s0 = (let s = dropWhile (\<lambda>c. c = CHR '' '') s0 in
     if starts_digit s then (case more_digits n hi 0 s of (v, r) \<Rightarrow> if lo \<le> v \<and> v \<le> hi then Some (v, r) else None) else None)"

abbreviation scan_space :: "string \<Rightarrow> string" where
  "scan_space s \<equiv> dropWhile isspace s"

definition strptime_http :: "string \<Rightarrow> tm option" where
  "strptime_http s0 =
     Option.bind (scan_name 0 day_names s0) (\<lambda>(wd, s).
     Option.bind (scan_char (CHR '','') s) (\<lambda>s.
     Option.bind (get_number 1 31 2 (scan_space s)) (\<lambda>(d, s).
     Option.bind (scan_name 0 month_names (scan_space s)) (\<lambda>(mo, s).
     Option.bind (get_number 0 9999 4 (scan_space s)) (\<lambda>(y, s).
     Option.bind (get_number 0 23 2 (scan_space s)) (\<lambda>(h, s).
     Option.bind (scan_char (CHR '':'') s) (\<lambda>s.
     Option.bind (get_number 0 59 2 s) (\<lambda>(mi, s).
     Option.bind (scan_char (CHR '':'') s) (\<lambda>s.
     Option.bind (get_number 0 61 2 s) (\<lambda>(se, s).
     Option.bind (scan_char (CHR ''G'') (scan_space s)) (\<lambda>s.
     Option.bind (scan_char (CHR ''M'') s) (\<lambda>s.
     Option.bind (scan_char (CHR ''T'') s) (\<lambda>s.
     Some \<lparr>tm_year = y, tm_mon = mo, tm_mday = d, tm_hour = h, tm_min = mi, tm_sec = se, tm_wday = wd\<rparr>)))))))))))))"

text \<open>The time a date denotes, \<open>None\<close> when \<open>strptime\<close> fails.\<close>

definition http_time :: "string \<Rightarrow> int option" where
  "http_time s = map_option timegm (strptime_http s)"

section \<open>The calendar is right\<close>

lemma div_pred:
  assumes "0 < (k :: int)"
  shows "y div k = (y - 1) div k + (if y mod k = 0 then 1 else 0)"
proof (cases "y mod k = 0")
  case True
  then have "y - 1 = (y div k - 1) * k + (k - 1)" using div_mult_mod_eq [of y k] by (simp add: algebra_simps)
  then have "(y - 1) div k = y div k - 1" using assms by (intro int_div_pos_eq [where r = "k - 1"]) (simp_all add: algebra_simps)
  with True show ?thesis by simp
next
  case False
  with assms have "0 < y mod k" by (simp add: less_le)
  moreover have "y mod k < k" using assms by simp
  moreover have "y - 1 = k * (y div k) + (y mod k - 1)" using div_mult_mod_eq [of y k] by (simp add: algebra_simps)
  ultimately have "(y - 1) div k = y div k" by (intro int_div_pos_eq [where r = "y mod k - 1"]) simp_all
  with False show ?thesis by simp
qed

lemma days_before_next: "days_before (y + 1) = days_before y + year_len y"
proof -
  have "y mod 400 = 0 \<Longrightarrow> y mod 100 = 0" using mod_mod_cancel [of 100 400 y] by simp
  moreover have "y mod 100 = 0 \<Longrightarrow> y mod 4 = 0" using mod_mod_cancel [of 4 100 y] by simp
  moreover define A B C where "A \<longleftrightarrow> y mod 4 = 0" and "B \<longleftrightarrow> y mod 100 = 0" and "C \<longleftrightarrow> y mod 400 = 0"
  ultimately have imp: "C \<longrightarrow> B" "B \<longrightarrow> A" by auto
  define a b c where "a = (y - 1) div 4" and "b = (y - 1) div 100" and "c = (y - 1) div 400"
  have D: "y div 4 = a + (if A then 1 else 0)" "y div 100 = b + (if B then 1 else 0)" "y div 400 = c + (if C then 1 else 0)"
    unfolding A_def B_def C_def a_def b_def c_def by (rule div_pred; simp)+
  have Y: "year_len y = (if A \<and> \<not> B \<or> C then 366 else 365)"
    unfolding year_len_def leap_year_def A_def B_def C_def by (rule refl)
  have R: "days_before y = 365 * (y - 1970) + a - b + c - 477"
    unfolding days_before_def a_def b_def c_def by (rule refl)
  have L: "days_before (y + 1) = 365 * (y + 1 - 1970) + y div 4 - y div 100 + y div 400 - 477"
    by (simp only: days_before_def add_diff_cancel_right')
  from imp show ?thesis unfolding L R Y D by (cases A; cases B; cases C; simp)
qed

lemma days_before_mono: "y \<le> z \<Longrightarrow> days_before y \<le> days_before z"
proof (induction z rule: int_ge_induct)
  case (step z)
  then show ?case by (simp add: days_before_next year_len_def)
qed simp

lemma year_up_days:
  "year_up y d = (y', d') \<Longrightarrow> 0 \<le> d \<Longrightarrow> days_before y' + d' = days_before y + d \<and> 0 \<le> d' \<and> d' < year_len y' \<and> y \<le> y'"
proof (induction y d arbitrary: y' d' rule: year_up.induct)
  case (1 y d)
  show ?case
  proof (cases "year_len y \<le> d")
    case True
    with 1 show ?thesis by (fastforce simp: year_up.simps [of y d] days_before_next)
  next
    case False
    with 1 show ?thesis by (auto simp: year_up.simps [of y d])
  qed
qed

lemma month_of_days:
  "month_of i ms d = (m, r) \<Longrightarrow> 0 \<le> d \<Longrightarrow> d < sum_list ms \<Longrightarrow>
   i \<le> m \<and> m < i + length ms \<and> d = sum_list (take (m - i) ms) + r \<and> 0 \<le> r \<and> r < ms ! (m - i)"
proof (induction i ms d arbitrary: m r rule: month_of.induct)
  case (2 i k ms d)
  show ?case
  proof (cases "d < k")
    case True
    with 2 show ?thesis by auto
  next
    case False
    with 2 have ih: "Suc i \<le> m \<and> m < Suc i + length ms \<and> d - k = sum_list (take (m - Suc i) ms) + r \<and> 0 \<le> r \<and> r < ms ! (m - Suc i)" by simp
    then have "m - i = Suc (m - Suc i)" by linarith
    with ih show ?thesis by auto
  qed
qed simp

lemma sum_month_lens: "sum_list (month_lens y) = year_len y"
  by (simp add: month_lens_def year_len_def)

lemma month_lens_le: "m < 12 \<Longrightarrow> month_lens y ! m \<le> 31"
  by (auto simp: month_lens_def nth_Cons' numeral_eq_Suc less_Suc_eq)

text \<open>The fields of a time of day and date.\<close>

lemma gmtime_fields:
  assumes "0 \<le> t"
  shows "timegm (gmtime t) = t" "tm_mon (gmtime t) < 12" "1 \<le> tm_mday (gmtime t)" "tm_mday (gmtime t) \<le> 31"
    "1970 \<le> tm_year (gmtime t)" "days_before (tm_year (gmtime t)) \<le> t div 86400" "tm_wday (gmtime t) < 7"
    "0 \<le> tm_hour (gmtime t)" "tm_hour (gmtime t) < 24" "0 \<le> tm_min (gmtime t)" "tm_min (gmtime t) < 60" "0 \<le> tm_sec (gmtime t)" "tm_sec (gmtime t) < 60"
proof -
  let ?d = "t div 86400"
  obtain y yd where y: "year_of_day ?d = (y, yd)" by fastforce
  obtain m r where m: "month_of 0 (month_lens y) yd = (m, r)" by fastforce
  from y assms have yd: "days_before y + yd = days_before 1970 + ?d" "0 \<le> yd" "yd < year_len y" "1970 \<le> y"
    using year_up_days [of 1970 ?d y yd] by (auto simp: year_of_day_def pos_imp_zdiv_neg_iff not_less)
  have d0: "days_before 1970 = 0" by (simp add: days_before_def)
  from month_of_days [OF m] yd sum_month_lens have md: "m < 12" "yd = sum_list (take m (month_lens y)) + r" "0 \<le> r" "r < month_lens y ! m"
    by (auto simp: month_lens_def)
  have g: "gmtime t = \<lparr>tm_year = y, tm_mon = m, tm_mday = r + 1, tm_hour = t mod 86400 div 3600, tm_min = t mod 3600 div 60,
      tm_sec = t mod 60, tm_wday = nat ((?d + 4) mod 7)\<rparr>" using y m by (simp add: gmtime_def)
  have "days_before y + sum_list (take m (month_lens y)) + r = ?d" using yd(1) md(2) d0 by simp
  then have tg: "timegm (gmtime t) = (?d * 24 + t mod 86400 div 3600) * 3600 + t mod 3600 div 60 * 60 + t mod 60"
    by (simp add: g timegm_def add.assoc)
  have "t mod 86400 mod 3600 = t mod 3600" "t mod 3600 mod 60 = t mod 60" by (simp_all add: mod_mod_cancel)
  then have e: "?d * 86400 + t mod 86400 = t" "t mod 86400 div 3600 * 3600 + t mod 3600 = t mod 86400" "t mod 3600 div 60 * 60 + t mod 60 = t mod 3600"
    using div_mult_mod_eq [of t 86400] div_mult_mod_eq [of "t mod 86400" 3600] div_mult_mod_eq [of "t mod 3600" 60] by metis+
  have "(D * 24 + H) * 3600 + M * 60 + S = (t' :: int)" if "D * 86400 + A = t'" "H * 3600 + B = A" "M * 60 + S = B" for A B D H M S t'
    using that by (simp add: algebra_simps)
  from tg this [OF e] show "timegm (gmtime t) = t" by (rule trans)
  have "t mod 86400 div 3600 \<le> 86399 div 3600" "t mod 3600 div 60 \<le> 3599 div 60" by (rule zdiv_mono1; simp)+
  then have hm: "t mod 86400 div 3600 < 24" "t mod 3600 div 60 < 60" by simp_all
  have wd: "nat ((?d + 4) mod 7) < 7" by (simp add: nat_less_iff)
  show "days_before (tm_year (gmtime t)) \<le> ?d" using yd(1,2) d0 by (simp add: g)
  show "tm_mday (gmtime t) \<le> 31" using md(4) month_lens_le [OF md(1), of y] by (simp add: g)
  have nn: "0 \<le> t mod 86400 div 3600" "0 \<le> t mod 3600 div 60" by (simp_all add: pos_imp_zdiv_nonneg_iff)
  show "tm_mon (gmtime t) < 12" unfolding g tm.simps by (rule md(1))
  show "1 \<le> tm_mday (gmtime t)" using md(3) unfolding g tm.simps by linarith
  show "1970 \<le> tm_year (gmtime t)" unfolding g tm.simps by (rule yd(4))
  show "tm_wday (gmtime t) < 7" unfolding g tm.simps by (rule wd)
  show "0 \<le> tm_hour (gmtime t)" "tm_hour (gmtime t) < 24" unfolding g tm.simps by (rule nn(1), rule hm(1))
  show "0 \<le> tm_min (gmtime t)" "tm_min (gmtime t) < 60" unfolding g tm.simps by (rule nn(2), rule hm(2))
  show "0 \<le> tm_sec (gmtime t)" "tm_sec (gmtime t) < 60" unfolding g tm.simps by simp_all
qed

section \<open>Reading a date back\<close>

lemma get_number_two:
  assumes "0 \<le> n" "n \<le> hi" "lo \<le> n" "10 \<le> hi" "hi < 100" "n div 10 * 10 \<le> hi"
  shows "get_number lo hi 2 (two n @ r) = Some (n, r)"
proof -
  have d: "nat n div 10 < 10" "nat n mod 10 < 10" using assms by auto
  have v: "int (nat n div 10) * 10 + int (nat n mod 10) = n" using assms(1) by (simp add: zdiv_int zmod_int)
  have sp: "digit (nat n div 10) \<noteq> CHR '' ''" using digit_props [OF d(1)] by (auto simp: isspace_def)
  have "int (nat n div 10) * 10 \<le> hi" using assms by linarith
  then show ?thesis using d v sp assms
    by (simp add: get_number_def two_def starts_digit_def Let_def numeral_2_eq_2)
qed

lemma isspace_two: "0 \<le> n \<Longrightarrow> n < 100 \<Longrightarrow> scan_space (two n @ r) = two n @ r"
  using digit_props [of "nat n div 10"] by (simp add: two_def)

text \<open>Three letters followed by another character are read as a short name.\<close>

fun short_name :: "nat \<Rightarrow> string list \<Rightarrow> string \<Rightarrow> nat option" where
  "short_name i [] p = None"
| "short_name i (w # ws) p = (if map lower (take 3 w) = map lower (take 3 p) then Some i else short_name (Suc i) ws p)"

lemma scan_name_short:
  assumes "length p = 4" "list_all (\<lambda>w. 3 \<le> length w \<and> map lower (take 4 w) \<noteq> map lower p) ws"
  shows "scan_name i ws (p @ r) = map_option (\<lambda>j. (j, drop 3 p @ r)) (short_name i ws p)"
  using assms(2)
proof (induction ws arbitrary: i)
  case (Cons w ws)
  have "scan_word w (p @ r) = (if map lower w = map lower (take 3 p) then Some (drop 3 p @ r) else None)"
  proof (cases "length w = 3")
    case True
    with assms(1) show ?thesis by (auto simp: scan_word_def)
  next
    case False
    with Cons.prems have w: "4 \<le> length w" by simp
    have "take 4 (map lower (take (length w) (p @ r))) = map lower p" using w assms(1) by (simp add: take_map min_def)
    moreover have "take 4 (map lower w) \<noteq> map lower p" using Cons.prems by (simp add: take_map)
    ultimately have "map lower (take (length w) (p @ r)) \<noteq> map lower w" by metis
    moreover have "map lower w \<noteq> map lower (take 3 p)" using w by (auto dest: arg_cong [where f = length])
    ultimately show ?thesis by (simp add: scan_word_def)
  qed
  moreover have "scan_word (take 3 w) (p @ r) = (if map lower (take 3 w) = map lower (take 3 p) then Some (drop 3 p @ r) else None)"
    using assms(1) Cons.prems by (auto simp: scan_word_def)
  moreover have "map lower w = map lower (take 3 p) \<Longrightarrow> map lower (take 3 w) = map lower (take 3 p)"
    by (metis take_all_iff length_map length_take min.cobounded2 min.commute)
  ultimately show ?case using Cons by auto
qed simp

lemma lower_letter:
  "lower (CHR ''A'') = CHR ''a''" "lower (CHR ''D'') = CHR ''d''" "lower (CHR ''F'') = CHR ''f''"
  "lower (CHR ''J'') = CHR ''j''" "lower (CHR ''M'') = CHR ''m''" "lower (CHR ''N'') = CHR ''n''"
  "lower (CHR ''O'') = CHR ''o''" "lower (CHR ''S'') = CHR ''s''" "lower (CHR ''T'') = CHR ''t''"
  "lower (CHR ''W'') = CHR ''w''" "lower (CHR ''a'') = CHR ''a''" "lower (CHR ''b'') = CHR ''b''"
  "lower (CHR ''c'') = CHR ''c''" "lower (CHR ''d'') = CHR ''d''" "lower (CHR ''e'') = CHR ''e''"
  "lower (CHR ''g'') = CHR ''g''" "lower (CHR ''h'') = CHR ''h''" "lower (CHR ''i'') = CHR ''i''"
  "lower (CHR ''l'') = CHR ''l''" "lower (CHR ''m'') = CHR ''m''" "lower (CHR ''n'') = CHR ''n''"
  "lower (CHR ''o'') = CHR ''o''" "lower (CHR ''p'') = CHR ''p''" "lower (CHR ''r'') = CHR ''r''"
  "lower (CHR ''s'') = CHR ''s''" "lower (CHR ''t'') = CHR ''t''" "lower (CHR ''u'') = CHR ''u''"
  "lower (CHR ''v'') = CHR ''v''" "lower (CHR ''y'') = CHR ''y''" "lower (CHR '' '') = CHR '' ''"
  "lower (CHR '','') = CHR '',''"
  by (simp_all add: lower_def letter_pairs_def)

lemma names_short:
  "list_all (\<lambda>i. list_all (\<lambda>w. 3 \<le> length w \<and> map lower (take 4 w) \<noteq> map lower (take 3 (day_names ! i) @ '','')) day_names \<and>
     length (day_names ! i) \<ge> 3 \<and> short_name 0 day_names (take 3 (day_names ! i) @ '','') = Some i) [0..<7]"
  "list_all (\<lambda>i. list_all (\<lambda>w. 3 \<le> length w \<and> map lower (take 4 w) \<noteq> map lower (take 3 (month_names ! i) @ '' '')) month_names \<and>
     length (month_names ! i) \<ge> 3 \<and> \<not> isspace (hd (month_names ! i)) \<and> short_name 0 month_names (take 3 (month_names ! i) @ '' '') = Some i) [0..<12]"
  by (simp_all add: day_names_def month_names_def lower_letter isspace_def upt_rec numeral_eq_Suc)

lemma scan_day: "w < 7 \<Longrightarrow> scan_name 0 day_names (take 3 (day_names ! w) @ CHR '','' # r) = Some (w, CHR '','' # r)"
  using scan_name_short [of "take 3 (day_names ! w) @ '',''" day_names 0 r] names_short(1) by (simp add: list_all_iff)

lemma scan_month: "m < 12 \<Longrightarrow> scan_name 0 month_names (take 3 (month_names ! m) @ CHR '' '' # r) = Some (m, CHR '' '' # r)"
  using scan_name_short [of "take 3 (month_names ! m) @ '' ''" month_names 0 r] names_short(2) by (simp add: list_all_iff)

lemma isspace_month: "m < 12 \<Longrightarrow> scan_space (take 3 (month_names ! m) @ r) = take 3 (month_names ! m) @ r"
proof -
  assume "m < 12"
  with names_short(2) have "length (month_names ! m) \<ge> 3 \<and> \<not> isspace (hd (month_names ! m))"
    unfolding list_all_iff [of _ "[0..<12]"] by (metis atLeast0LessThan lessThan_iff set_upt)
  then show ?thesis by (cases "month_names ! m") auto
qed

lemma show_nat_four:
  assumes "1000 \<le> n" "n < 10000"
  shows "show_nat n = [digit (n div 1000), digit (n div 100 mod 10), digit (n div 10 mod 10), digit (n mod 10)]"
proof -
  have e: "n div 10 div 10 = n div 100" "n div 100 div 10 = n div 1000" by (simp_all add: div_mult2_eq [symmetric])
  have "show_nat (n div 1000) = [digit (n div 1000)]" using assms by (subst show_nat.simps) auto
  then have "show_nat (n div 100) = [digit (n div 1000), digit (n div 100 mod 10)]" using assms e by (subst show_nat.simps) auto
  then have "show_nat (n div 10) = [digit (n div 1000), digit (n div 100 mod 10), digit (n div 10 mod 10)]"
    using assms e by (subst show_nat.simps) auto
  then show ?thesis using assms by (subst show_nat.simps) auto
qed

lemma get_four_digits:
  assumes "a < 10" "b < 10" "c < 10" "d < 10"
  shows "get_number 0 9999 4 (digit a # digit b # digit c # digit d # r) = Some (((int a * 10 + int b) * 10 + int c) * 10 + int d, r)"
proof -
  have four: "(4 :: nat) = Suc (Suc (Suc (Suc 0)))" by simp
  have m: "more_digits 4 9999 0 (digit a # digit b # digit c # digit d # r) = (((int a * 10 + int b) * 10 + int c) * 10 + int d, r)"
    unfolding four using assms by simp
  have "digit a \<noteq> CHR '' ''" using digit_props [OF assms(1)] by (auto simp: isspace_def)
  with m assms show ?thesis by (simp add: get_number_def starts_digit_def)
qed

lemma get_year:
  assumes "1000 \<le> y" "y < 10000"
  shows "get_number 0 9999 4 (show_int y @ r) = Some (y, r)" "scan_space (show_int y @ r) = show_int y @ r"
proof -
  define n where "n = nat y"
  have n: "1000 \<le> n" "n < 10000" "y = int n" using assms by (auto simp: n_def)
  define a b c d where "a = n div 1000" and "b = n div 100 mod 10" and "c = n div 10 mod 10" and "d = n mod 10"
  have l: "a < 10" "b < 10" "c < 10" "d < 10" using n by (auto simp: a_def b_def c_def d_def)
  have e: "n div 10 div 10 = n div 100" "n div 100 div 10 = n div 1000" by (simp_all add: div_mult2_eq [symmetric])
  have "n = ((a * 10 + b) * 10 + c) * 10 + d"
    using div_mult_mod_eq [of n 10] div_mult_mod_eq [of "n div 10" 10] div_mult_mod_eq [of "n div 100" 10]
    unfolding a_def b_def c_def d_def e by simp
  then have y: "y = ((int a * 10 + int b) * 10 + int c) * 10 + int d" using n(3) by simp
  have s: "show_int y = [digit a, digit b, digit c, digit d]"
    using n show_nat_four by (simp add: show_int_def a_def b_def c_def d_def)
  show "get_number 0 9999 4 (show_int y @ r) = Some (y, r)" using get_four_digits [OF l, of r] by (simp only: s append.simps y [symmetric])
  show "scan_space (show_int y @ r) = show_int y @ r" using digit_props [OF l(1)] by (simp add: s)
qed

lemma year_four:
  assumes "0 \<le> t" "t < 253402300800"
  shows "1000 \<le> tm_year (gmtime t)" "tm_year (gmtime t) < 10000"
proof -
  note g = gmtime_fields [OF assms(1)]
  show "tm_year (gmtime t) < 10000"
  proof (rule ccontr)
    assume "\<not> ?thesis"
    then have "days_before 10000 \<le> t div 86400" using days_before_mono [of 10000 "tm_year (gmtime t)"] g(6) by simp
    moreover have "days_before 10000 = 2932897" by (simp add: days_before_def)
    ultimately show False using assms(2) by linarith
  qed
  show "1000 \<le> tm_year (gmtime t)" using g(5) by simp
qed

lemma length_http_date:
  assumes "0 \<le> t" "t < 253402300800"
  shows "length (http_date t) = 29"
proof -
  note g = gmtime_fields [OF assms(1)]
  have "length (day_names ! tm_wday (gmtime t)) \<ge> 3" using names_short(1) g(7)
    unfolding list_all_iff [of _ "[0..<7]"] by (metis atLeast0LessThan lessThan_iff set_upt)
  moreover have "length (month_names ! tm_mon (gmtime t)) \<ge> 3" using names_short(2) g(2)
    unfolding list_all_iff [of _ "[0..<12]"] by (metis atLeast0LessThan lessThan_iff set_upt)
  moreover have "length (show_int (tm_year (gmtime t))) = 4"
    using show_nat_four [of "nat (tm_year (gmtime t))"] year_four [OF assms] by (simp add: show_int_def nat_less_iff)
  ultimately show ?thesis by (simp add: http_date_def Let_def two_def)
qed

text \<open>Writing a time between 1970 and 9999 as a date and reading it back gives the time.\<close>

lemma http_time_date:
  assumes "0 \<le> t" "t < 253402300800"
  shows "http_time (http_date t) = Some t"
proof -
  note g = gmtime_fields [OF assms(1)]
  let ?v = "gmtime t"
  note y = year_four [OF assms]
  have "strptime_http (http_date t) = Some ?v"
    unfolding http_date_def strptime_http_def Let_def using g y
    by (simp add: scan_day scan_month scan_char_def get_number_two isspace_two isspace_month get_year isspace_def)
  with g(1) show ?thesis by (simp add: http_time_def)
qed

end
