(* ===== verification/ProxyCache.thy ===== *)
theory ProxyCache
  imports ProxyText HttpDate
begin

text \<open>
  The caching decisions of the proxy (\<open>parseRequest\<close>, \<open>parseResponse\<close> and the header edits of \<open>forwardToServer\<close> in
  \<open>proxy server/myproxy.c\<close>): what a request asks for, what the cache holds, who answers, and which header
  goes to the server.
\<close>

section \<open>The cache and the request record\<close>

text \<open>A cached object: its bytes and its modification time. The map is indexed by path.\<close>

type_synonym cache = "string \<Rightarrow> (byte list \<times> int) option"

text \<open>The fields of \<open>struct request\<close>; \<open>lTime\<close> and \<open>file_c\<close> stay unset when unused.\<close>

record request =
  toServer :: bool
  extension :: bool
  status :: int
  modified :: int
  lTime :: "string option"
  file_c :: "string option"

record response =
  rp_cache :: bool
  object :: bool
  rp_status :: int

definition checkExtension :: "string \<Rightarrow> bool" where
  "checkExtension url \<longleftrightarrow> isItem url ''.html'' \<or> isItem url ''.jpg'' \<or> isItem url ''.gif'' \<or> isItem url ''.txt''"

definition checkFile :: "cache \<Rightarrow> string \<Rightarrow> bool" where
  "checkFile fs fname \<longleftrightarrow> fs fname \<noteq> None"

definition getIMT :: "cache \<Rightarrow> string \<Rightarrow> string run" where
  "getIMT fs path = (case fs path of None \<Rightarrow> halt (Exit 0) | Some (c, mtime) \<Rightarrow> ret (http_date mtime))"

text \<open>When \<open>strptime\<close> fails the fields of \<open>tm\<close> are not set.\<close>

definition compareIMS :: "cache \<Rightarrow> string \<Rightarrow> string \<Rightarrow> int run" where
  "compareIMS fs path requestIMS =
     (case fs path of None \<Rightarrow> halt (Exit 0)
      | Some (c, mtime) \<Rightarrow>
        (case http_time requestIMS of None \<Rightarrow> halt Uninitialised
         | Some t \<Rightarrow> ret (if t > mtime then 1 else if t < mtime then - 1 else 0)))"

text \<open>The file name of a URL: the 22 characters after the salt in the result of \<open>crypt_r\<close>.\<close>

definition cache_name :: "(string \<Rightarrow> string option) \<Rightarrow> string \<Rightarrow> string run" where
  "cache_name crypt url =
     (case crypt url of None \<Rightarrow> halt NullDeref
      | Some res \<Rightarrow>
        if length res > 28 then halt OutOfBounds
        else ret (map (\<lambda>c. if c = CHR ''/'' then CHR ''_'' else c) (drop 6 res)))"

section \<open>Reading a request\<close>

abbreviation IMS_item :: string where "IMS_item \<equiv> ''If-Modified-Since: ''"
abbreviation CC_item :: string where "CC_item \<equiv> ''Cache-Control: ''"

text \<open>A value read into an array that keeps what it held when the item has no value; \<open>None\<close> before anything
  was written.\<close>

definition read_value :: "string \<Rightarrow> string \<Rightarrow> string \<Rightarrow> string option \<Rightarrow> string option run" where
  "read_value msg a b old = andthen (getValue 1000 msg a b) (\<lambda>v. ret (case v of None \<Rightarrow> old | Some x \<Rightarrow> Some x))"

definition need :: "string option \<Rightarrow> string run" where
  "need v = (case v of None \<Rightarrow> halt Uninitialised | Some x \<Rightarrow> ret x)"

text \<open>The date of the request, if any, and the array \<open>value\<close> afterwards.\<close>

definition read_IMS :: "string \<Rightarrow> (string option \<times> string option) run" where
  "read_IMS msg =
     (if isItem msg (CRLF @ IMS_item) then
        andthen (read_value msg (CRLF @ IMS_item) CRLF None) (\<lambda>value.
        andthen (need value) (\<lambda>v. if length v < 50 then ret (Some v, value) else halt OutOfBounds))
      else ret (None, None))"

text \<open>Whether there is a \<open>Cache-Control\<close> and whether it says \<open>no-cache\<close>.\<close>

definition read_CC :: "string \<Rightarrow> string option \<Rightarrow> (bool \<times> bool \<times> string option) run" where
  "read_CC msg value =
     (if isItem msg (CRLF @ CC_item) then
        andthen (read_value msg (CRLF @ CC_item) CRLF value) (\<lambda>value.
        andthen (need value) (\<lambda>v. ret (True, isItem v ''no-cache'', value)))
      else ret (False, False, value))"

text \<open>The file name of a cacheable URL.\<close>

definition read_GET :: "(string \<Rightarrow> string option) \<Rightarrow> string \<Rightarrow> string option \<Rightarrow> string option run" where
  "read_GET crypt msg value =
     (if isItem msg ''GET '' then
        andthen (read_value msg ''GET '' '' '' value) (\<lambda>value.
        andthen (need value) (\<lambda>url.
        if checkExtension url then andthen (cache_name crypt url) (\<lambda>n. ret (Some n)) else ret None))
      else ret None)"

section \<open>The decision\<close>

text \<open>The triple is \<open>toServer\<close>, \<open>status\<close> and \<open>modified\<close>; \<open>result\<close> is what \<open>compareIMS\<close> returns.\<close>

definition decide_noIMS :: "bool \<Rightarrow> bool \<Rightarrow> bool \<Rightarrow> bool \<times> int \<times> int" where
  "decide_noIMS CT nocache fileExist =
     (if \<not> CT then (if fileExist then (False, 200, 0) else (True, - 1, 0))
      else if nocache then (if fileExist then (True, - 1, 1) else (True, - 1, 0))
      else (if fileExist then (False, 200, 0) else (True, - 1, 0)))"

definition decide_IMS :: "bool \<Rightarrow> bool \<Rightarrow> bool \<Rightarrow> int \<Rightarrow> bool \<times> int \<times> int" where
  "decide_IMS CT nocache fileExist result =
     (if \<not> CT then
        (if \<not> fileExist then (True, - 1, 0)
         else if result = 1 then (False, 304, 0)
         else if result = - 1 then (False, 200, 0)
         else (False, 304, 0))
      else if nocache then
        (if \<not> fileExist then (True, - 1, 0)
         else if result = 1 then (True, - 1, 0)
         else if result = - 1 then (True, - 1, - 1)
         else (True, - 1, 0))
      else
        (if \<not> fileExist then (True, - 1, 0)
         else if result = 1 then (False, 304, 0)
         else if result = - 1 then (False, 200, 0)
         else (False, 304, 0)))"

text \<open>The path that starts as \<open>cache/\<close>.\<close>

definition cache_path :: "string option \<Rightarrow> string" where
  "cache_path name = (case name of None \<Rightarrow> ''cache/'' | Some n \<Rightarrow> ''cache/'' @ n)"

definition parseRequest :: "(string \<Rightarrow> string option) \<Rightarrow> cache \<Rightarrow> string \<Rightarrow> int \<Rightarrow> request run" where
  "parseRequest crypt fs msg_in mile =
     (if mile \<noteq> 3 then ret \<lparr>toServer = True, extension = False, status = - 1, modified = 0, lTime = None, file_c = None\<rparr>
      else
        andthen (read_IMS msg_in) (\<lambda>(reqIMS, value).
        andthen (read_CC msg_in value) (\<lambda>(CT, nocache, value).
        andthen (read_GET crypt msg_in value) (\<lambda>name.
        let path = cache_path name;
            fileExist = (name \<noteq> None \<and> checkFile fs path) in
        andthen (if fileExist then andthen (getIMT fs path) (\<lambda>l. ret (Some l)) else ret None) (\<lambda>lt.
        andthen (case reqIMS of None \<Rightarrow> ret 0 | Some d \<Rightarrow> if fileExist then compareIMS fs path d else ret 0) (\<lambda>result.
        case (if name = None then (True, - 1, 0)
              else if reqIMS = None then decide_noIMS CT nocache fileExist
              else decide_IMS CT nocache fileExist result) of (ts, st, mo) \<Rightarrow>
        ret \<lparr>toServer = ts, extension = (name \<noteq> None), status = st, modified = mo, lTime = lt, file_c = name\<rparr>))))))"

section \<open>Reading a response\<close>

definition parseResponse :: "string \<Rightarrow> request \<Rightarrow> int \<Rightarrow> response run" where
  "parseResponse msg_in reInfo mile =
     (if mile \<noteq> 3 then ret \<lparr>rp_cache = False, object = True, rp_status = - 1\<rparr>
      else if \<not> toServer reInfo then halt Uninitialised
      else if isItem msg_in (''200 OK'' @ CRLF) then ret \<lparr>rp_cache = extension reInfo, object = True, rp_status = - 1\<rparr>
      else if isItem msg_in (''304 Not Modified'' @ CRLF) then
        (if modified reInfo = - 1 \<and> status reInfo = - 1 \<and> toServer reInfo
         then ret \<lparr>rp_cache = False, object = False, rp_status = 200\<rparr>
         else ret \<lparr>rp_cache = False, object = False, rp_status = - 1\<rparr>)
      else ret \<lparr>rp_cache = False, object = True, rp_status = - 1\<rparr>)"

section \<open>The header for the server\<close>

text \<open>Milestone 1 asks for no persistent connection; a cached object that must be validated lends its date.\<close>

definition close_headers :: "string \<Rightarrow> string run" where
  "close_headers msg_in =
     andthen (set_header msg_in ''Connection: '' ''close'') (\<lambda>msg. set_header msg ''Proxy-Connection: '' ''close'')"

definition revalidate :: "request \<Rightarrow> string \<Rightarrow> string run" where
  "revalidate rt msg_in =
     (if modified rt = 1 then
        (if \<not> isItem msg_in (CRLF @ IMS_item) then andthen (need (lTime rt)) (insertValue msg_in IMS_item) else ret msg_in)
      else if modified rt = - 1 then
        (if isItem msg_in (CRLF @ IMS_item) then andthen (need (lTime rt)) (modifyValue msg_in (CRLF @ IMS_item) CRLF) else ret msg_in)
      else ret msg_in)"

text \<open>The host and the port that the header names, in arrays of 200 and 10 characters; \<open>None\<close> without a
  \<open>Host\<close>. A getValue that fails leaves the array as it was.\<close>

definition into :: "nat \<Rightarrow> string \<Rightarrow> string \<Rightarrow> string \<Rightarrow> string option \<Rightarrow> string option run" where
  "into n msg a b old = andthen (getValue n msg a b) (\<lambda>v. ret (case v of None \<Rightarrow> old | Some x \<Rightarrow> Some x))"

definition host_port :: "string \<Rightarrow> (string \<times> string) option run" where
  "host_port msg_in =
     (if \<not> isItem msg_in (CRLF @ ''Host: '') then ret None
      else
        andthen (into 200 msg_in (CRLF @ ''Host: '') [CHR 0x0A] None) (\<lambda>domain.
        andthen (need domain) (\<lambda>d.
        if isItem d '': '' then
          andthen (into 10 d '': '' [CHR 0x0D] (Some ''80'')) (\<lambda>port.
          andthen (into 200 msg_in (CRLF @ ''Host: '') '': '' domain) (\<lambda>domain.
          andthen (need domain) (\<lambda>d. andthen (need port) (\<lambda>p. ret (Some (d, p))))))
        else
          andthen (into 200 msg_in (CRLF @ ''Host: '') CRLF domain) (\<lambda>domain.
          andthen (need domain) (\<lambda>d. ret (Some (d, ''80'')))))))"

text \<open>\<open>dns\<close> connects to a host and port in a state of the connections and gives a descriptor or -1. The result is the
  descriptor with the header sent to it.\<close>

definition forwardToServer :: "(string \<Rightarrow> string \<Rightarrow> 't \<Rightarrow> (int \<times> 't) run) \<Rightarrow> int \<Rightarrow> request \<Rightarrow> string \<Rightarrow> 't \<Rightarrow> ((int \<times> string) option \<times> 't) run" where
  "forwardToServer dns milestone rt msg_in t =
     andthen (host_port msg_in) (\<lambda>hp. case hp of None \<Rightarrow> ret (None, t)
      | Some (domain, port) \<Rightarrow>
        andthen (dns domain port t) (\<lambda>(server_sd, t).
        if server_sd = - 1 then ret (None, t)
        else
          andthen (if milestone = 1 then close_headers msg_in else ret msg_in) (\<lambda>msg.
          andthen (revalidate rt msg) (\<lambda>msg. ret (Some (server_sd, msg), t)))))"

end
