(* ===== verification/ProxyServers.thy ===== *)
theory ProxyServers
  imports Prelude
begin

text \<open>
  The connections of the proxy to servers (\<open>DNS\<close>, \<open>connectServer\<close>, \<open>readAvailable\<close>, \<open>client_close\<close> in
  \<open>proxy server/myproxy.c\<close>): every client thread has five slots for servers it may ask again.
\<close>

section \<open>The tables\<close>

record servers =
  ip :: "32 word"
  port :: "32 word"
  server_sd :: int

text \<open>The global arrays by client index, the answers of \<open>socket\<close> and \<open>connect\<close> to come, and the
  descriptors that were closed.\<close>

record stables =
  server_set :: "servers list list"
  server_avail :: "int list list"
  server_num :: "int list"
  answers_to_come :: "(int \<times> int) list"
  closed :: "int list"

definition S_SET_SIZE :: nat where "S_SET_SIZE = 5"

definition clients_MAX :: nat where "clients_MAX = 100"

definition aget2 :: "'a list list \<Rightarrow> int \<Rightarrow> nat \<Rightarrow> 'a run" where
  "aget2 xss i j = andthen (aget xss i) (\<lambda>xs. aget xs (int j))"

definition aset2 :: "'a list list \<Rightarrow> int \<Rightarrow> nat \<Rightarrow> 'a \<Rightarrow> 'a list list run" where
  "aset2 xss i j v = andthen (aget xss i) (\<lambda>xs. andthen (aset xs (int j) v) (aset xss i))"

section \<open>Connecting\<close>

definition connectServer :: "stables \<Rightarrow> int \<times> stables" where
  "connectServer t =
     (case answers_to_come t of
        [] \<Rightarrow> (- 1, t)
      | (fd, c) # as \<Rightarrow> (if fd = - 1 \<or> c = - 1 then - 1 else fd, t\<lparr>answers_to_come := as\<rparr>))"

text \<open>\<open>select\<close> gives its result and whether the socket is in the set.\<close>

definition readAvailable :: "(int \<Rightarrow> int \<times> bool) \<Rightarrow> int \<Rightarrow> int" where
  "readAvailable select sockfd = (case select sockfd of (r, isset) \<Rightarrow> if r = - 1 then 2 else if isset then 1 else 0)"

text \<open>The search for a connection to an address; a server that has something to say is taken to have closed.\<close>

function reuse_scan :: "(int \<Rightarrow> int \<times> bool) \<Rightarrow> int \<Rightarrow> 32 word \<Rightarrow> 32 word \<Rightarrow> nat \<Rightarrow> int \<Rightarrow> stables \<Rightarrow> (int option \<times> stables) run" where
  "reuse_scan select ci a p i count t =
     (if i < S_SET_SIZE then
        andthen (aget (server_num t) ci) (\<lambda>n.
        if \<not> count < n then ret (None, t)
        else
          andthen (aget2 (server_avail t) ci i) (\<lambda>av.
          if av = 1 then
            andthen (aget2 (server_set t) ci i) (\<lambda>sv.
            if ip sv = a \<and> port sv = p then
              (let e = readAvailable select (server_sd sv) in
               if e > 0 then
                 andthen (aset2 (server_avail t) ci i 0) (\<lambda>avs.
                 andthen (aset (server_num t) ci (n - 1)) (\<lambda>nums.
                 ret (None, t\<lparr>server_avail := avs, server_num := nums, closed := (if e \<noteq> 2 then closed t @ [server_sd sv] else closed t)\<rparr>)))
               else ret (Some (server_sd sv), t))
            else reuse_scan select ci a p (Suc i) (count + 1) t)
          else reuse_scan select ci a p (Suc i) count t))
      else ret (None, t))"
  by pat_completeness auto
termination
  by (relation "measure (\<lambda>(select, ci, a, p, i, count, t). S_SET_SIZE - i)") auto

declare reuse_scan.simps [simp del]

text \<open>A new connection goes into every free slot of the client, and the counter that goes up is that of the client
  with the index of the slot.\<close>

function store_loop :: "int \<Rightarrow> servers \<Rightarrow> nat \<Rightarrow> stables \<Rightarrow> stables run" where
  "store_loop ci sv i t =
     (if i < S_SET_SIZE then
        andthen (aget2 (server_avail t) ci i) (\<lambda>av.
        andthen
          (if av = 0 then
             andthen (aset2 (server_set t) ci i sv) (\<lambda>svs.
             andthen (aset2 (server_avail t) ci i 1) (\<lambda>avs.
             andthen (aget (server_num t) (int i)) (\<lambda>n.
             andthen (cint (n + 1)) (\<lambda>n.
             andthen (aset (server_num t) (int i) n) (\<lambda>nums.
             ret (t\<lparr>server_set := svs, server_avail := avs, server_num := nums\<rparr>))))))
           else ret t)
          (store_loop ci sv (Suc i)))
      else ret t)"
  by pat_completeness auto
termination
  by (relation "measure (\<lambda>(ci, sv, i, t). S_SET_SIZE - i)") auto

declare store_loop.simps [simp del]

fun addr_loop :: "int \<Rightarrow> (int \<Rightarrow> int \<times> bool) \<Rightarrow> int \<Rightarrow> (32 word \<times> 16 word) list \<Rightarrow> int option \<Rightarrow> stables \<Rightarrow> (int option \<times> stables) run" where
  "addr_loop milestone select ci [] sd t = ret (sd, t)"
| "addr_loop milestone select ci ((a, p) # results) sd t =
     andthen (if milestone > 1 then reuse_scan select ci a (ucast p) 0 0 t else ret (None, t)) (\<lambda>(found, t).
     case found of Some fd \<Rightarrow> ret (Some fd, t)
     | None \<Rightarrow>
       (case connectServer t of (fd, t) \<Rightarrow>
          if fd \<noteq> - 1 then
            andthen (if milestone > 1 then store_loop ci \<lparr>ip = a, port = ucast p, server_sd = fd\<rparr> 0 t else ret t) (\<lambda>t. ret (Some fd, t))
          else addr_loop milestone select ci results (Some fd) t))"

text \<open>\<open>getaddrinfo\<close> is a parameter: the addresses of a name and a port in host order, or a failure.\<close>

definition DNS ::
  "(string \<Rightarrow> string \<Rightarrow> (32 word \<times> 16 word) list option) \<Rightarrow> int \<Rightarrow> (int \<Rightarrow> int \<times> bool) \<Rightarrow> int \<Rightarrow> string \<Rightarrow> string \<Rightarrow> stables \<Rightarrow> (int \<times> stables) run" where
  "DNS getaddrinfo milestone select ci domain prt t =
     (case getaddrinfo domain prt of None \<Rightarrow> ret (- 1, t)
      | Some results \<Rightarrow>
        andthen (addr_loop milestone select ci results None t) (\<lambda>(sd, t). case sd of None \<Rightarrow> halt Uninitialised | Some fd \<Rightarrow> ret (fd, t)))"

section \<open>The end of a client\<close>

function close_scan :: "int \<Rightarrow> nat \<Rightarrow> int \<Rightarrow> stables \<Rightarrow> stables run" where
  "close_scan ci i count t =
     (if i < S_SET_SIZE then
        andthen (aget (server_num t) ci) (\<lambda>n.
        if \<not> count < n then ret t
        else
          andthen (aget2 (server_avail t) ci i) (\<lambda>av.
          if av = 1 then
            andthen (aget2 (server_set t) ci i) (\<lambda>sv.
            andthen (aset2 (server_avail t) ci i 0) (\<lambda>avs.
            close_scan ci (Suc i) (count + 1) (t\<lparr>server_avail := avs, closed := closed t @ [server_sd sv]\<rparr>)))
          else close_scan ci (Suc i) count t))
      else ret t)"
  by pat_completeness auto
termination
  by (relation "measure (\<lambda>(ci, i, count, t). S_SET_SIZE - i)") auto

declare close_scan.simps [simp del]

definition px_client_close :: "int \<Rightarrow> int \<Rightarrow> int \<Rightarrow> stables \<Rightarrow> stables run" where
  "px_client_close milestone ci sd t =
     andthen
       (if milestone > 1 then
          andthen (close_scan ci 0 0 t) (\<lambda>t.
          andthen (aset (server_num t) ci 0) (\<lambda>nums. ret (t\<lparr>server_num := nums\<rparr>)))
        else ret t)
       (\<lambda>t. ret (t\<lparr>closed := closed t @ [sd]\<rparr>))"

text \<open>The tables when the program starts, and what the client threads do to them.\<close>

definition tables_init :: "(int \<times> int) list \<Rightarrow> stables" where
  "tables_init as = \<lparr>server_set = replicate clients_MAX (replicate S_SET_SIZE \<lparr>ip = 0, port = 0, server_sd = 0\<rparr>),
     server_avail = replicate clients_MAX (replicate S_SET_SIZE 0), server_num = replicate clients_MAX 0,
     answers_to_come = as, closed = []\<rparr>"

inductive tables_step ::
  "(string \<Rightarrow> string \<Rightarrow> (32 word \<times> 16 word) list option) \<Rightarrow> int \<Rightarrow> (int \<Rightarrow> int \<times> bool) \<Rightarrow> stables \<Rightarrow> stables \<Rightarrow> bool"
  for getaddrinfo milestone select where
  lookup: "DNS getaddrinfo milestone select ci domain prt t = ret (sd, t') \<Longrightarrow> tables_step getaddrinfo milestone select t t'"
| leave: "px_client_close milestone ci sd t = ret t' \<Longrightarrow> tables_step getaddrinfo milestone select t t'"

section \<open>What holds of the tables\<close>

text \<open>The arrays have their sizes, no counter is negative, and the counters from 5 on stay 0: they are the
  counters of slots that do not exist.\<close>

definition sets_ok :: "stables \<Rightarrow> bool" where
  "sets_ok t \<longleftrightarrow> length (server_set t) = clients_MAX \<and> length (server_avail t) = clients_MAX \<and> length (server_num t) = clients_MAX \<and>
     (\<forall>i < clients_MAX. length (server_set t ! i) = S_SET_SIZE \<and> length (server_avail t ! i) = S_SET_SIZE \<and> 0 \<le> server_num t ! i \<and>
        (S_SET_SIZE \<le> i \<longrightarrow> server_num t ! i = 0))"

lemma sets_ok_init: "sets_ok (tables_init as)"
  by (simp add: sets_ok_def tables_init_def)

lemma aget2_ok: "i < length xss \<Longrightarrow> j < length (xss ! i) \<Longrightarrow> aget2 xss (int i) j = ret (xss ! i ! j)"
  by (simp add: aget2_def)

lemma aset2_ok: "i < length xss \<Longrightarrow> j < length (xss ! i) \<Longrightarrow> aset2 xss (int i) j v = ret (xss[i := (xss ! i)[j := v]])"
  by (simp add: aset2_def)

lemma aset2_ret: "aset2 xss i j v = ret yss \<longleftrightarrow> 0 \<le> i \<and> i < int (length xss) \<and> j < length (xss ! nat i) \<and> yss = xss[nat i := (xss ! nat i)[j := v]]"
  by (auto simp: aset2_def run_simps)

lemma sets_ok_avail:
  "sets_ok t \<Longrightarrow> aset2 (server_avail t) ci i v = ret avs \<Longrightarrow> sets_ok (t\<lparr>server_avail := avs\<rparr>)"
  by (auto simp: sets_ok_def aset2_ret nth_list_update)

lemma sets_ok_set:
  "sets_ok t \<Longrightarrow> aset2 (server_set t) ci i v = ret svs \<Longrightarrow> sets_ok (t\<lparr>server_set := svs\<rparr>)"
  by (auto simp: sets_ok_def aset2_ret nth_list_update)

lemma sets_ok_num:
  "sets_ok t \<Longrightarrow> aset (server_num t) i v = ret nums \<Longrightarrow> 0 \<le> v \<Longrightarrow> int S_SET_SIZE \<le> i \<longrightarrow> v = 0 \<Longrightarrow> sets_ok (t\<lparr>server_num := nums\<rparr>)"
  by (auto simp: sets_ok_def aset_ret nth_list_update)

lemma sets_ok_closed: "sets_ok (t\<lparr>closed := c\<rparr>) = sets_ok t" "sets_ok (t\<lparr>answers_to_come := as\<rparr>) = sets_ok t"
  by (simp_all add: sets_ok_def)

lemma late_count: "sets_ok t \<Longrightarrow> aget (server_num t) ci = ret n \<Longrightarrow> int S_SET_SIZE \<le> ci \<Longrightarrow> n = 0"
  by (auto simp: sets_ok_def aget_ret)

lemma reuse_scan_ok:
  "reuse_scan select ci a p i count t = ret (r, t') \<Longrightarrow> sets_ok t \<Longrightarrow> 0 \<le> count \<Longrightarrow>
    sets_ok t' \<and> answers_to_come t' = answers_to_come t \<and> (int S_SET_SIZE \<le> ci \<longrightarrow> r = None \<and> t' = t)"
proof (induction select ci a p i count t rule: reuse_scan.induct)
  case (1 select ci a p i count t)
  show ?case
  proof (cases "i < S_SET_SIZE")
    case False
    with "1.prems" show ?thesis by (subst (asm) reuse_scan.simps) auto
  next
    case True
    with "1.prems"(1) obtain n where n: "aget (server_num t) ci = ret n" by (subst (asm) reuse_scan.simps) auto
    show ?thesis
    proof (cases "count < n")
      case False
      with True n "1.prems" show ?thesis by (subst (asm) reuse_scan.simps) auto
    next
      case count: True
      then have early: "\<not> int S_SET_SIZE \<le> ci" using late_count [OF "1.prems"(2) n] "1.prems"(3) by auto
      from True n count "1.prems"(1) obtain av where av: "aget2 (server_avail t) ci i = ret av" by (subst (asm) reuse_scan.simps) auto
      show ?thesis
      proof (cases "av = 1")
        case False
        with True n count av "1.prems"(1) have "reuse_scan select ci a p (Suc i) count t = ret (r, t')" by (subst (asm) reuse_scan.simps) simp
        with "1.IH"(2) [of n av] True False count "1.prems"(2,3) show ?thesis by auto
      next
        case one: True
        from True n count av one "1.prems"(1) obtain sv where sv: "aget2 (server_set t) ci i = ret sv" by (subst (asm) reuse_scan.simps) auto
        show ?thesis
        proof (cases "ip sv = a \<and> port sv = p")
          case False
          with True n count av one sv "1.prems"(1) have "reuse_scan select ci a p (Suc i) (count + 1) t = ret (r, t')"
            by (subst (asm) reuse_scan.simps) auto
          with "1.IH"(1) [of n av sv] True one False count "1.prems"(2,3) show ?thesis by auto
        next
          case same: True
          show ?thesis
          proof (cases "readAvailable select (server_sd sv) > 0")
            case False
            with True n count av one sv same "1.prems" early show ?thesis by (subst (asm) reuse_scan.simps) (auto simp: Let_def)
          next
            case dead: True
            with True n count av one sv same "1.prems"(1) obtain avs nums cl where st: "aset2 (server_avail t) ci i 0 = ret avs"
              "aset (server_num t) ci (n - 1) = ret nums" "t' = t\<lparr>server_avail := avs, server_num := nums, closed := cl\<rparr>"
              by (subst (asm) reuse_scan.simps) (auto simp: Let_def)
            have "sets_ok (t\<lparr>server_avail := avs\<rparr>\<lparr>server_num := nums\<rparr>)"
              by (rule sets_ok_num [OF sets_ok_avail [OF "1.prems"(2) st(1)], of ci "n - 1"]) (use st(2) count early "1.prems"(3) in simp_all)
            with early st(3) show ?thesis by (simp add: sets_ok_def)
          qed
        qed
      qed
    qed
  qed
qed

lemma store_loop_ok:
  "store_loop ci sv i t = ret t' \<Longrightarrow> sets_ok t \<Longrightarrow> sets_ok t' \<and> answers_to_come t' = answers_to_come t \<and> closed t' = closed t"
proof (induction ci sv i t rule: store_loop.induct)
  case (1 ci sv i t)
  show ?case
  proof (cases "i < S_SET_SIZE")
    case False
    with "1.prems" show ?thesis by (subst (asm) store_loop.simps) auto
  next
    case True
    with "1.prems"(1) obtain av t1 where av: "aget2 (server_avail t) ci i = ret av" and
      rec: "store_loop ci sv (Suc i) t1 = ret t'" and
      t1: "av = 0 \<and> (\<exists>svs avs n nums. aset2 (server_set t) ci i sv = ret svs \<and> aset2 (server_avail t) ci i 1 = ret avs \<and>
          aget (server_num t) (int i) = ret n \<and> aset (server_num t) (int i) (n + 1) = ret nums \<and>
          t1 = t\<lparr>server_set := svs, server_avail := avs, server_num := nums\<rparr>) \<or> av \<noteq> 0 \<and> t1 = t"
      by (subst (asm) store_loop.simps) (auto simp: run_simps split: if_splits)
    have "sets_ok t1 \<and> answers_to_come t1 = answers_to_come t \<and> closed t1 = closed t"
      using t1
    proof (elim disjE conjE exE)
      fix svs avs n nums
      assume st: "aset2 (server_set t) ci i sv = ret svs" "aset2 (server_avail t) ci i 1 = ret avs" "aget (server_num t) (int i) = ret n"
        "aset (server_num t) (int i) (n + 1) = ret nums" "t1 = t\<lparr>server_set := svs, server_avail := avs, server_num := nums\<rparr>"
      have "0 \<le> n" using st(3) "1.prems"(2) by (auto simp: aget_ret sets_ok_def)
      have 1: "sets_ok (t\<lparr>server_set := svs\<rparr>\<lparr>server_avail := avs\<rparr>)"
        by (rule sets_ok_avail [OF sets_ok_set [OF "1.prems"(2) st(1)], of ci i 1]) (use st(2) in simp)
      have "sets_ok (t\<lparr>server_set := svs\<rparr>\<lparr>server_avail := avs\<rparr>\<lparr>server_num := nums\<rparr>)"
        by (rule sets_ok_num [OF 1, of "int i" "n + 1"]) (use st(4) True \<open>0 \<le> n\<close> in simp_all)
      then show ?thesis using st(5) by simp
    qed (use "1.prems"(2) in simp)
    moreover have "sets_ok t' \<and> answers_to_come t' = answers_to_come t1 \<and> closed t' = closed t1"
      using rec calculation True "1.IH" by blast
    ultimately show ?thesis by simp
  qed
qed

lemma close_scan_ok: "close_scan ci i count t = ret t' \<Longrightarrow> sets_ok t \<Longrightarrow> sets_ok t'"
proof (induction ci i count t rule: close_scan.induct)
  case (1 ci i count t)
  show ?case
  proof (cases "i < S_SET_SIZE")
    case False
    with "1.prems" show ?thesis by (subst (asm) close_scan.simps) auto
  next
    case True
    with "1.prems"(1) obtain n where n: "aget (server_num t) ci = ret n" by (subst (asm) close_scan.simps) auto
    show ?thesis
    proof (cases "count < n")
      case False
      with True n "1.prems" show ?thesis by (subst (asm) close_scan.simps) auto
    next
      case count: True
      with True n "1.prems"(1) obtain av where av: "aget2 (server_avail t) ci i = ret av" by (subst (asm) close_scan.simps) auto
      show ?thesis
      proof (cases "av = 1")
        case False
        with True n count av "1.prems"(1) have "close_scan ci (Suc i) count t = ret t'" by (subst (asm) close_scan.simps) simp
        with "1.IH"(2) [of n av] True False count "1.prems"(2) show ?thesis by auto
      next
        case one: True
        with True n count av "1.prems"(1) obtain sv avs where sv: "aget2 (server_set t) ci i = ret sv" and st: "aset2 (server_avail t) ci i 0 = ret avs"
          "close_scan ci (Suc i) (count + 1) (t\<lparr>server_avail := avs, closed := closed t @ [server_sd sv]\<rparr>) = ret t'"
          unfolding close_scan.simps [of ci i count t] by auto
        have "sets_ok (t\<lparr>server_avail := avs\<rparr>)" by (rule sets_ok_avail [OF "1.prems"(2) st(1)])
        then have "sets_ok (t\<lparr>server_avail := avs, closed := closed t @ [server_sd sv]\<rparr>)" by (simp add: sets_ok_def)
        with "1.IH"(1) [of n av sv avs] True one count st(2) sv show ?thesis by auto
      qed
    qed
  qed
qed

lemma connectServer_ok: "connectServer t = (fd, t') \<Longrightarrow> sets_ok t' = sets_ok t \<and> closed t' = closed t \<and> server_num t' = server_num t"
  by (auto simp: connectServer_def sets_ok_closed split: list.splits prod.splits if_splits)

lemma addr_loop_ok: "addr_loop milestone select ci results sd t = ret (sd', t') \<Longrightarrow> sets_ok t \<Longrightarrow> sets_ok t'"
proof (induction milestone select ci results sd t rule: addr_loop.induct)
  case (2 milestone select ci a p results sd t)
  from "2.prems"(1) obtain r t1 where r: "(if milestone > 1 then reuse_scan select ci a (ucast p) 0 0 t else ret (None, t)) = ret (r, t1)" by auto
  have t1: "sets_ok t1"
    using r reuse_scan_ok [of select ci a "ucast p" 0 0 t r t1] "2.prems"(2) by (auto split: if_splits)
  show ?case
  proof (cases r)
    case (Some fd)
    with r "2.prems"(1) t1 show ?thesis by simp
  next
    case None
    obtain fd t2 where c: "connectServer t1 = (fd, t2)" by (cases "connectServer t1")
    have t2: "sets_ok t2" using connectServer_ok [OF c] t1 by simp
    show ?thesis
    proof (cases "fd = - 1")
      case True
      with r None c "2.prems"(1) have "addr_loop milestone select ci results (Some fd) t2 = ret (sd', t')" by simp
      with "2.IH" None c [symmetric] True t2 show ?thesis by fastforce
    next
      case False
      with r None c "2.prems"(1) store_loop_ok [OF _ t2, of ci "\<lparr>ip = a, port = ucast p, server_sd = fd\<rparr>" 0] t2 show ?thesis
        by (auto split: if_splits)
    qed
  qed
qed simp

lemma sets_step: "tables_step getaddrinfo milestone select t t' \<Longrightarrow> sets_ok t \<Longrightarrow> sets_ok t'"
proof (induction rule: tables_step.induct)
  case (lookup ci domain prt t sd t')
  then show ?case using addr_loop_ok by (auto simp: DNS_def split: option.splits)
next
  case (leave ci sd t t')
  show ?case
  proof (cases "milestone > 1")
    case False
    with leave show ?thesis by (auto simp: px_client_close_def sets_ok_closed)
  next
    case True
    with leave(1) obtain t1 nums where st: "close_scan ci 0 0 t = ret t1" "aset (server_num t1) ci 0 = ret nums"
      "t' = t1\<lparr>server_num := nums\<rparr>\<lparr>closed := closed t1 @ [sd]\<rparr>" by (auto simp: px_client_close_def)
    have "sets_ok (t1\<lparr>server_num := nums\<rparr>)" by (rule sets_ok_num [OF close_scan_ok [OF st(1) leave(2)] st(2)]) simp_all
    then show ?thesis unfolding st(3) sets_ok_closed .
  qed
qed

interpretation connections: invariant_system "tables_step getaddrinfo milestone select" sets_ok for getaddrinfo milestone select
  by unfold_locales (rule sets_step)

section \<open>Clients that use their slots\<close>

lemma store_loop_total:
  assumes "sets_ok t" "\<forall>j. i \<le> j \<longrightarrow> j < S_SET_SIZE \<longrightarrow> server_num t ! j < int_max" "c < clients_MAX"
  shows "\<exists>t'. store_loop (int c) sv i t = ret t' \<and>
    (\<forall>j < S_SET_SIZE. server_set t' ! c ! j = (if i \<le> j \<and> server_avail t ! c ! j = 0 then sv else server_set t ! c ! j) \<and>
       server_avail t' ! c ! j = (if i \<le> j \<and> server_avail t ! c ! j = 0 then 1 else server_avail t ! c ! j) \<and>
       server_num t' ! j = server_num t ! j + (if i \<le> j \<and> server_avail t ! c ! j = 0 then 1 else 0)) \<and>
    (\<forall>d. d \<noteq> c \<longrightarrow> server_set t' ! d = server_set t ! d \<and> server_avail t' ! d = server_avail t ! d)"
  using assms(1,2)
proof (induction "S_SET_SIZE - i" arbitrary: i t)
  case 0
  then show ?case by (subst store_loop.simps) simp
next
  case (Suc k)
  then have i: "i < S_SET_SIZE" "i < clients_MAX" by (simp_all add: clients_MAX_def S_SET_SIZE_def)
  have L: "c < length (server_set t)" "c < length (server_avail t)" "i < length (server_set t ! c)" "i < length (server_avail t ! c)" "i < length (server_num t)"
    "0 \<le> server_num t ! i" "server_num t ! i < int_max" "length (server_set t ! c) = S_SET_SIZE" "length (server_avail t ! c) = S_SET_SIZE"
    "S_SET_SIZE \<le> length (server_num t)"
    using Suc.prems i assms(3) by (simp_all add: sets_ok_def clients_MAX_def S_SET_SIZE_def)
  let ?t1 = "t\<lparr>server_set := (server_set t)[c := (server_set t ! c)[i := sv]], server_avail := (server_avail t)[c := (server_avail t ! c)[i := 1]],
      server_num := (server_num t)[i := server_num t ! i + 1]\<rparr>"
  let ?t2 = "if server_avail t ! c ! i = 0 then ?t1 else t"
  have 1: "sets_ok (t\<lparr>server_set := (server_set t)[c := (server_set t ! c)[i := sv]]\<rparr>
      \<lparr>server_avail := (server_avail t)[c := (server_avail t ! c)[i := 1]]\<rparr>)"
    by (rule sets_ok_avail [OF sets_ok_set [OF Suc.prems(1)], of "int c" i sv _ "int c" i 1]) (use L in \<open>simp_all add: aset2_ok\<close>)
  have ok: "sets_ok ?t2"
    using sets_ok_num [OF 1, of "int i" "server_num t ! i + 1"] L(5,6) i(1) Suc.prems(1) by simp
  have step: "store_loop (int c) sv i t = store_loop (int c) sv (Suc i) ?t2"
    using L i by (subst store_loop.simps) (simp add: aget2_ok aset2_ok)
  have lt: "\<forall>j. Suc i \<le> j \<longrightarrow> j < S_SET_SIZE \<longrightarrow> server_num ?t2 ! j < int_max" using Suc.prems(2) by (auto simp: nth_list_update)
  have k: "k = S_SET_SIZE - Suc i" using Suc.hyps(2) by simp
  have E: "server_set ?t2 ! c ! j = (if j = i \<and> server_avail t ! c ! i = 0 then sv else server_set t ! c ! j)"
    "server_avail ?t2 ! c ! j = (if j = i \<and> server_avail t ! c ! i = 0 then 1 else server_avail t ! c ! j)"
    "server_num ?t2 ! j = server_num t ! j + (if j = i \<and> server_avail t ! c ! i = 0 then 1 else 0)" if "j < S_SET_SIZE" for j
    using L that by (auto simp: nth_list_update)
  have D: "server_set ?t2 ! d = server_set t ! d \<and> server_avail ?t2 ! d = server_avail t ! d" if "d \<noteq> c" for d using that by simp
  obtain t' where t': "store_loop (int c) sv (Suc i) ?t2 = ret t'"
    "\<forall>j < S_SET_SIZE. server_set t' ! c ! j = (if Suc i \<le> j \<and> server_avail ?t2 ! c ! j = 0 then sv else server_set ?t2 ! c ! j) \<and>
       server_avail t' ! c ! j = (if Suc i \<le> j \<and> server_avail ?t2 ! c ! j = 0 then 1 else server_avail ?t2 ! c ! j) \<and>
       server_num t' ! j = server_num ?t2 ! j + (if Suc i \<le> j \<and> server_avail ?t2 ! c ! j = 0 then 1 else 0)"
    "\<forall>d. d \<noteq> c \<longrightarrow> server_set t' ! d = server_set ?t2 ! d \<and> server_avail t' ! d = server_avail ?t2 ! d"
    using Suc.hyps(1) [OF k ok lt] by blast
  show ?case unfolding step
  proof (intro exI [of _ t'] conjI allI impI t'(1))
    fix j assume j: "j < S_SET_SIZE"
    note t'(2) [rule_format, OF j, unfolded E [OF j]]
    then show "server_set t' ! c ! j = (if i \<le> j \<and> server_avail t ! c ! j = 0 then sv else server_set t ! c ! j)"
      "server_avail t' ! c ! j = (if i \<le> j \<and> server_avail t ! c ! j = 0 then 1 else server_avail t ! c ! j)"
      "server_num t' ! j = server_num t ! j + (if i \<le> j \<and> server_avail t ! c ! j = 0 then 1 else 0)"
      by (auto simp: not_less_eq_eq le_less_Suc_eq)
  qed (use t'(3) D in auto)
qed

lemma reuse_scan_free:
  assumes "sets_ok t" "c < clients_MAX" "\<forall>j < S_SET_SIZE. server_avail t ! c ! j \<noteq> 1"
  shows "reuse_scan select (int c) a p i count t = ret (None, t)"
proof (induction "S_SET_SIZE - i" arbitrary: i)
  case 0
  then show ?case by (subst reuse_scan.simps) simp
next
  case (Suc k)
  then have i: "i < S_SET_SIZE" "k = S_SET_SIZE - Suc i" by simp_all
  have "aget2 (server_avail t) (int c) i = ret (server_avail t ! c ! i)" "aget (server_num t) (int c) = ret (server_num t ! c)"
    using assms i by (simp_all add: sets_ok_def aget2_ok)
  with i assms(3) Suc.hyps(1) [OF i(2)] show ?case by (subst reuse_scan.simps) simp
qed

lemma reuse_scan_first:
  assumes "sets_ok t" "c < clients_MAX" "server_avail t ! c ! 0 = 1" "server_set t ! c ! 0 = \<lparr>ip = a, port = p, server_sd = fd\<rparr>"
    and "0 < server_num t ! c" "select fd = (0, False)"
  shows "reuse_scan select (int c) a p 0 0 t = ret (Some fd, t)"
proof -
  have l: "c < length (server_avail t)" "c < length (server_set t)" "c < length (server_num t)" "0 < length (server_avail t ! c)" "0 < length (server_set t ! c)"
    using assms(1,2) by (simp_all add: sets_ok_def S_SET_SIZE_def)
  have "aget2 (server_avail t) (int c) 0 = ret 1" "aget2 (server_set t) (int c) 0 = ret \<lparr>ip = a, port = p, server_sd = fd\<rparr>"
    using aget2_ok [OF l(1,4)] aget2_ok [OF l(2,5)] assms(3,4) by simp_all
  then show ?thesis using l(3) assms(5,6) by (subst reuse_scan.simps) (simp add: S_SET_SIZE_def Let_def readAvailable_def)
qed

text \<open>A connection that is opened: none of the client's slots is searched with success.\<close>

lemma DNS_connects:
  assumes "sets_ok t" "c < clients_MAX" "\<forall>j < S_SET_SIZE. server_num t ! j < int_max" "1 < milestone"
    and "reuse_scan select (int c) a (ucast p) 0 0 t = ret (None, t)"
    and "getaddrinfo domain prt = Some ((a, p) # as)" "answers_to_come t = (fd, r) # cs" "fd \<noteq> - 1" "r \<noteq> - 1"
  shows "\<exists>t1. DNS getaddrinfo milestone select (int c) domain prt t = ret (fd, t1) \<and> sets_ok t1 \<and> answers_to_come t1 = cs \<and> closed t1 = closed t \<and>
    (\<forall>j < S_SET_SIZE. server_avail t ! c ! j = 0 \<longrightarrow> server_set t1 ! c ! j = \<lparr>ip = a, port = ucast p, server_sd = fd\<rparr> \<and> server_avail t1 ! c ! j = 1 \<and>
       server_num t1 ! j = server_num t ! j + 1) \<and>
    (\<forall>d. d \<noteq> c \<longrightarrow> server_set t1 ! d = server_set t ! d \<and> server_avail t1 ! d = server_avail t ! d)"
proof -
  let ?t = "t\<lparr>answers_to_come := cs\<rparr>" and ?sv = "\<lparr>ip = a, port = ucast p, server_sd = fd\<rparr>"
  have ok: "sets_ok ?t" "\<forall>j. 0 \<le> j \<longrightarrow> j < S_SET_SIZE \<longrightarrow> server_num ?t ! j < int_max" using assms(1,3) by (simp_all add: sets_ok_closed)
  from store_loop_total [OF this assms(2), of ?sv] obtain t1 where t1: "store_loop (int c) ?sv 0 ?t = ret t1"
    "\<forall>j < S_SET_SIZE. server_set t1 ! c ! j = (if 0 \<le> j \<and> server_avail ?t ! c ! j = 0 then ?sv else server_set ?t ! c ! j) \<and>
       server_avail t1 ! c ! j = (if 0 \<le> j \<and> server_avail ?t ! c ! j = 0 then 1 else server_avail ?t ! c ! j) \<and>
       server_num t1 ! j = server_num ?t ! j + (if 0 \<le> j \<and> server_avail ?t ! c ! j = 0 then 1 else 0)"
    "\<forall>d. d \<noteq> c \<longrightarrow> server_set t1 ! d = server_set ?t ! d \<and> server_avail t1 ! d = server_avail ?t ! d" by blast
  have "connectServer t = (fd, ?t)" using assms(7-9) by (simp add: connectServer_def)
  then have "DNS getaddrinfo milestone select (int c) domain prt t = ret (fd, t1)"
    using assms(4-6,8) t1(1) by (simp add: DNS_def)
  with store_loop_ok [OF t1(1) ok(1)] t1(2,3) show ?thesis by (intro exI [of _ t1]) simp
qed

lemma close_scan_full:
  assumes "sets_ok t" "c < clients_MAX" "\<forall>j < S_SET_SIZE. i \<le> j \<longrightarrow> server_avail t ! c ! j = 1 \<and> server_sd (server_set t ! c ! j) = fd"
  shows "\<exists>t'. close_scan (int c) i (int i) t = ret t' \<and> closed t' = closed t @ replicate (min S_SET_SIZE (nat (server_num t ! c)) - i) fd \<and>
    server_num t' = server_num t"
  using assms(1,3)
proof (induction "S_SET_SIZE - i" arbitrary: i t)
  case 0
  then show ?case by (subst close_scan.simps) simp
next
  case (Suc k)
  then have i: "i < S_SET_SIZE" "k = S_SET_SIZE - Suc i" by simp_all
  have L: "c < length (server_set t)" "c < length (server_avail t)" "i < length (server_set t ! c)" "i < length (server_avail t ! c)" "c < length (server_num t)"
    using Suc.prems i assms(2) by (simp_all add: sets_ok_def)
  let ?avs = "(server_avail t)[c := (server_avail t ! c)[i := 0]]"
  let ?t1 = "t\<lparr>server_avail := ?avs, closed := closed t @ [fd]\<rparr>"
  have G: "aget (server_num t) (int c) = ret (server_num t ! c)" "aget2 (server_avail t) (int c) i = ret 1"
    "aget2 (server_set t) (int c) i = ret (server_set t ! c ! i)" "aset2 (server_avail t) (int c) i 0 = ret ?avs"
    using L Suc.prems(2) i(1) by (simp_all add: aget2_ok aset2_ok)
  show ?case
  proof (cases "int i < server_num t ! c")
    case False
    with G(1) i(1) show ?thesis by (subst close_scan.simps) simp
  next
    case True
    have step: "close_scan (int c) i (int i) t = close_scan (int c) (Suc i) (int (Suc i)) ?t1"
      using G i(1) True Suc.prems(2) by (subst close_scan.simps) (simp add: add.commute)
    have "sets_ok (t\<lparr>server_avail := ?avs\<rparr>)" by (rule sets_ok_avail [OF Suc.prems(1) G(4)])
    then have ok: "sets_ok ?t1" by (simp add: sets_ok_def)
    have "\<forall>j < S_SET_SIZE. Suc i \<le> j \<longrightarrow> server_avail ?t1 ! c ! j = 1 \<and> server_sd (server_set ?t1 ! c ! j) = fd"
      using Suc.prems(2) L by simp
    from Suc.hyps(1) [OF i(2) ok this] obtain t' where t': "close_scan (int c) (Suc i) (int (Suc i)) ?t1 = ret t'"
      "closed t' = closed t @ fd # replicate (min S_SET_SIZE (nat (server_num t ! c)) - Suc i) fd" "server_num t' = server_num t" by auto
    have "min S_SET_SIZE (nat (server_num t ! c)) - i = Suc (min S_SET_SIZE (nat (server_num t ! c)) - Suc i)" using True i(1) by linarith
    then show ?thesis unfolding step using t' by simp
  qed
qed

lemma close_scan_total:
  assumes "sets_ok t" "c < clients_MAX"
  shows "\<exists>t'. close_scan (int c) i count t = ret t' \<and> answers_to_come t' = answers_to_come t \<and> server_num t' = server_num t"
  using assms(1)
proof (induction "S_SET_SIZE - i" arbitrary: i count t)
  case 0
  then show ?case by (subst close_scan.simps) simp
next
  case (Suc k)
  then have i: "i < S_SET_SIZE" "k = S_SET_SIZE - Suc i" by simp_all
  have L: "c < length (server_set t)" "c < length (server_avail t)" "i < length (server_set t ! c)" "i < length (server_avail t ! c)" "c < length (server_num t)"
    using Suc.prems i assms(2) by (simp_all add: sets_ok_def)
  let ?avs = "(server_avail t)[c := (server_avail t ! c)[i := 0]]"
  let ?t1 = "t\<lparr>server_avail := ?avs, closed := closed t @ [server_sd (server_set t ! c ! i)]\<rparr>"
  have "aset2 (server_avail t) (int c) i 0 = ret ?avs" using L by (simp add: aset2_ok)
  from sets_ok_avail [OF Suc.prems this] have ok: "sets_ok ?t1" by (simp add: sets_ok_def)
  have "close_scan (int c) i count t =
      (if count < server_num t ! c then
         if server_avail t ! c ! i = 1 then close_scan (int c) (Suc i) (count + 1) ?t1 else close_scan (int c) (Suc i) count t
       else ret t)"
    using L i(1) by (subst close_scan.simps) (simp add: aget2_ok aset2_ok)
  then show ?case using Suc.hyps(1) [OF i(2) ok, of "count + 1"] Suc.hyps(1) [OF i(2) Suc.prems, of count] by auto
qed

lemma client_close_total:
  assumes "sets_ok t" "c < clients_MAX"
  shows "\<exists>t'. px_client_close milestone (int c) sd t = ret t' \<and> answers_to_come t' = answers_to_come t"
proof -
  obtain t' where "close_scan (int c) 0 0 t = ret t'" "answers_to_come t' = answers_to_come t" "server_num t' = server_num t"
    using close_scan_total [OF assms] by blast
  moreover have "c < length (server_num t)" using assms by (simp add: sets_ok_def)
  ultimately show ?thesis by (simp add: px_client_close_def)
qed

section \<open>Properties\<close>

abbreviation fresh :: "stables \<Rightarrow> nat \<Rightarrow> bool" where
  "fresh t c \<equiv> \<forall>j < S_SET_SIZE. server_avail t ! c ! j = 0"

abbreviation countable_slots :: "stables \<Rightarrow> bool" where
  "countable_slots t \<equiv> \<forall>j < S_SET_SIZE. server_num t ! j < int_max - 1"

lemma fresh_init: "c < clients_MAX \<Longrightarrow> fresh (tables_init as) c" "countable_slots (tables_init as)"
  by (simp_all add: tables_init_def S_SET_SIZE_def clients_MAX_def)

text \<open>The first connection of a client whose slots are free.\<close>

lemma DNS_first:
  assumes "sets_ok t" "c < clients_MAX" "fresh t c" "countable_slots t" "1 < milestone"
    and "getaddrinfo domain prt = Some ((a, p) # as)" "answers_to_come t = (fd, r) # cs" "fd \<noteq> - 1" "r \<noteq> - 1"
  shows "\<exists>t1. DNS getaddrinfo milestone select (int c) domain prt t = ret (fd, t1) \<and> sets_ok t1 \<and> answers_to_come t1 = cs \<and> closed t1 = closed t \<and>
    (\<forall>j < S_SET_SIZE. server_set t1 ! c ! j = \<lparr>ip = a, port = ucast p, server_sd = fd\<rparr> \<and> server_avail t1 ! c ! j = 1 \<and> server_num t1 ! j = server_num t ! j + 1) \<and>
    (\<forall>d. d \<noteq> c \<longrightarrow> server_set t1 ! d = server_set t ! d \<and> server_avail t1 ! d = server_avail t ! d)"
proof -
  have "\<forall>j < S_SET_SIZE. server_avail t ! c ! j \<noteq> 1" "\<forall>j < S_SET_SIZE. server_num t ! j < int_max" using assms(3,4) by force+
  from DNS_connects [where getaddrinfo = getaddrinfo and select = select and a = a and p = p, OF assms(1,2) this(2) assms(5) reuse_scan_free [OF assms(1,2) this(1)] assms(6-9)] assms(3) show ?thesis by auto
qed

text \<open>Slots that are all taken by the connection to one server: a request to another server opens a connection and stores it nowhere.\<close>

lemma reuse_scan_other:
  assumes "sets_ok t" "c < clients_MAX" "\<forall>j < S_SET_SIZE. \<not> (ip (server_set t ! c ! j) = b \<and> port (server_set t ! c ! j) = q)"
  shows "reuse_scan select (int c) b q i count t = ret (None, t)"
proof (induction "S_SET_SIZE - i" arbitrary: i count)
  case 0
  then show ?case by (subst reuse_scan.simps) simp
next
  case (Suc k)
  then have i: "i < S_SET_SIZE" "k = S_SET_SIZE - Suc i" by simp_all
  have "aget2 (server_avail t) (int c) i = ret (server_avail t ! c ! i)" "aget2 (server_set t) (int c) i = ret (server_set t ! c ! i)"
    "aget (server_num t) (int c) = ret (server_num t ! c)"
    using assms(1,2) i by (simp_all add: sets_ok_def aget2_ok)
  moreover have "\<not> (ip (server_set t ! c ! i) = b \<and> port (server_set t ! c ! i) = q)" using assms(3) i(1) by blast
  ultimately show ?case using i(1) Suc.hyps(1) [OF i(2)] by (subst reuse_scan.simps) (simp only: andthen_simps if_True if_False cong: if_cong, simp)
qed

lemma store_loop_full:
  assumes "sets_ok t" "c < clients_MAX" "\<forall>j < S_SET_SIZE. server_avail t ! c ! j = 1"
  shows "store_loop (int c) sv i t = ret t"
proof (induction "S_SET_SIZE - i" arbitrary: i)
  case 0
  then show ?case by (subst store_loop.simps) simp
next
  case (Suc k)
  then have i: "i < S_SET_SIZE" "k = S_SET_SIZE - Suc i" by simp_all
  have "aget2 (server_avail t) (int c) i = ret (server_avail t ! c ! i)" using assms(1,2) i by (simp add: sets_ok_def aget2_ok)
  with i assms(3) Suc.hyps(1) [OF i(2)] show ?case by (subst store_loop.simps) simp
qed

lemma DNS_full:
  assumes "sets_ok t" "c < clients_MAX" "1 < milestone" "\<forall>j < S_SET_SIZE. server_avail t ! c ! j = 1"
    and "\<forall>j < S_SET_SIZE. \<not> (ip (server_set t ! c ! j) = b \<and> port (server_set t ! c ! j) = ucast q)"
    and "getaddrinfo domain prt = Some ((b, q) # bs)" "answers_to_come t = (fd, r) # cs" "fd \<noteq> - 1" "r \<noteq> - 1"
  shows "DNS getaddrinfo milestone select (int c) domain prt t = ret (fd, t\<lparr>answers_to_come := cs\<rparr>)"
proof -
  have "sets_ok (t\<lparr>answers_to_come := cs\<rparr>)" using assms(1) by (simp add: sets_ok_closed)
  then have "store_loop (int c) sv 0 (t\<lparr>answers_to_come := cs\<rparr>) = ret (t\<lparr>answers_to_come := cs\<rparr>)" for sv
    by (rule store_loop_full [OF _ assms(2)]) (use assms(4) in simp)
  moreover have "connectServer t = (fd, t\<lparr>answers_to_come := cs\<rparr>)" using assms(7-9) by (simp add: connectServer_def)
  ultimately show ?thesis
    using assms(3,6,8) reuse_scan_other [OF assms(1,2,5)] by (simp add: DNS_def)
qed

lemma ucast_port_inj: "(ucast p :: 32 word) = ucast (q :: 16 word) \<Longrightarrow> p = q"
proof -
  have small: "unat (w :: 16 word) < 2 ^ 32" for w by (rule less_le_trans [OF unsigned_less]) simp
  assume "(ucast p :: 32 word) = ucast q"
  then have "unat (ucast p :: 32 word) = unat (ucast q :: 32 word)" by simp
  then have "unat p = unat q" by (simp add: unsigned_ucast_eq take_bit_nat_eq_self [OF small])
  then show "p = q" by (rule unsigned_word_eqI)
qed

text \<open>C28: one of the first five clients whose slots are free connects to a server, and while that server is silent its requests to the
  same address go out on the same connection. The connection has taken all five slots, so no other server is ever kept: every request to
  another address opens one more connection, which no table remembers, and the first server is still the one that is found.\<close>

theorem only_first_server_reused:
  assumes "(tables_step getaddrinfo milestone select)\<^sup>*\<^sup>* (tables_init start) t" "c < S_SET_SIZE" "fresh t c" "countable_slots t" "1 < milestone"
    and "getaddrinfo domain prt = Some ((a, p) # as)" "getaddrinfo other_domain other_prt = Some ((b, q) # bs)" "(b, q) \<noteq> (a, p)"
    and "answers_to_come t = (fd, r) # (fd', r') # (fd'', r'') # cs" "- 1 \<notin> set [fd, r, fd', r', fd'', r'']" "select fd = (0, False)"
  shows "\<exists>t1. DNS getaddrinfo milestone select (int c) domain prt t = ret (fd, t1) \<and>
    DNS getaddrinfo milestone select (int c) domain prt t1 = ret (fd, t1) \<and>
    DNS getaddrinfo milestone select (int c) other_domain other_prt t1 = ret (fd', t1\<lparr>answers_to_come := (fd'', r'') # cs\<rparr>) \<and>
    DNS getaddrinfo milestone select (int c) other_domain other_prt (t1\<lparr>answers_to_come := (fd'', r'') # cs\<rparr>) = ret (fd'', t1\<lparr>answers_to_come := cs\<rparr>) \<and>
    DNS getaddrinfo milestone select (int c) domain prt (t1\<lparr>answers_to_come := cs\<rparr>) = ret (fd, t1\<lparr>answers_to_come := cs\<rparr>)"
proof -
  have ok: "sets_ok t" and c: "c < clients_MAX" using connections.reach_inv [OF assms(1) sets_ok_init] assms(2) by (simp_all add: S_SET_SIZE_def clients_MAX_def)
  have nn: "fd \<noteq> - 1" "r \<noteq> - 1" "fd' \<noteq> - 1" "r' \<noteq> - 1" "fd'' \<noteq> - 1" "r'' \<noteq> - 1" using assms(10) by simp_all
  from DNS_first [where getaddrinfo = getaddrinfo and select = select, OF ok c assms(3-6,9) nn(1,2)] obtain t1
    where t1: "DNS getaddrinfo milestone select (int c) domain prt t = ret (fd, t1)" "sets_ok t1" "answers_to_come t1 = (fd', r') # (fd'', r'') # cs"
      "\<forall>j < S_SET_SIZE. server_set t1 ! c ! j = \<lparr>ip = a, port = ucast p, server_sd = fd\<rparr> \<and> server_avail t1 ! c ! j = 1 \<and>
        server_num t1 ! j = server_num t ! j + 1" by blast
  have n: "0 < server_num t1 ! c" using ok c t1(4) assms(2) by (auto simp: sets_ok_def)
  have same: "DNS getaddrinfo milestone select (int c) domain prt (t1\<lparr>answers_to_come := x\<rparr>) = ret (fd, t1\<lparr>answers_to_come := x\<rparr>)" for x
    using reuse_scan_first [of "t1\<lparr>answers_to_come := x\<rparr>" c a "ucast p" fd select] t1(2,4) n assms(5,6,11) c
    by (simp add: DNS_def sets_ok_closed S_SET_SIZE_def)
  have other: "DNS getaddrinfo milestone select (int c) other_domain other_prt (t1\<lparr>answers_to_come := (g, w) # x\<rparr>) = ret (g, t1\<lparr>answers_to_come := x\<rparr>)"
    if "g \<noteq> - 1" "w \<noteq> - 1" for g w x
    using DNS_full [of "t1\<lparr>answers_to_come := (g, w) # x\<rparr>" c milestone b q getaddrinfo other_domain other_prt bs g w x] t1(2,4) c assms(5,7,8) that
      ucast_port_inj [of p q] by (simp add: sets_ok_closed) blast
  have u: "t1\<lparr>answers_to_come := (fd', r') # (fd'', r'') # cs\<rparr> = t1" using t1(3) by simp
  show ?thesis
    using t1(1) same [of "(fd', r') # (fd'', r'') # cs", unfolded u] same [of cs] other [OF nn(3,4), of "(fd'', r'') # cs", unfolded u]
      other [OF nn(5,6), of cs] by blast
qed

theorem only_first_server_reused_witness:
  "\<exists>t1. DNS (\<lambda>d p. Some [(if d = ''h'' then 1 else 2, 80)]) 3 (\<lambda>sd. (0, False)) (int 2) ''h'' ''80'' (tables_init [(7, 0), (8, 0), (9, 0)]) = ret (7, t1) \<and>
     DNS (\<lambda>d p. Some [(if d = ''h'' then 1 else 2, 80)]) 3 (\<lambda>sd. (0, False)) (int 2) ''h'' ''80'' t1 = ret (7, t1) \<and>
     DNS (\<lambda>d p. Some [(if d = ''h'' then 1 else 2, 80)]) 3 (\<lambda>sd. (0, False)) (int 2) ''g'' ''80'' t1 = ret (8, t1\<lparr>answers_to_come := [(9, 0)]\<rparr>) \<and>
     DNS (\<lambda>d p. Some [(if d = ''h'' then 1 else 2, 80)]) 3 (\<lambda>sd. (0, False)) (int 2) ''g'' ''80'' (t1\<lparr>answers_to_come := [(9, 0)]\<rparr>)
       = ret (9, t1\<lparr>answers_to_come := []\<rparr>) \<and>
     DNS (\<lambda>d p. Some [(if d = ''h'' then 1 else 2, 80)]) 3 (\<lambda>sd. (0, False)) (int 2) ''h'' ''80'' (t1\<lparr>answers_to_come := []\<rparr>)
       = ret (7, t1\<lparr>answers_to_come := []\<rparr>)"
  by (rule only_first_server_reused [OF rtranclp.rtrancl_refl _ fresh_init(1) fresh_init(2), where fd = 7 and r = 0 and fd' = 8 and r' = 0 and fd'' = 9 and r'' = 0 and a = 1 and p = 80 and b = 2 and q = 80])
    (simp_all add: tables_init_def clients_MAX_def S_SET_SIZE_def)

text \<open>C29: The client threads with an index from 5 on never use a connection again and never close one: whatever happened
  before, such a client opens a new connection for every request, and when it leaves only its own socket is
  closed.\<close>

theorem late_clients_leak:
  assumes "(tables_step getaddrinfo milestone select)\<^sup>*\<^sup>* (tables_init start) t" "S_SET_SIZE \<le> c" "c < clients_MAX" "countable_slots t" "1 < milestone"
    and "getaddrinfo domain prt = Some ((a, p) # as)" "answers_to_come t = (fd, r) # cs" "fd \<noteq> - 1" "r \<noteq> - 1"
  shows "(\<exists>t1. DNS getaddrinfo milestone select (int c) domain prt t = ret (fd, t1) \<and> answers_to_come t1 = cs \<and> closed t1 = closed t) \<and>
    px_client_close milestone (int c) sd t = ret (t\<lparr>closed := closed t @ [sd]\<rparr>)"
proof -
  have ok: "sets_ok t" using connections.reach_inv [OF assms(1) sets_ok_init] .
  then have n: "server_num t ! c = 0" "c < length (server_num t)" using assms(2,3) by (simp_all add: sets_ok_def)
  then have "reuse_scan select (int c) a (ucast p) 0 0 t = ret (None, t)" by (subst reuse_scan.simps) (simp add: S_SET_SIZE_def)
  moreover have "\<forall>j < S_SET_SIZE. server_num t ! j < int_max" using assms(4) by force
  ultimately have "\<exists>t1. DNS getaddrinfo milestone select (int c) domain prt t = ret (fd, t1) \<and> answers_to_come t1 = cs \<and> closed t1 = closed t"
    using DNS_connects [where getaddrinfo = getaddrinfo and select = select and a = a and p = p, OF ok assms(3) _ assms(5) _ assms(6-9)] by blast
  moreover have "close_scan (int c) 0 0 t = ret t" using n by (subst close_scan.simps) (simp add: S_SET_SIZE_def)
  moreover have "(server_num t)[c := 0] = server_num t" using n by (metis list_update_id)
  ultimately show ?thesis using n(2) assms(5) by (simp add: px_client_close_def)
qed

theorem late_clients_leak_witness:
  "px_client_close 3 (int 7) 4 (tables_init [(7, 0)]) = ret ((tables_init [(7, 0)])\<lparr>closed := [4]\<rparr>)"
proof -
  have "(\<exists>t1. DNS (\<lambda>d p. Some [(1, 80)]) 3 (\<lambda>sd. (0, False)) (int 7) ''h'' ''80'' (tables_init [(7, 0)]) = ret (7, t1) \<and> answers_to_come t1 = [] \<and>
      closed t1 = closed (tables_init [(7, 0)])) \<and>
    px_client_close 3 (int 7) 4 (tables_init [(7, 0)]) = ret ((tables_init [(7, 0)])\<lparr>closed := closed (tables_init [(7, 0)]) @ [4]\<rparr>)"
    by (rule late_clients_leak [OF rtranclp.rtrancl_refl _ _ fresh_init(2), where r = 0 and a = 1 and p = 80])
      (simp_all add: tables_init_def clients_MAX_def S_SET_SIZE_def)
  then show ?thesis by (simp add: tables_init_def)
qed

text \<open>The first connection of a client fills all its slots and counts for the clients 0 to 4; when two of these have
  connected and the first one leaves, its descriptor is closed twice or more.\<close>

theorem server_closed_twice:
  assumes "(tables_step getaddrinfo milestone select)\<^sup>*\<^sup>* (tables_init start) t" "c < S_SET_SIZE" "d < S_SET_SIZE" "c \<noteq> d" "fresh t c" "fresh t d"
    and "countable_slots t" "1 < milestone" "getaddrinfo domain prt = Some ((a, p) # as)"
    and "answers_to_come t = (fd, r) # (fd', r') # cs" "fd \<noteq> - 1" "r \<noteq> - 1" "fd' \<noteq> - 1" "r' \<noteq> - 1"
    and "\<forall>j < S_SET_SIZE. server_num t ! j < int_max - 2"
  shows "\<exists>t1 t2 t3 k. DNS getaddrinfo milestone select (int c) domain prt t = ret (fd, t1) \<and>
    DNS getaddrinfo milestone select (int d) domain prt t1 = ret (fd', t2) \<and>
    px_client_close milestone (int c) sd t2 = ret t3 \<and> closed t3 = closed t @ replicate k fd @ [sd] \<and> 2 \<le> k"
proof -
  have ok: "sets_ok t" and c: "c < clients_MAX" "d < clients_MAX"
    using connections.reach_inv [OF assms(1) sets_ok_init] assms(2,3) by (simp_all add: S_SET_SIZE_def clients_MAX_def)
  from DNS_first [where getaddrinfo = getaddrinfo and select = select, OF ok c(1) assms(5,7-12)] obtain t1 where t1: "DNS getaddrinfo milestone select (int c) domain prt t = ret (fd, t1)" "sets_ok t1"
    "answers_to_come t1 = (fd', r') # cs" "closed t1 = closed t"
    "\<forall>j < S_SET_SIZE. server_set t1 ! c ! j = \<lparr>ip = a, port = ucast p, server_sd = fd\<rparr> \<and> server_avail t1 ! c ! j = 1 \<and> server_num t1 ! j = server_num t ! j + 1"
    "\<forall>e. e \<noteq> c \<longrightarrow> server_set t1 ! e = server_set t ! e \<and> server_avail t1 ! e = server_avail t ! e" by blast
  have pre: "fresh t1 d" "countable_slots t1" using assms(4,6,15) t1(5,6) by auto
  from DNS_first [where getaddrinfo = getaddrinfo and select = select, OF t1(2) c(2) pre assms(8,9) t1(3) assms(13,14)] obtain t2 where t2: "DNS getaddrinfo milestone select (int d) domain prt t1 = ret (fd', t2)"
    "sets_ok t2" "closed t2 = closed t1" "\<forall>j < S_SET_SIZE. server_num t2 ! j = server_num t1 ! j + 1"
    "\<forall>e. e \<noteq> d \<longrightarrow> server_set t2 ! e = server_set t1 ! e \<and> server_avail t2 ! e = server_avail t1 ! e" by blast
  have "\<forall>j < S_SET_SIZE. 0 \<le> j \<longrightarrow> server_avail t2 ! c ! j = 1 \<and> server_sd (server_set t2 ! c ! j) = fd" using t1(5) t2(5) assms(4) by simp
  from close_scan_full [OF t2(2) c(1) this] obtain t' where t': "close_scan (int c) 0 0 t2 = ret t'"
    "closed t' = closed t @ replicate (min S_SET_SIZE (nat (server_num t2 ! c))) fd" "server_num t' = server_num t2" using t1(4) t2(3) by auto
  have "0 \<le> server_num t ! c" using ok c by (simp add: sets_ok_def)
  then have "2 \<le> min S_SET_SIZE (nat (server_num t2 ! c))" using t1(5) t2(4) assms(2) by (simp add: S_SET_SIZE_def)
  moreover have "c < length (server_num t')" using t'(3) t2(2) c by (simp add: sets_ok_def)
  ultimately show ?thesis using t1(1) t2(1) t' assms(8) by (simp add: px_client_close_def)
qed

theorem server_closed_twice_witness:
  "\<exists>t1 t2 t3 k. DNS (\<lambda>d p. Some [(1, 80)]) 3 (\<lambda>sd. (0, False)) (int 0) ''h'' ''80'' (tables_init [(7, 0), (8, 0)]) = ret (7, t1) \<and>
    DNS (\<lambda>d p. Some [(1, 80)]) 3 (\<lambda>sd. (0, False)) (int 1) ''h'' ''80'' t1 = ret (8, t2) \<and>
    px_client_close 3 (int 0) 4 t2 = ret t3 \<and> closed t3 = closed (tables_init [(7, 0), (8, 0)]) @ replicate k 7 @ [4] \<and> 2 \<le> k"
  by (rule server_closed_twice [OF rtranclp.rtrancl_refl _ _ _ fresh_init(1) fresh_init(1) fresh_init(2), where r = 0 and r' = 0 and a = 1 and p = 80])
    (simp_all add: tables_init_def clients_MAX_def S_SET_SIZE_def)

end
