(* ===== verification/ProxyIO.thy ===== *)
theory ProxyIO
  imports ProxyCache ProxyServers Streams
begin

text \<open>
  The proxy's transport (\<open>proxy server/myproxy.c\<close>): headers and objects move between the sockets of a browser and
  a server and the files of the cache.
\<close>

section \<open>The state of a client thread\<close>

text \<open>
  The sockets by descriptor, the client with its index, the connections to servers, the files, the array \<open>buf\<close>, the
  mutex of the directory and the clock. A thread that locks a mutex nobody will unlock does not return.
\<close>

record pstate =
  socks :: "int \<Rightarrow> conn"
  client_sd :: int
  client_index :: int
  tables :: stables
  pfiles :: cache
  pbuf :: "byte list"
  plocked :: bool
  clock :: int

definition THROUGHPUT :: nat where "THROUGHPUT = 1000"

definition lock :: "pstate \<Rightarrow> pstate run" where
  "lock s = (if plocked s then None else ret (s\<lparr>plocked := True\<rparr>))"

definition unlock :: "pstate \<Rightarrow> pstate" where
  "unlock s = s\<lparr>plocked := False\<rparr>"

definition put_conn :: "int \<Rightarrow> conn \<Rightarrow> pstate \<Rightarrow> pstate" where
  "put_conn sd c s = s\<lparr>socks := (socks s)(sd := c)\<rparr>"

text \<open>The C string in a buffer and the bytes of one.\<close>

definition cstring :: "byte list \<Rightarrow> string" where
  "cstring bs = map (\<lambda>b. char_of (unat b)) (cstr bs)"

section \<open>Headers\<close>

function msg_loop :: "byte list \<Rightarrow> conn \<Rightarrow> (bool \<times> byte list \<times> conn) run" where
  "msg_loop got c =
     (if length got < HEADER_MAX \<and> \<not> isItem (cstring got) (CRLF @ CRLF) then
        (case conn_recv (HEADER_MAX - length got) c of (len, bs, c') \<Rightarrow>
           if len < 0 then halt (Exit 0)
           else if len = 0 then ret (False, got, c')
           else msg_loop (got @ bs) c')
      else ret (True, got, c))"
  by pat_completeness auto
termination
  by (relation "measure (\<lambda>(got, c). HEADER_MAX - length got)")
    (auto simp: conn_recv_def intro!: diff_less_mono2 split: list.splits rx.splits if_splits)

declare msg_loop.simps [simp del]

text \<open>The result is \<open>leading\<close>, the header in \<open>msg_in\<close>, and \<open>buf\<close>, of which only the first eight bytes are
  cleared. A header that fills \<open>msg_in\<close> is ended behind the array.\<close>

definition msgReceiver :: "int \<Rightarrow> int \<Rightarrow> pstate \<Rightarrow> (int \<times> string \<times> pstate) run" where
  "msgReceiver milestone sd s =
     andthen (msg_loop [] (socks s sd)) (\<lambda>(ok, got, c).
     let s = put_conn sd c s in
     if \<not> ok then ret (if milestone > 1 then - 2 else - 1, cstring got, s)
     else
       andthen (blit (pbuf s) 0 (replicate 8 0)) (\<lambda>buf.
       case strstr (cstring got) (CRLF @ CRLF) of
         None \<Rightarrow> if 0 \<in> set got then halt (Exit 0) else halt OutOfBounds
       | Some sub \<Rightarrow>
           let n = length (cstring got) - length sub + 4 in
           andthen (blit buf 0 (drop n got)) (\<lambda>buf.
           if n \<ge> HEADER_MAX then halt OutOfBounds
           else ret (int (length got - n), take n (cstring got), s\<lparr>pbuf := buf\<rparr>))))"

text \<open>Both senders give up quietly when the peer has closed (\<open>EPIPE\<close>).\<close>

function proxy_send :: "byte list \<Rightarrow> conn \<Rightarrow> conn run" where
  "proxy_send bs c =
     (if bs = [] then ret c
      else (case conn_send bs c of (len, c', err) \<Rightarrow>
        if len < 0 then (if err = 32 then ret c' else halt (Exit 0))
        else if len = 0 then ret c'
        else proxy_send (drop (nat len) bs) c'))"
  by pat_completeness auto
termination
  by (relation "measure (\<lambda>(bs, c). length bs)") auto

declare proxy_send.simps [simp del]

definition msgSender :: "int \<Rightarrow> string \<Rightarrow> pstate \<Rightarrow> pstate run" where
  "msgSender sd msg_out s = andthen (proxy_send (str_bytes msg_out) (socks s sd)) (\<lambda>c. ret (put_conn sd c s))"

section \<open>Blocks of data\<close>

function data_loop :: "int \<Rightarrow> nat \<Rightarrow> byte list \<Rightarrow> conn \<Rightarrow> (byte list \<times> conn) run" where
  "data_loop sz got buf c =
     (if int got < sz then
        (case conn_recv (nat sz - got) c of (len, bs, c') \<Rightarrow>
           if len < 0 then halt (Exit 0)
           else if len = 0 then ret (buf, c')
           else andthen (blit buf got bs) (\<lambda>buf. data_loop sz (got + nat len) buf c'))
      else ret (buf, c))"
  by pat_completeness auto
termination
  by (relation "measure (\<lambda>(sz, got, buf, c). nat sz - got)") auto

declare data_loop.simps [simp del]

definition dataReceiver :: "int \<Rightarrow> int \<Rightarrow> pstate \<Rightarrow> pstate run" where
  "dataReceiver sd contentlength s =
     andthen (data_loop contentlength 0 (pbuf s) (socks s sd)) (\<lambda>(buf, c). ret (put_conn sd c s\<lparr>pbuf := buf\<rparr>))"

definition dataSender :: "int \<Rightarrow> int \<Rightarrow> pstate \<Rightarrow> pstate run" where
  "dataSender sd sz s =
     (if sz \<le> 0 then ret s
      else andthen (slice (pbuf s) 0 (nat sz)) (\<lambda>bs. andthen (proxy_send bs (socks s sd)) (\<lambda>c. ret (put_conn sd c s))))"

section \<open>Files\<close>

text \<open>\<open>px_data_out\<close> reads at a position and then ends the string behind the \<open>size\<close> bytes it was asked for;
  \<open>px_data_in\<close> writes at a position and stamps the file.\<close>

definition px_data_out :: "byte list \<Rightarrow> nat \<Rightarrow> int \<Rightarrow> byte list \<Rightarrow> byte list run" where
  "px_data_out content pos sz buf =
     andthen (blit buf 0 (take (nat sz) (drop pos content))) (\<lambda>buf. aset buf sz 0)"

definition px_write_file :: "string \<Rightarrow> nat \<Rightarrow> byte list \<Rightarrow> int \<Rightarrow> cache \<Rightarrow> cache" where
  "px_write_file path pos bs t fs =
     (let old = (case fs path of None \<Rightarrow> [] | Some (c, m) \<Rightarrow> c) in
      fs(path \<mapsto> (take pos old @ replicate (pos - length old) 0 @ bs @ drop (pos + length bs) old, t)))"

definition px_data_in :: "string \<Rightarrow> nat \<Rightarrow> int \<Rightarrow> pstate \<Rightarrow> (nat \<times> pstate) run" where
  "px_data_in path pos sz s =
     (if sz < 0 then halt OutOfBounds
      else andthen (slice (pbuf s) 0 (nat sz)) (\<lambda>bs.
        ret (pos + length bs, s\<lparr>pfiles := (if bs = [] then pfiles s else px_write_file path pos bs (clock s) (pfiles s))\<rparr>)))"

text \<open>\<open>open\<close> with \<open>O_CREAT\<close> and without \<open>O_TRUNC\<close>.\<close>

definition open_create :: "string \<Rightarrow> pstate \<Rightarrow> pstate" where
  "open_create path s = (if pfiles s path = None then s\<lparr>pfiles := (pfiles s)(path \<mapsto> ([], clock s))\<rparr> else s)"

definition set_mtime :: "string \<Rightarrow> int \<Rightarrow> pstate \<Rightarrow> pstate run" where
  "set_mtime path t s = (case pfiles s path of None \<Rightarrow> halt (Exit 0) | Some (c, m) \<Rightarrow> ret (s\<lparr>pfiles := (pfiles s)(path \<mapsto> (c, t))\<rparr>))"

definition header_path :: "string option \<Rightarrow> string run" where
  "header_path f = andthen (need f) (\<lambda>n. ret (''header/'' @ n @ ''.tmp''))"

section \<open>Answers from the cache\<close>

function out_loop :: "byte list \<Rightarrow> int \<Rightarrow> nat \<Rightarrow> pstate \<Rightarrow> (int \<times> nat \<times> pstate) run" where
  "out_loop content count pos s =
     (if count > 0 then
        andthen (px_data_out content pos 1000 (pbuf s)) (\<lambda>buf.
        andthen (dataSender (client_sd s) 1000 (s\<lparr>pbuf := buf\<rparr>)) (\<lambda>s.
        out_loop content (count - 1000) (pos + 1000) s))
      else ret (count, pos, s))"
  by pat_completeness auto
termination
  by (relation "measure (\<lambda>(content, count, pos, s). nat count)") auto

declare out_loop.simps [simp del]

definition cache_out :: "string option \<Rightarrow> pstate \<Rightarrow> pstate run" where
  "cache_out f s =
     andthen (need f) (\<lambda>n.
     case pfiles s (cache_path (Some n)) of None \<Rightarrow> halt (Exit 0)
     | Some (content, mtime) \<Rightarrow>
       andthen (lock s) (\<lambda>s.
       andthen
         (if content = [] then ret s
          else
            andthen (out_loop content (int (length content) - 1000) 0 s) (\<lambda>(count, pos, s).
            let count = count + 1000 in
            andthen (px_data_out content pos count (pbuf s)) (\<lambda>buf. dataSender (client_sd s) count (s\<lparr>pbuf := buf\<rparr>))))
         (\<lambda>s. ret (unlock s))))"

text \<open>The header of an answer from the cache, from the header stored with the object or made up.\<close>

definition msgGenerator :: "string \<Rightarrow> int \<Rightarrow> pstate \<Rightarrow> (string \<times> pstate) run" where
  "msgGenerator path code s =
     (if code = 200 then
        andthen (lock s) (\<lambda>s.
        case pfiles s path of None \<Rightarrow> halt (Exit 0)
        | Some (content, mtime) \<Rightarrow>
          if length content \<ge> HEADER_MAX then halt OutOfBounds
          else let msg = cstring (content @ [0]) in
            andthen (if isItem msg (CRLF @ ''Date: '') then modifyValue msg (CRLF @ ''Date: '') CRLF (http_date (clock s)) else ret msg)
              (\<lambda>msg. ret (msg, unlock s)))
      else if code = 304 then
        ret (''HTTP/1.1 304 Not Modified'' @ CRLF @ ''Date: '' @ http_date (clock s) @ CRLF @ ''Server: Apache'' @ CRLF @
          ''Accept-Ranges: bytes'' @ CRLF @ ''Vary: Accept-Encoding'' @ CRLF @ CRLF, s)
      else halt (Exit 0))"

definition forwardToBrowser :: "request \<Rightarrow> pstate \<Rightarrow> pstate run" where
  "forwardToBrowser rt s =
     (if status rt = - 1 then halt (Exit 0)
      else
        andthen (header_path (file_c rt)) (\<lambda>path.
        andthen (msgGenerator path (status rt) s) (\<lambda>(msg, s).
        andthen (msgSender (client_sd s) msg s) (\<lambda>s.
        if status rt = 200 then cache_out (file_c rt) s else ret s))))"

section \<open>Answers from the server\<close>

definition header_in :: "string \<Rightarrow> request \<Rightarrow> pstate \<Rightarrow> pstate run" where
  "header_in msg rt s =
     andthen (lock s) (\<lambda>s.
     andthen (header_path (file_c rt)) (\<lambda>path.
     let s = open_create path s in
     ret (unlock (if msg = [] then s else s\<lparr>pfiles := px_write_file path 0 (str_bytes msg) (clock s) (pfiles s)\<rparr>))))"

text \<open>The time the cached file gets: the date of the object or of the answer.\<close>

definition object_date :: "string \<Rightarrow> int run" where
  "object_date msg =
     andthen
       (if isItem msg (CRLF @ ''Last-Modified: '') then into 50 msg (CRLF @ ''Last-Modified: '') CRLF (Some [])
        else if isItem msg (CRLF @ ''Date: '') then into 50 msg (CRLF @ ''Date: '') CRLF (Some [])
        else halt (Exit 0))
       (\<lambda>d. andthen (need d) (\<lambda>d. case http_time d of None \<Rightarrow> halt Uninitialised | Some t \<Rightarrow> ret t))"

text \<open>In the loop over the blocks \<open>px_data_in\<close> is given \<open>count\<close>, what remains behind the block, and not its length.\<close>

function object_loop :: "int \<Rightarrow> bool \<Rightarrow> string \<Rightarrow> int \<Rightarrow> nat \<Rightarrow> pstate \<Rightarrow> (int \<times> nat \<times> pstate) run" where
  "object_loop sd caching path count pos s =
     (if count > 0 then
        andthen (dataReceiver sd 1000 s) (\<lambda>s.
        andthen (if caching then px_data_in path pos count s else ret (pos, s)) (\<lambda>(pos, s).
        andthen (dataSender (client_sd s) 1000 s) (\<lambda>s.
        object_loop sd caching path (count - 1000) pos s)))
      else ret (count, pos, s))"
  by pat_completeness auto
termination
  by (relation "measure (\<lambda>(sd, caching, path, count, pos, s). nat count)") auto

declare object_loop.simps [simp del]

text \<open>The object behind the header; a cached one holds the mutex until its last block.\<close>

definition object_back :: "int \<Rightarrow> string \<Rightarrow> int \<Rightarrow> bool \<Rightarrow> string \<Rightarrow> int \<Rightarrow> pstate \<Rightarrow> pstate run" where
  "object_back sd msg leading caching path payload s =
     andthen (dataSender (client_sd s) leading s) (\<lambda>s.
     andthen (if caching then andthen (lock s) (\<lambda>s. px_data_in path 0 leading (open_create path s)) else ret (0, s)) (\<lambda>(pos, s).
     if payload > 0 then
       andthen (object_loop sd caching path (payload - leading - 1000) pos s) (\<lambda>(count, pos, s).
       let count = count + 1000 in
       andthen (dataReceiver sd count s) (\<lambda>s.
       andthen
         (if caching then
            andthen (px_data_in path pos count s) (\<lambda>(pos, s).
            andthen (object_date msg) (\<lambda>t.
            andthen (set_mtime path t s) (\<lambda>s. ret (unlock s))))
          else ret s)
         (dataSender (client_sd s) count)))
     else ret s))"

definition backToBrowser :: "int \<Rightarrow> int \<Rightarrow> request \<Rightarrow> response \<Rightarrow> string \<Rightarrow> int \<Rightarrow> pstate \<Rightarrow> pstate run" where
  "backToBrowser milestone sd rt rp msg leading s =
     andthen (if milestone = 1 then close_headers msg else ret msg) (\<lambda>msg.
     andthen (if rp_status rp = 200 then andthen (header_path (file_c rt)) (\<lambda>path. msgGenerator path 200 s) else ret (msg, s)) (\<lambda>(msg, s).
     andthen (if rp_cache rp then header_in msg rt s else ret s) (\<lambda>s.
     andthen (msgSender (client_sd s) msg s) (\<lambda>s.
     if object rp then
       (if \<not> isItem msg (CRLF @ ''Content-Length: '') then ret s
        else
          andthen (into 10 msg (CRLF @ ''Content-Length: '') CRLF None) (\<lambda>v.
          andthen (need v) (\<lambda>v.
          andthen (if rp_cache rp then andthen (need (file_c rt)) (\<lambda>n. ret (cache_path (Some n))) else ret []) (\<lambda>path.
          object_back sd msg leading (rp_cache rp) path (atoi v) s))))
     else if rp_status rp = 200 then cache_out (file_c rt) s
     else ret s))))"

section \<open>A request\<close>

text \<open>The result says whether the thread waits for another request. In the first milestone the connection to the
  server is closed at the end; after an answer from the cache no descriptor has been set.\<close>

definition proxy_request ::
  "(string \<Rightarrow> string option) \<Rightarrow> (string \<Rightarrow> string \<Rightarrow> (32 word \<times> 16 word) list option) \<Rightarrow> (int \<Rightarrow> int \<times> bool) \<Rightarrow> int \<Rightarrow> pstate \<Rightarrow> (bool \<times> pstate) run" where
  "proxy_request crypt getaddrinfo select milestone s =
     andthen (msgReceiver milestone (client_sd s) s) (\<lambda>(leading, msg, s).
     if leading < 0 then ret (False, s)
     else
       andthen (parseRequest crypt (pfiles s) msg milestone) (\<lambda>rt.
       if toServer rt then
         andthen (forwardToServer (DNS getaddrinfo milestone select (client_index s)) milestone rt msg (tables s)) (\<lambda>(f, t).
         let s = s\<lparr>tables := t\<rparr> in
         case f of None \<Rightarrow> ret (True, s)
         | Some (sd, out) \<Rightarrow>
           andthen (msgSender sd out s) (\<lambda>s.
           andthen (msgReceiver milestone sd s) (\<lambda>(leading, msg, s).
           andthen (parseResponse msg rt milestone) (\<lambda>rp.
           andthen (backToBrowser milestone sd rt rp msg leading s) (\<lambda>s.
           ret (True, if milestone = 1 then s\<lparr>tables := (tables s)\<lparr>closed := closed (tables s) @ [sd]\<rparr>\<rparr> else s))))))
       else andthen (forwardToBrowser rt s) (\<lambda>s. if milestone = 1 then halt Uninitialised else ret (True, s))))"

partial_function (option) proxy_service ::
  "(string \<Rightarrow> string option) \<Rightarrow> (string \<Rightarrow> string \<Rightarrow> (32 word \<times> 16 word) list option) \<Rightarrow> (int \<Rightarrow> int \<times> bool) \<Rightarrow> int \<Rightarrow> pstate \<Rightarrow> pstate run" where
  "proxy_service crypt getaddrinfo select milestone s =
     (case proxy_request crypt getaddrinfo select milestone s of None \<Rightarrow> None
      | Some r \<Rightarrow> (case r of Inl f \<Rightarrow> halt f
        | Inr (again, s) \<Rightarrow>
          if again then proxy_service crypt getaddrinfo select milestone s
          else andthen (px_client_close milestone (client_index s) (client_sd s) (tables s)) (\<lambda>t. ret (s\<lparr>tables := t\<rparr>))))"

section \<open>Lemmas on the transport\<close>

lemma unat_of_char: "unat (of_char c :: byte) = of_char c"
proof -
  have "(of_char c :: byte) = of_nat (of_char c)" by (simp only: of_nat_of_char)
  then have "unat (of_char c :: byte) = of_char c mod 2 ^ LENGTH(8)" by (simp only: unat_of_nat)
  then show ?thesis by simp
qed

lemma char_byte [simp]: "char_of (unat (of_char c :: byte)) = c"
  by (simp add: unat_of_char)

lemma char_nul: "of_char c = (0 :: byte) \<Longrightarrow> c = CHR 0x00"
proof -
  assume "of_char c = (0 :: byte)"
  then have "of_char c = (of_char (CHR 0x00) :: nat)" using unat_of_char [of c] by simp
  then show ?thesis by (simp only: of_char_eq_iff)
qed

lemma cstring_append:
  assumes "CHR 0x00 \<notin> set t"
  shows "cstring (str_bytes t @ bs) = t @ cstring bs"
proof -
  have "0 \<notin> set (str_bytes t)" using assms char_nul by (auto simp: str_bytes_def)
  then have "cstr (str_bytes t @ bs) = str_bytes t @ cstr bs" unfolding cstr_def by (subst takeWhile_append2) auto
  then show ?thesis by (simp add: cstring_def str_bytes_def comp_def)
qed

lemma cstring_exact: "CHR 0x00 \<notin> set t \<Longrightarrow> cstring (str_bytes t) = t"
  using cstring_append [of t "[]"] by (simp add: cstring_def cstr_def)

lemma strstr_found: "strstr s t = Some u \<Longrightarrow> take (length t) u = t \<and> length u \<le> length s"
  by (induction s) (auto split: if_splits)

lemma strstr_append: "strstr s t = Some u \<Longrightarrow> strstr (s @ y) t = Some (u @ y)"
proof (induction s)
  case Nil
  then show ?case by (cases y) (auto split: if_splits)
next
  case (Cons c s)
  from strstr_found [OF Cons.prems] have "length t \<le> length u" "length u \<le> length (c # s)" by (metis length_take min.cobounded1, simp)
  then have tk: "take (length t) (c # (s @ y)) = take (length t) (c # s)"
    by (metis append_Cons le_trans take_append append_Nil2 diff_is_0_eq take0)
  show ?case
  proof (cases "take (length t) (c # s) = t")
    case True
    with Cons.prems tk show ?thesis by auto
  next
    case False
    with Cons tk show ?thesis by simp
  qed
qed

lemma isItem_prefix:
  assumes "isItem (take k s) t" "k \<le> length s"
  shows "\<exists>u. strstr s t = Some u \<and> length s - k + length t \<le> length u"
proof -
  from assms(1) obtain v where v: "strstr (take k s) t = Some v" by (auto simp: isItem_def)
  from strstr_found [OF v] have "length t \<le> length v" by (metis length_take min.cobounded1)
  with strstr_append [OF v, of "drop k s"] assms(2) show ?thesis by auto
qed

lemma proxy_send_total:
  assumes "willing c"
  shows "\<exists>c'. proxy_send bs c = ret c' \<and> sent c' = sent c @ bs \<and> willing c' \<and> rxq c' = rxq c"
  using assms
proof (induction bs c rule: proxy_send.induct)
  case (1 bs c)
  show ?case
  proof (cases "bs = []")
    case True
    with 1 show ?thesis by (simp add: proxy_send.simps)
  next
    case False
    obtain k c' e where k: "conn_send bs c = (int k, c', e)" "0 < k" "k \<le> length bs" "sent c' = sent c @ take k bs" "willing c'"
      using conn_send_some [OF "1.prems" False] by blast
    have rx: "rxq c' = rxq c" using k(1) by (auto simp: conn_send_def Let_def split: list.splits tx.splits)
    have "proxy_send bs c = proxy_send (drop k bs) c'" using False k by (subst proxy_send.simps) simp
    with "1.IH" [OF False k(1) [symmetric] refl] k rx show ?thesis by auto
  qed
qed

lemma data_loop_total:
  assumes "receiving t b c" "got \<le> n" "n \<le> got + length (pending c)" "n \<le> length buf"
  shows "\<exists>c'. data_loop (int n) got buf c = ret (take got buf @ take (n - got) (pending c) @ drop n buf, c') \<and>
    pending c' = drop (n - got) (pending c) \<and> receiving t b c'"
  using assms
proof (induction "n - got" arbitrary: got buf c rule: less_induct)
  case less
  show ?case
  proof (cases "got < n")
    case False
    with less.prems show ?thesis by (simp add: data_loop.simps)
  next
    case True
    with less.prems have "pending c \<noteq> []" by auto
    with True less.prems(1) obtain bs c' where r: "conn_recv (n - got) c = (int (length bs), bs, c')" "bs \<noteq> []" "length bs \<le> n - got"
      "pending c = bs @ pending c'" "receiving t b c'"
      using tcp_frame.recv_some [of t b c "n - got"] by auto
    let ?b = "take got buf @ bs @ drop (got + length bs) buf"
    have "blit buf got bs = ret ?b" using True r less.prems by (simp add: blit_def)
    then have "data_loop (int n) got buf c = data_loop (int n) (got + length bs) ?b c'"
      using True r by (subst data_loop.simps) simp
    moreover obtain c'' where "data_loop (int n) (got + length bs) ?b c' =
        ret (take (got + length bs) ?b @ take (n - (got + length bs)) (pending c') @ drop n ?b, c'')"
      "pending c'' = drop (n - (got + length bs)) (pending c')" "receiving t b c''"
    proof -
      have "got + length bs \<le> n" using r(3) True by linarith
      moreover have "n - (got + length bs) < n - got" using r(2) True by (simp add: diff_less_mono2)
      moreover have "n \<le> got + length bs + length (pending c')" "n \<le> length ?b" using r less.prems calculation(1) by auto
      ultimately show ?thesis using less.hyps [of "got + length bs" c' ?b] r(5) that by blast
    qed
    moreover have "take (got + length bs) ?b = take got buf @ bs" "drop n ?b = drop n buf" using r True less.prems by auto
    ultimately show ?thesis using r by auto
  qed
qed

end
