(* ===== verification/ProxySpec.thy ===== *)
theory ProxySpec
  imports ProxyCache
begin

text \<open>
  What the proxy decides for the headers browsers send: an abstract caching decision that \<open>parseRequest\<close>
  implements, the header that reaches the server, and the cases that go wrong.
\<close>

section \<open>Requests as lines\<close>

definition get_line :: "string \<Rightarrow> string \<Rightarrow> string" where
  "get_line url version = ''GET '' @ url @ CHR '' '' # version"

definition request_ok :: "string \<Rightarrow> string \<Rightarrow> string list \<Rightarrow> bool" where
  "request_ok url version ls \<longleftrightarrow> header_ok (get_line url version) ls \<and> CHR '' '' \<notin> set url \<and> url \<noteq> [] \<and> length url < 1000"

text \<open>The date a request carries and whether it forbids cached answers.\<close>

definition request_date :: "string list \<Rightarrow> int option" where
  "request_date ls = Option.bind (field ls IMS_item) http_time"

definition no_cache :: "string list \<Rightarrow> bool" where
  "no_cache ls \<longleftrightarrow> (case field ls CC_item of None \<Rightarrow> False | Some v \<Rightarrow> isItem v ''no-cache'')"

definition fields_ok :: "string list \<Rightarrow> bool" where
  "fields_ok ls \<longleftrightarrow>
     (case field ls IMS_item of None \<Rightarrow> True | Some d \<Rightarrow> d \<noteq> [] \<and> length d < 50 \<and> http_time d \<noteq> None) \<and>
     (case field ls CC_item of None \<Rightarrow> True | Some v \<Rightarrow> v \<noteq> [] \<and> length v < 1000)"

text \<open>Who answers a request for a cacheable object, with which status, and whether the date of the cached
  object is added (1) or put in place of the browser's (-1).\<close>

datatype answer = Forward int | FromCache | NotModified

definition decision :: "int option \<Rightarrow> int option \<Rightarrow> bool \<Rightarrow> answer" where
  "decision cached date nocache =
     (case cached of None \<Rightarrow> Forward 0
      | Some mtime \<Rightarrow>
        (case date of
           None \<Rightarrow> if nocache then Forward 1 else FromCache
         | Some t \<Rightarrow> if nocache then Forward (if t < mtime then - 1 else 0)
                     else if t < mtime then FromCache else NotModified))"

definition answer_of :: "request \<Rightarrow> answer" where
  "answer_of r = (if toServer r then Forward (modified r) else if status r = 200 then FromCache else NotModified)"

lemma items_no_cr:
  "no_cr IMS_item" "no_cr CC_item" "no_cr ''Host: ''" "no_cr ''Connection: ''" "no_cr ''Proxy-Connection: ''" "no_cr ''close''"
  by (simp_all add: no_cr_def)

lemma read_IMS_header:
  assumes "header_ok first ls" "fields_ok ls"
  shows "\<exists>value. read_IMS (header first ls) = ret (field ls IMS_item, value)"
  using assms(2) isItem_header [OF items_no_cr(1) _ assms(1)] getValue_header [OF items_no_cr(1) _ assms(1), of 1000]
  by (cases "field ls IMS_item") (auto simp: read_IMS_def read_value_def need_def fields_ok_def)

lemma read_CC_header:
  assumes "header_ok first ls" "fields_ok ls"
  shows "\<exists>value'. read_CC (header first ls) value = ret (field ls CC_item \<noteq> None, no_cache ls, value')"
  using assms(2) isItem_header [OF items_no_cr(2) _ assms(1)] getValue_header [OF items_no_cr(2) _ assms(1), of 1000]
  by (cases "field ls CC_item") (auto simp: read_CC_def read_value_def need_def fields_ok_def no_cache_def)

lemma read_GET_header:
  assumes "request_ok url version ls" "checkExtension url" "cache_name crypt url = ret n"
  shows "read_GET crypt (header (get_line url version) ls) value = ret (Some n)"
proof -
  let ?rest = "version @ field_lines ls"
  have h: "header (get_line url version) ls = ''GET '' @ url @ CHR '' '' # ?rest" by (simp add: header_def get_line_def)
  have s: "strstr (''GET '' @ url @ CHR '' '' # ?rest) ''GET '' = Some (''GET '' @ url @ CHR '' '' # ?rest)" by simp
  have e: "strstr (url @ CHR '' '' # ?rest) '' '' = Some (CHR '' '' # ?rest)"
    using assms(1) by (simp add: strstr_skip_char request_ok_def)
  have "getValue 1000 (header (get_line url version) ls) ''GET '' '' '' = ret (Some url)"
    unfolding h getValue_def s using e assms(1) by (simp add: request_ok_def)
  then show ?thesis
    using assms(2,3) unfolding read_GET_def read_value_def isItem_def h s by (simp add: need_def)
qed

lemma decide_answers:
  assumes "date \<noteq> None \<and> cached \<noteq> None \<longrightarrow> result = (let t = the date; m = the cached in if t > m then 1 else if t < m then - 1 else 0)"
    and "nocache \<longrightarrow> CT" "r = (if date = None then decide_noIMS CT nocache (cached \<noteq> None) else decide_IMS CT nocache (cached \<noteq> None) result)"
  shows "(if fst r then Forward (snd (snd r)) else if fst (snd r) = 200 then FromCache else NotModified) = decision cached date nocache"
  using assms by (cases date; cases cached) (auto simp: decision_def decide_noIMS_def decide_IMS_def Let_def)

lemma parseRequest_decides:
  assumes "request_ok url version ls" "fields_ok ls" "checkExtension url" "cache_name crypt url = ret n"
  shows "\<exists>r. parseRequest crypt fs (header (get_line url version) ls) 3 = ret r \<and>
    answer_of r = decision (map_option snd (fs (cache_path (Some n)))) (request_date ls) (no_cache ls) \<and>
    extension r \<and> file_c r = Some n \<and> lTime r = map_option (\<lambda>c. http_date (snd c)) (fs (cache_path (Some n))) \<and>
    (toServer r \<longrightarrow> status r = - 1)"
proof -
  let ?h = "header (get_line url version) ls" and ?f = "fs (cache_path (Some n))"
  have ok: "header_ok (get_line url version) ls" using assms(1) by (simp add: request_ok_def)
  obtain v1 where i: "read_IMS ?h = ret (field ls IMS_item, v1)" using read_IMS_header [OF ok assms(2)] by blast
  obtain v2 where c: "read_CC ?h v1 = ret (field ls CC_item \<noteq> None, no_cache ls, v2)" using read_CC_header [OF ok assms(2)] by blast
  note g = read_GET_header [OF assms(1,3,4), of v2]
  let ?E = "Some n \<noteq> None \<and> checkFile fs (cache_path (Some n))"
  have E: "?E \<longleftrightarrow> ?f \<noteq> None" by (simp add: checkFile_def)
  have l: "(if ?E then andthen (getIMT fs (cache_path (Some n))) (\<lambda>l. ret (Some l)) else ret None) = ret (map_option (\<lambda>c. http_date (snd c)) ?f)"
    unfolding E by (cases ?f) (auto simp: getIMT_def)
  define result where "result = (case request_date ls of None \<Rightarrow> 0 | Some t \<Rightarrow> case ?f of None \<Rightarrow> 0 | Some (b, m) \<Rightarrow> if t > m then 1 else if t < m then - 1 else (0 :: int))"
  have cmp: "(case field ls IMS_item of None \<Rightarrow> ret 0 | Some d \<Rightarrow> if ?E then compareIMS fs (cache_path (Some n)) d else ret 0) = ret result"
    unfolding E using assms(2) by (auto simp: result_def request_date_def compareIMS_def fields_ok_def split: option.splits)
  have rd: "field ls IMS_item = None \<longleftrightarrow> request_date ls = None" using assms(2) by (auto simp: request_date_def fields_ok_def split: option.splits)
  define d where "d = (if request_date ls = None then decide_noIMS (field ls CC_item \<noteq> None) (no_cache ls) (?f \<noteq> None)
      else decide_IMS (field ls CC_item \<noteq> None) (no_cache ls) (?f \<noteq> None) result)"
  then have d: "(if Some n = None then (True, - 1, 0) else if field ls IMS_item = None then decide_noIMS (field ls CC_item \<noteq> None) (no_cache ls) ?E
      else decide_IMS (field ls CC_item \<noteq> None) (no_cache ls) ?E result) = d" unfolding E rd by simp
  let ?r = "\<lparr>toServer = fst d, extension = True, status = fst (snd d), modified = snd (snd d),
      lTime = map_option (\<lambda>c. http_date (snd c)) ?f, file_c = Some n\<rparr>"
  have run: "parseRequest crypt fs ?h 3 = ret ?r"
    unfolding parseRequest_def Let_def i c g andthen_simps case_prod_conv l cmp d by (simp add: case_prod_beta)
  have "no_cache ls \<longrightarrow> field ls CC_item \<noteq> None" by (auto simp: no_cache_def split: option.splits)
  have "answer_of ?r = decision (map_option snd ?f) (request_date ls) (no_cache ls)"
    unfolding answer_of_def request.simps
    unfolding d_def by (rule decide_answers [where result = result and CT = "field ls CC_item \<noteq> None"])
      (use \<open>no_cache ls \<longrightarrow> field ls CC_item \<noteq> None\<close> in \<open>auto simp: result_def Let_def\<close>)
  moreover have "fst d \<longrightarrow> fst (snd d) = - 1" by (auto simp: d_def decide_noIMS_def decide_IMS_def)
  ultimately show ?thesis using run by (intro exI [of _ ?r]) simp
qed

section \<open>The host and the header for the server\<close>

lemma getValue_at:
  assumes "no_cr item" "item \<noteq> []" "header_ok first ls" "field ls item = Some h"
  shows "\<exists>rest. getValue n (header first ls) (CRLF @ item) e = (case strstr (h @ field_lines rest) e of None \<Rightarrow> ret None
      | Some end_s \<Rightarrow> let len = length (h @ field_lines rest) - length end_s in
          if len = 0 then ret None else if len < n then ret (Some (take len (h @ field_lines rest))) else halt OutOfBounds)"
proof -
  from assms(4) obtain l rest where fr: "from_field ls item = l # rest" by (cases "from_field ls item") (auto simp: field_from)
  from from_field_split [OF fr] obtain u where x: "l = item @ u" by blast
  have "u = h" using assms(4) fr x by (simp add: field_from)
  with strstr_header_item [OF assms(1-3)] fr x have st: "strstr (header first ls) (CRLF @ item) = Some (CRLF @ item @ h @ field_lines rest)" by simp
  have dr: "drop (length (CRLF @ item)) (CRLF @ item @ h @ field_lines rest) = h @ field_lines rest" by simp
  show ?thesis unfolding getValue_def st option.case Let_def dr by blast
qed

definition host_ok :: "string \<Rightarrow> bool" where
  "host_ok h \<longleftrightarrow> h \<noteq> [] \<and> length h < 199 \<and> CHR '' '' \<notin> set h \<and> CHR 0x0A \<notin> set h"

lemma host_port_header:
  assumes "header_ok first ls" "field ls ''Host: '' = Some h" "host_ok h"
  shows "host_port (header first ls) = ret (Some (h, ''80''))"
proof -
  have n: "''Host: '' \<noteq> []" by simp
  have g1: "getValue 200 (header first ls) (CRLF @ ''Host: '') [CHR 0x0A] = ret (Some (h @ [CHR 0x0D]))"
  proof -
    obtain rest where r: "getValue 200 (header first ls) (CRLF @ ''Host: '') [CHR 0x0A] = (case strstr (h @ field_lines rest) [CHR 0x0A] of None \<Rightarrow> ret None
      | Some end_s \<Rightarrow> let len = length (h @ field_lines rest) - length end_s in
          if len = 0 then ret None else if len < 200 then ret (Some (take len (h @ field_lines rest))) else halt OutOfBounds)"
      using getValue_at [OF items_no_cr(3) n assms(1,2)] by blast
    obtain x where x: "field_lines rest = CHR 0x0D # CHR 0x0A # x" using field_lines_start by blast
    have "strstr ((h @ [CHR 0x0D]) @ CHR 0x0A # x) [CHR 0x0A] = Some (CHR 0x0A # x)"
      using assms(3) by (subst strstr_skip_char) (auto simp: host_ok_def)
    then show ?thesis using assms(3) unfolding r x by (simp add: host_ok_def)
  qed
  have g2: "getValue 200 (header first ls) (CRLF @ ''Host: '') CRLF = ret (Some h)"
    unfolding getValue_header [OF items_no_cr(3) n assms(1)] assms(2) using assms(3) by (simp add: host_ok_def)
  have i: "isItem (header first ls) (CRLF @ ''Host: '')" unfolding isItem_header [OF items_no_cr(3) n assms(1)] assms(2) by simp
  have "\<not> isItem (h @ [CHR 0x0D]) '': ''" using isItem_set [of "h @ [CHR 0x0D]" "'': ''"] assms(3) by (auto simp: host_ok_def)
  with i g1 g2 show ?thesis unfolding host_port_def into_def by (simp add: need_def)
qed

lemma revalidate_header:
  assumes "header_ok first ls" "field ls IMS_item \<noteq> Some []" "modified r = (if field ls IMS_item = None then 1 else - 1)" "lTime r = Some d"
  shows "revalidate r (header first ls) = (if edit_fits first ls IMS_item d then ret (header first (set_field ls IMS_item d)) else halt OutOfBounds)"
proof -
  have n: "IMS_item \<noteq> []" by simp
  note i = isItem_header [OF items_no_cr(1) n assms(1)]
  have "revalidate r (header first ls) = set_header (header first ls) IMS_item d"
    using assms(3,4) unfolding revalidate_def set_header_def i by (auto simp: need_def)
  then show ?thesis using set_header_lines [OF items_no_cr(1) n assms(1,2), of d] by simp
qed

section \<open>Properties\<close>

text \<open>The inputs of the examples.\<close>

definition sample_crypt :: "string \<Rightarrow> string option" where
  "sample_crypt url = Some (''$1$00$'' @ replicate 22 CHR ''x'')"

lemma sample_name: "cache_name sample_crypt url = ret (replicate 22 CHR ''x'')"
  by (simp add: cache_name_def sample_crypt_def)

lemma sample_date: "http_date 784111777 = ''Sun, 06 Nov 1994 08:49:37 GMT''"
  by code_simp

abbreviation sample_lines :: "string list" where
  "sample_lines \<equiv> [''Host: h'', ''Cache-Control: no-cache'']"

lemma sample_fields:
  "field sample_lines ''Host: '' = Some ''h''" "field sample_lines IMS_item = None" "no_cache sample_lines" "fields_ok sample_lines"
  "request_date sample_lines = None" "host_ok ''h''" "request_ok ''/a.html'' ''HTTP/1.1'' sample_lines" "checkExtension ''/a.html''"
  by (simp_all add: starts_def no_cache_def isItem_def fields_ok_def request_date_def host_ok_def request_ok_def header_ok_def no_cr_def
      get_line_def checkExtension_def)

text \<open>C9: For a request for a cacheable object the code's nest of cases takes the decision of the
  abstract cache: the server is asked when the object is not cached or the browser forbids cached answers, and
  otherwise the answer is 304 exactly when the browser's date is not before that of the cached object.\<close>

theorem request_decision:
  assumes "request_ok url version ls" "fields_ok ls" "checkExtension url" "cache_name crypt url = ret n"
  shows "\<exists>r. parseRequest crypt fs (header (get_line url version) ls) 3 = ret r \<and>
    answer_of r = decision (map_option snd (fs (cache_path (Some n)))) (request_date ls) (no_cache ls)"
  using parseRequest_decides [OF assms] by blast

theorem request_decision_witness:
  "\<exists>r. parseRequest sample_crypt (\<lambda>p. Some ([], 784111000))
      (header (get_line ''/a.html'' ''HTTP/1.1'') [''Host: h'', IMS_item @ http_date 784111777]) 3 = ret r \<and> answer_of r = NotModified"
proof -
  let ?ls = "[''Host: h'', IMS_item @ http_date 784111777]"
  have f: "field ?ls IMS_item = Some (http_date 784111777)" "field ?ls CC_item = None" by (simp_all add: starts_def)
  have t: "http_time (http_date 784111777) = Some 784111777" by (simp add: http_time_date)
  have "request_ok ''/a.html'' ''HTTP/1.1'' ?ls" unfolding sample_date by (simp add: request_ok_def header_ok_def no_cr_def get_line_def)
  moreover have "fields_ok ?ls" unfolding fields_ok_def f using t by (simp add: sample_date)
  ultimately show ?thesis
    using request_decision [OF _ _ sample_fields(8) sample_name, of "''HTTP/1.1''" ?ls "\<lambda>p. Some ([], 784111000)"] f t
    by (simp add: request_date_def no_cache_def decision_def)
qed

text \<open>C26: When a cached object must be validated, the server gets the browser's header with one field changed:
  the date in it is that of the cached object, added if the browser sent none, and reading that date
  back gives the modification time of the cache.\<close>

theorem revalidation_header:
  assumes "request_ok url version ls" "fields_ok ls" "checkExtension url" "cache_name crypt url = ret n"
    and "fs (cache_path (Some n)) = Some (body, mtime)" "0 \<le> mtime" "mtime < 253402300800"
    and "decision (Some mtime) (request_date ls) (no_cache ls) = Forward m" "m \<noteq> 0"
    and "field ls ''Host: '' = Some h" "host_ok h" "dns h ''80'' t = ret (sd, t')" "sd \<noteq> - 1"
    and "edit_fits (get_line url version) ls IMS_item (http_date mtime)"
  shows "\<exists>r. parseRequest crypt fs (header (get_line url version) ls) 3 = ret r \<and>
    forwardToServer dns 3 r (header (get_line url version) ls) t =
      ret (Some (sd, header (get_line url version) (set_field ls IMS_item (http_date mtime))), t') \<and>
    request_date (set_field ls IMS_item (http_date mtime)) = Some mtime"
proof -
  let ?f = "get_line url version"
  have ok: "header_ok ?f ls" using assms(1) by (simp add: request_ok_def)
  from parseRequest_decides [OF assms(1-4), of fs] assms(5,8) obtain r where r:
    "parseRequest crypt fs (header ?f ls) 3 = ret r" "answer_of r = Forward m" "lTime r = Some (http_date mtime)" by auto
  have "modified r = m" using r(2) by (auto simp: answer_of_def split: if_splits)
  moreover have "m = (if request_date ls = None then 1 else - 1)"
    using assms(8,9) by (auto simp: decision_def split: option.splits if_splits)
  moreover have "request_date ls = None \<longleftrightarrow> field ls IMS_item = None"
    using assms(2) by (auto simp: request_date_def fields_ok_def split: option.splits)
  ultimately have m: "modified r = (if field ls IMS_item = None then 1 else - 1)" by simp
  have "field ls IMS_item \<noteq> Some []" using assms(2) by (auto simp: fields_ok_def)
  with revalidate_header [OF ok _ m r(3)] assms(14)
  have "revalidate r (header ?f ls) = ret (header ?f (set_field ls IMS_item (http_date mtime)))" by simp
  then have "forwardToServer dns 3 r (header ?f ls) t = ret (Some (sd, header ?f (set_field ls IMS_item (http_date mtime))), t')"
    using host_port_header [OF ok assms(10,11)] assms(12,13) by (simp add: forwardToServer_def)
  moreover have "request_date (set_field ls IMS_item (http_date mtime)) = Some mtime"
    by (simp add: request_date_def fields.get_put http_time_date assms(6,7))
  ultimately show ?thesis using r(1) by blast
qed

theorem revalidation_header_witness:
  "\<exists>r. parseRequest sample_crypt (\<lambda>p. Some ([], 784111777)) (header (get_line ''/a.html'' ''HTTP/1.1'') sample_lines) 3 = ret r \<and>
     forwardToServer (\<lambda>a b t. ret (5, t)) 3 r (header (get_line ''/a.html'' ''HTTP/1.1'') sample_lines) () =
       ret (Some (5, header (get_line ''/a.html'' ''HTTP/1.1'') (sample_lines @ [IMS_item @ http_date 784111777])), ())"
proof -
  have "edit_fits (get_line ''/a.html'' ''HTTP/1.1'') sample_lines IMS_item (http_date 784111777)"
    unfolding sample_date by (simp add: edit_fits_def HEADER_MAX_def header_def get_line_def starts_def)
  moreover have "set_field sample_lines IMS_item (http_date 784111777) = sample_lines @ [IMS_item @ http_date 784111777]"
    by (rule from_field_none [OF sample_fields(2)])
  ultimately show ?thesis
    using revalidation_header [OF sample_fields(7,4,8) sample_name, of "\<lambda>p. Some ([], 784111777)" "[]" 784111777 1 "''h''" "\<lambda>a b t. ret (5, t)" "()" 5 "()"]
      sample_fields by (simp add: decision_def) blast
qed

text \<open>A browser that sent no date but forbids cached answers can be told that nothing changed: the proxy adds
  the date of its own copy, and the server's 304 is passed on without an object, although the
  browser has none.\<close>

theorem unconditional_request_gets_304:
  assumes "request_ok url version ls" "fields_ok ls" "checkExtension url" "cache_name crypt url = ret n"
    and "fs (cache_path (Some n)) = Some c" "field ls IMS_item = None" "no_cache ls"
    and "isItem reply (''304 Not Modified'' @ CRLF)" "\<not> isItem reply (''200 OK'' @ CRLF)"
  shows "\<exists>r. parseRequest crypt fs (header (get_line url version) ls) 3 = ret r \<and> modified r = 1 \<and>
    parseResponse reply r 3 = ret \<lparr>rp_cache = False, object = False, rp_status = - 1\<rparr>"
proof -
  have "request_date ls = None" using assms(6) by (simp add: request_date_def)
  with parseRequest_decides [OF assms(1-4), of fs] assms(5,7) obtain r where r:
    "parseRequest crypt fs (header (get_line url version) ls) 3 = ret r" "answer_of r = Forward 1" by (auto simp: decision_def)
  then have "toServer r" "modified r = 1" by (auto simp: answer_of_def split: if_splits)
  with r(1) assms(8,9) show ?thesis unfolding parseResponse_def by auto
qed

theorem unconditional_request_gets_304_witness:
  "\<exists>r. parseRequest sample_crypt (\<lambda>p. Some ([], 784111777)) (header (get_line ''/a.html'' ''HTTP/1.1'') sample_lines) 3 = ret r \<and>
     parseResponse (''HTTP/1.1 304 Not Modified'' @ CRLF @ CRLF) r 3 = ret \<lparr>rp_cache = False, object = False, rp_status = - 1\<rparr>"
  using unconditional_request_gets_304 [OF sample_fields(7,4,8) sample_name, of "\<lambda>p. Some ([], 784111777)" "([], 784111777)"
      "''HTTP/1.1 304 Not Modified'' @ CRLF @ CRLF"] sample_fields by (auto simp: isItem_def)

text \<open>In the first milestone the header that reaches the server closes both connections and keeps every other
  field.\<close>

theorem milestone1_closes:
  assumes "header_ok first ls" "field ls ''Connection: '' \<noteq> Some []" "field ls ''Proxy-Connection: '' \<noteq> Some []"
    and "edit_fits first ls ''Connection: '' ''close''"
    and "edit_fits first (set_field ls ''Connection: '' ''close'') ''Proxy-Connection: '' ''close''"
    and "field ls ''Host: '' = Some h" "host_ok h" "dns h ''80'' t = ret (sd, t')" "sd \<noteq> - 1" "parseRequest crypt fs (header first ls) 1 = ret r"
  shows "\<exists>ls'. forwardToServer dns 1 r (header first ls) t = ret (Some (sd, header first ls'), t') \<and>
    field ls' ''Connection: '' = Some ''close'' \<and> field ls' ''Proxy-Connection: '' = Some ''close'' \<and>
    (\<forall>item. apart ''Connection: '' item \<longrightarrow> apart ''Proxy-Connection: '' item \<longrightarrow> field ls' item = field ls item)"
proof -
  let ?l1 = "set_field ls ''Connection: '' ''close''" and ?l2 = "set_field (set_field ls ''Connection: '' ''close'') ''Proxy-Connection: '' ''close''"
  have n: "''Connection: '' \<noteq> []" "''Proxy-Connection: '' \<noteq> []" by simp_all
  have ap: "apart ''Connection: '' ''Proxy-Connection: ''" "apart ''Proxy-Connection: '' ''Connection: ''" by (simp_all add: apart_def)
  have ok1: "header_ok first ?l1" by (rule set_field_ok [OF assms(1) items_no_cr(4,6) n(1)])
  have "field ?l1 ''Proxy-Connection: '' \<noteq> Some []" using assms(3) fields.get_put_other [OF ap(1)] by simp
  with set_header_lines [OF items_no_cr(5) n(2) ok1] assms(5)
  have s2: "set_header (header first ?l1) ''Proxy-Connection: '' ''close'' = ret (header first ?l2)" by simp
  have "set_header (header first ls) ''Connection: '' ''close'' = ret (header first ?l1)"
    using set_header_lines [OF items_no_cr(4) n(1) assms(1,2)] assms(4) by simp
  with s2 have "close_headers (header first ls) = ret (header first ?l2)" by (simp add: close_headers_def)
  moreover have "revalidate r msg = ret msg" for msg using assms(10) by (auto simp: parseRequest_def revalidate_def)
  ultimately have "forwardToServer dns 1 r (header first ls) t = ret (Some (sd, header first ?l2), t')"
    using host_port_header [OF assms(1,6,7)] assms(8,9) by (simp add: forwardToServer_def)
  then show ?thesis using fields.get_put_two [OF ap(2)] fields.get_put_two_other by (intro exI [of _ ?l2]) auto
qed

theorem milestone1_closes_witness:
  "\<exists>r ls'. parseRequest sample_crypt (\<lambda>p. None) (header (get_line ''/a.html'' ''HTTP/1.1'') sample_lines) 1 = ret r \<and>
     forwardToServer (\<lambda>a b t. ret (5, t)) 1 r (header (get_line ''/a.html'' ''HTTP/1.1'') sample_lines) () =
       ret (Some (5, header (get_line ''/a.html'' ''HTTP/1.1'') ls'), ()) \<and> field ls' ''Connection: '' = Some ''close''"
proof -
  let ?f = "get_line ''/a.html'' ''HTTP/1.1''" and ?r = "\<lparr>toServer = True, extension = False, status = - 1, modified = 0, lTime = None, file_c = None\<rparr>"
  have p: "parseRequest sample_crypt (\<lambda>p. None) (header ?f sample_lines) 1 = ret ?r" by (simp add: parseRequest_def)
  have "header_ok ?f sample_lines" using sample_fields(7) by (simp add: request_ok_def)
  moreover have "edit_fits ?f sample_lines ''Connection: '' ''close''"
    "edit_fits ?f (set_field sample_lines ''Connection: '' ''close'') ''Proxy-Connection: '' ''close''"
    by (simp_all add: edit_fits_def HEADER_MAX_def header_def get_line_def starts_def)
  ultimately show ?thesis
    using milestone1_closes [OF _ _ _ _ _ sample_fields(1,6), of ?f "\<lambda>a b t. ret (5, t)" "()" 5 "()", OF _ _ _ _ _ _ _ p] p by (auto simp: starts_def)
qed

text \<open>C38: A header of which 1000 characters or more follow the connection field overruns an array on the stack.\<close>

theorem long_header_overruns:
  assumes "header_ok first ls" "field ls ''Connection: '' = Some u" "u \<noteq> []" "1000 \<le> length (after_field ls ''Connection: '')"
    and "field ls ''Host: '' = Some h" "host_ok h" "dns h ''80'' t = ret (sd, t')" "sd \<noteq> - 1"
  shows "forwardToServer dns 1 r (header first ls) t = halt OutOfBounds"
proof -
  have n: "''Connection: '' \<noteq> []" by simp
  have "set_header (header first ls) ''Connection: '' ''close'' = halt OutOfBounds"
    using set_header_lines [OF items_no_cr(4) n assms(1)] assms(2-4) by (simp add: edit_fits_def)
  then have "close_headers (header first ls) = halt OutOfBounds" by (simp add: close_headers_def)
  with host_port_header [OF assms(1,5,6)] assms(7,8) show ?thesis by (simp add: forwardToServer_def)
qed

theorem long_header_overruns_witness:
  "forwardToServer (\<lambda>a b t. ret (5, t)) 1 \<lparr>toServer = True, extension = False, status = - 1, modified = 0, lTime = None, file_c = None\<rparr>
     (header ''GET / HTTP/1.1'' [''Host: h'', ''Connection: keep-alive'', ''X: '' @ replicate 1000 CHR ''x'']) () = halt OutOfBounds"
  by (rule long_header_overruns [where u = "''keep-alive''" and h = "''h''" and sd = 5 and t' = "()"])
    (simp_all add: header_ok_def no_cr_def starts_def after_field_def sample_fields)

text \<open>The port in a \<open>Host\<close> field is not recognised: a value such as \<open>name:8080\<close> is looked up as a
  whole, and the port is 80.\<close>

theorem host_port_taken_whole:
  assumes "header_ok first ls" "field ls ''Host: '' = Some (name @ '':'' @ port)" "host_ok (name @ '':'' @ port)"
  shows "host_port (header first ls) = ret (Some (name @ '':'' @ port, ''80''))"
  using host_port_header [OF assms] .

theorem host_port_taken_whole_witness:
  "host_port (header ''GET / HTTP/1.1'' [''Host: localhost:8080'']) = ret (Some (''localhost:8080'', ''80''))"
  using host_port_taken_whole [of "''GET / HTTP/1.1''" "[''Host: localhost:8080'']" "''localhost''" "''8080''"]
  by (simp add: header_ok_def no_cr_def starts_def host_ok_def)

end
