(* ===== verification/ProxyBack.thy ===== *)
theory ProxyBack
  imports ProxyIO ProxySpec
begin

text \<open>
  Whole requests through the proxy: a header that arrives in any pieces is read as it is, an object fetched from a
  server reaches the browser and the cache, and the next request for it is answered from there.
\<close>

section \<open>Receiving a header\<close>

text \<open>The header \<open>msg\<close> arrives in some segments, the last of which may bring the first bytes of the object;
  the segments \<open>q\<close> follow.\<close>

definition arrives :: "string \<Rightarrow> byte list \<Rightarrow> rx list \<Rightarrow> rx list \<Rightarrow> bool" where
  "arrives msg lead rx q \<longleftrightarrow> (\<exists>p x. rx = p @ RxData x # q \<and> data_segs p \<and> x \<noteq> [] \<and> rx_bytes p @ x = str_bytes msg @ lead \<and>
     length (rx_bytes p) < length msg \<and> length msg < HEADER_MAX \<and> length msg + length lead \<le> HEADER_MAX)"

definition text_ok :: "string \<Rightarrow> string list \<Rightarrow> bool" where
  "text_ok first ls \<longleftrightarrow> header_ok first ls \<and> CHR 0x00 \<notin> set (header first ls)"

lemma str_bytes_append [simp]: "str_bytes (a @ b) = str_bytes a @ str_bytes b"
  by (simp add: str_bytes_def)

lemma take_str_bytes: "take k (str_bytes t) = str_bytes (take k t)"
  by (simp add: str_bytes_def take_map)

lemma header_not_yet:
  assumes "text_ok first ls" "k < length (header first ls)"
  shows "\<not> isItem (cstring (take k (str_bytes (header first ls)))) (CRLF @ CRLF)"
proof
  let ?h = "header first ls"
  have "CHR 0x00 \<notin> set (take k ?h)" using assms(1) by (auto simp: text_ok_def dest: in_set_takeD)
  then have c: "cstring (take k (str_bytes ?h)) = take k ?h" by (simp add: take_str_bytes cstring_exact)
  assume "isItem (cstring (take k (str_bytes ?h))) (CRLF @ CRLF)"
  then obtain u where "strstr ?h (CRLF @ CRLF) = Some u" "length ?h - k + 4 \<le> length u"
    using isItem_prefix [of k ?h "CRLF @ CRLF"] assms(2) unfolding c by auto
  moreover have "strstr ?h (CRLF @ CRLF) = Some (CRLF @ CRLF)" using strstr_blank assms(1) unfolding text_ok_def by blast
  ultimately show False using assms(2) by simp
qed

lemma msg_loop_header:
  assumes "text_ok first ls" "rxq c = p @ RxData x # q" "data_segs p" "x \<noteq> []"
    and "got @ rx_bytes p @ x = str_bytes (header first ls) @ lead" "length got + length (rx_bytes p) < length (header first ls)"
    and "length (header first ls) + length lead \<le> HEADER_MAX"
  shows "msg_loop got c = ret (True, str_bytes (header first ls) @ lead, c\<lparr>rxq := q\<rparr>)"
  using assms(2-6)
proof (induction p arbitrary: got c)
  let ?h = "header first ls"
  have step: "msg_loop got c = msg_loop (got @ y) (c\<lparr>rxq := r\<rparr>)"
    if "rxq c = RxData y # r" "y \<noteq> []" "got @ y @ z = str_bytes ?h @ lead" "length got < length ?h" for got c y z r
  proof -
    have "length got + length y + length z = length ?h + length lead" using arg_cong [OF that(3), of length] by simp
    then have le: "length got < HEADER_MAX" "length y \<le> HEADER_MAX - length got" using that(4) assms(7) by simp_all
    have "got = take (length got) (str_bytes ?h)"
      using arg_cong [OF that(3), of "take (length got)"] that(4) by simp
    with header_not_yet [OF assms(1) that(4)] have "\<not> isItem (cstring got) (CRLF @ CRLF)" by simp
    with le that(1,2) show ?thesis by (subst msg_loop.simps) (simp add: conn_recv_def)
  qed
  {
    case Nil
    have "msg_loop got c = msg_loop (got @ x) (c\<lparr>rxq := q\<rparr>)"
      by (rule step [where z = "[]"]) (use Nil assms(4) in auto)
    moreover have g: "got @ x = str_bytes ?h @ lead" using Nil by simp
    moreover have "isItem (cstring (str_bytes ?h @ lead)) (CRLF @ CRLF)"
      using assms(1) strstr_append [OF strstr_blank] by (simp add: text_ok_def cstring_append isItem_def)
    ultimately show ?case by (subst (asm) (2) msg_loop.simps) simp
  next
    case (Cons r p)
    then obtain y where y: "r = RxData y" "y \<noteq> []" "data_segs p" by (cases r) auto
    have "msg_loop got c = msg_loop (got @ y) (c\<lparr>rxq := p @ RxData x # q\<rparr>)"
      by (rule step [where z = "rx_bytes p @ x"]) (use Cons.prems y in auto)
    also have "\<dots> = ret (True, str_bytes ?h @ lead, (c\<lparr>rxq := p @ RxData x # q\<rparr>)\<lparr>rxq := q\<rparr>)"
      by (rule Cons.IH) (use Cons.prems y in auto)
    finally show ?case by simp
  }
qed

lemma msgReceiver_header:
  assumes "text_ok first ls" "arrives (header first ls) lead (rxq (socks s sd)) q" "length lead \<le> length (pbuf s)" "8 \<le> length (pbuf s)"
  shows "\<exists>r. msgReceiver m sd s = ret (int (length lead), header first ls,
    put_conn sd (socks s sd\<lparr>rxq := q\<rparr>) s\<lparr>pbuf := lead @ r\<rparr>) \<and> length lead + length r = length (pbuf s)"
proof -
  let ?h = "header first ls"
  from assms(2) obtain p x where p: "rxq (socks s sd) = p @ RxData x # q" "data_segs p" "x \<noteq> []" "[] @ rx_bytes p @ x = str_bytes ?h @ lead"
    "length ([] :: byte list) + length (rx_bytes p) < length ?h" "length ?h + length lead \<le> HEADER_MAX" and max: "length ?h < HEADER_MAX" by (auto simp: arrives_def)
  have nul: "CHR 0x00 \<notin> set ?h" and ok: "header_ok first ls" using assms(1) by (simp_all add: text_ok_def)
  note ml = msg_loop_header [OF assms(1) p]
  have st: "strstr (cstring (str_bytes ?h @ lead)) (CRLF @ CRLF) = Some ((CRLF @ CRLF) @ cstring lead)"
    unfolding cstring_append [OF nul] by (rule strstr_append [OF strstr_blank [OF ok]])
  have n: "length (cstring (str_bytes ?h @ lead)) - length ((CRLF @ CRLF) @ cstring lead) + 4 = length ?h"
  proof -
    have "4 \<le> length ?h" using strstr_found [OF strstr_blank [OF ok]] by simp
    then show ?thesis by (simp add: cstring_append [OF nul])
  qed
  have b: "blit (pbuf (put_conn sd (socks s sd\<lparr>rxq := q\<rparr>) s)) 0 (replicate 8 0) = ret (replicate 8 0 @ drop 8 (pbuf s))"
    using assms(4) by (simp add: blit_def put_conn_def)
  show ?thesis
    unfolding msgReceiver_def ml andthen_simps prod.case Let_def not_True_eq_False if_False st option.case n b
    using assms(3,4) nul max
    by (simp add: blit_def put_conn_def cstring_append)
      (rule exI [of _ "replicate (8 - length lead) 0 @ drop (length lead - 8 + 8) (pbuf s)"], simp)
qed

section \<open>Blocks of an object\<close>

lemma msgSender_total:
  assumes "willing (socks s sd)"
  shows "\<exists>c. msgSender sd msg s = ret (put_conn sd c s) \<and> sent c = sent (socks s sd) @ str_bytes msg \<and> willing c \<and> rxq c = rxq (socks s sd)"
  using proxy_send_total [OF assms, of "str_bytes msg"] by (auto simp: msgSender_def)

lemma dataSender_total:
  assumes "willing (socks s sd)" "n \<le> length (pbuf s)"
  shows "\<exists>c. dataSender sd (int n) s = ret (put_conn sd c s) \<and> sent c = sent (socks s sd) @ take n (pbuf s) \<and> willing c \<and> rxq c = rxq (socks s sd)"
proof (cases "n = 0")
  case True
  have "put_conn sd (socks s sd) s = s" by (simp add: put_conn_def)
  with True assms(1) show ?thesis by (intro exI [of _ "socks s sd"]) (simp add: dataSender_def)
next
  case False
  with assms proxy_send_total [OF assms(1), of "take n (pbuf s)"] show ?thesis by (auto simp: dataSender_def slice_def)
qed

lemma dataReceiver_total:
  assumes "healthy (socks s sd)" "n \<le> length (pending (socks s sd))" "n \<le> length (pbuf s)"
  shows "\<exists>c. dataReceiver sd (int n) s = ret (put_conn sd c s\<lparr>pbuf := take n (pending (socks s sd)) @ drop n (pbuf s)\<rparr>) \<and>
    pending c = drop n (pending (socks s sd)) \<and> healthy c \<and> txq c = txq (socks s sd) \<and> sent c = sent (socks s sd)"
  using data_loop_total [of "txq (socks s sd)" "sent (socks s sd)" "socks s sd" 0 n "pbuf s"] assms
  by (auto simp: dataReceiver_def receiving_def)

text \<open>Writing at the end of a file.\<close>

lemma data_in_end:
  assumes "n \<le> length (pbuf s)" "pfiles s path = Some (c, m)" "pos = length c"
  shows "\<exists>m'. px_data_in path pos (int n) s = ret (pos + n, s\<lparr>pfiles := (pfiles s)(path \<mapsto> (c @ take n (pbuf s), m'))\<rparr>)"
proof (cases "n = 0")
  case True
  have "(pfiles s)(path \<mapsto> (c, m)) = pfiles s" using assms(2) by (simp add: fun_upd_idem)
  with True show ?thesis by (intro exI [of _ m]) (simp add: px_data_in_def slice_def)
next
  case False
  with assms show ?thesis by (auto simp: px_data_in_def slice_def px_write_file_def)
qed

lemma open_create_new: "pfiles s path = None \<Longrightarrow> open_create path s = s\<lparr>pfiles := (pfiles s)(path \<mapsto> ([], clock s))\<rparr>"
  by (simp add: open_create_def)

text \<open>What a step leaves alone.\<close>

definition same_but :: "pstate \<Rightarrow> pstate \<Rightarrow> bool" where
  "same_but s s' \<longleftrightarrow> client_sd s' = client_sd s \<and> client_index s' = client_index s \<and> tables s' = tables s \<and> clock s' = clock s \<and>
     length (pbuf s') = length (pbuf s)"

lemma same_but_trans: "same_but a b \<Longrightarrow> same_but b c \<Longrightarrow> same_but a c"
  by (simp add: same_but_def)

text \<open>The last block of an object, for the cache and the browser.\<close>

definition last_block :: "int \<Rightarrow> string \<Rightarrow> string \<Rightarrow> int \<Rightarrow> nat \<Rightarrow> pstate \<Rightarrow> pstate run" where
  "last_block sd msg path count pos s =
     andthen (dataReceiver sd count s) (\<lambda>s.
     andthen
       (andthen (px_data_in path pos count s) (\<lambda>(pos, s).
        andthen (object_date msg) (\<lambda>t.
        andthen (set_mtime path t s) (\<lambda>s. ret (unlock s)))))
       (dataSender (client_sd s) count))"

lemma last_block_total:
  assumes "healthy (socks s sd)" "n \<le> length (pending (socks s sd))" "n \<le> length (pbuf s)" "willing (socks s (client_sd s))" "sd \<noteq> client_sd s"
    and "pfiles s path = Some (c, m)" "object_date msg = ret t"
  shows "\<exists>s'. last_block sd msg path (int n) (length c) s = ret s' \<and> \<not> plocked s' \<and> same_but s s' \<and>
    pfiles s' = (pfiles s)(path \<mapsto> (c @ take n (pending (socks s sd)), t)) \<and>
    sent (socks s' (client_sd s)) = sent (socks s (client_sd s)) @ take n (pending (socks s sd)) \<and>
    willing (socks s' (client_sd s)) \<and> rxq (socks s' (client_sd s)) = rxq (socks s (client_sd s)) \<and> sent (socks s' sd) = sent (socks s sd)"
proof -
  let ?A = "take n (pending (socks s sd))"
  obtain cc where r: "dataReceiver sd (int n) s = ret (put_conn sd cc s\<lparr>pbuf := ?A @ drop n (pbuf s)\<rparr>)" "sent cc = sent (socks s sd)"
    using dataReceiver_total [OF assms(1-3)] by blast
  let ?s1 = "put_conn sd cc s\<lparr>pbuf := ?A @ drop n (pbuf s)\<rparr>"
  have b1: "length (pbuf ?s1) = length (pbuf s)" "take n (pbuf ?s1) = ?A" "pfiles ?s1 path = Some (c, m)"
    using assms(2,3,6) by (simp_all add: put_conn_def)
  have "n \<le> length (pbuf ?s1)" using b1(1) assms(3) by simp
  from data_in_end [OF this b1(3) refl] b1(2) obtain m' where
    d: "px_data_in path (length c) (int n) ?s1 = ret (length c + n, ?s1\<lparr>pfiles := (pfiles ?s1)(path \<mapsto> (c @ ?A, m'))\<rparr>)" by metis
  let ?s3 = "unlock (?s1\<lparr>pfiles := (pfiles ?s1)(path \<mapsto> (c @ ?A, t))\<rparr>)"
  have w: "willing (socks ?s3 (client_sd ?s3))" "n \<le> length (pbuf ?s3)"
    using assms(2-5) by (simp_all add: put_conn_def unlock_def)
  obtain c2 where s2: "dataSender (client_sd ?s3) (int n) ?s3 = ret (put_conn (client_sd ?s3) c2 ?s3)"
    "sent c2 = sent (socks ?s3 (client_sd ?s3)) @ take n (pbuf ?s3)" "willing c2" "rxq c2 = rxq (socks ?s3 (client_sd ?s3))"
    using dataSender_total [OF w] by blast
  have "last_block sd msg path (int n) (length c) s = ret (put_conn (client_sd ?s3) c2 ?s3)"
    using r d assms(7) s2(1) by (simp add: last_block_def set_mtime_def unlock_def put_conn_def)
  then show ?thesis using s2(2-4) r(2) assms(2,3,5)
    by (simp add: put_conn_def unlock_def same_but_def)
qed

text \<open>The object up to its last block: the bytes that came with the header are sent and written.\<close>

lemma object_start:
  assumes "willing (socks s (client_sd s))" "\<not> plocked s" "pfiles s path = None" "pbuf s = lead @ r"
  shows "\<exists>s1 m. object_back sd msg (int (length lead)) True path payload s =
      (if payload > 0 then
         andthen (object_loop sd True path (payload - int (length lead) - 1000) (length lead) s1)
           (\<lambda>(count, pos, s). last_block sd msg path (count + 1000) pos s)
       else ret s1) \<and>
    plocked s1 \<and> same_but s s1 \<and> pfiles s1 = (pfiles s)(path \<mapsto> (lead, m)) \<and> willing (socks s1 (client_sd s)) \<and>
    sent (socks s1 (client_sd s)) = sent (socks s (client_sd s)) @ lead \<and> rxq (socks s1 (client_sd s)) = rxq (socks s (client_sd s)) \<and>
    (\<forall>i. i \<noteq> client_sd s \<longrightarrow> socks s1 i = socks s i)"
proof -
  have le: "length lead \<le> length (pbuf s)" using assms(4) by simp
  obtain c where d: "dataSender (client_sd s) (int (length lead)) s = ret (put_conn (client_sd s) c s)" "sent c = sent (socks s (client_sd s)) @ lead"
    "willing c" "rxq c = rxq (socks s (client_sd s))"
    using dataSender_total [OF assms(1) le] assms(4) by auto
  let ?s0 = "put_conn (client_sd s) c s\<lparr>plocked := True, pfiles := (pfiles s)(path \<mapsto> ([], clock s))\<rparr>"
  have o: "andthen (lock (put_conn (client_sd s) c s)) (\<lambda>s. px_data_in path 0 (int (length lead)) (open_create path s)) =
      px_data_in path 0 (int (length lead)) ?s0"
    using assms(2,3) by (simp add: lock_def put_conn_def open_create_new)
  have "length lead \<le> length (pbuf ?s0)" "pfiles ?s0 path = Some ([], clock s)" "0 = length ([] :: byte list)"
    using le by (simp_all add: put_conn_def)
  from data_in_end [OF this] obtain m where
    m: "px_data_in path 0 (int (length lead)) ?s0 = ret (length lead, ?s0\<lparr>pfiles := (pfiles s)(path \<mapsto> (lead, m))\<rparr>)"
    using assms(4) by (auto simp: put_conn_def)
  let ?s1 = "?s0\<lparr>pfiles := (pfiles s)(path \<mapsto> (lead, m))\<rparr>"
  have "object_back sd msg (int (length lead)) True path payload s =
      (if payload > 0 then
         andthen (object_loop sd True path (payload - int (length lead) - 1000) (length lead) ?s1)
           (\<lambda>(count, pos, s). last_block sd msg path (count + 1000) pos s)
       else ret ?s1)"
    unfolding object_back_def d(1) andthen_simps if_True o m prod.case Let_def last_block_def ..
  then show ?thesis using d(2-4) by (intro exI [of _ ?s1] exI [of _ m]) (simp add: same_but_def put_conn_def)
qed

text \<open>One block of the loop. The file gets \<open>k\<close> bytes of it, where \<open>k\<close> is what remains behind the block.\<close>

lemma object_block:
  assumes "healthy (socks s sd)" "1000 \<le> length (pending (socks s sd))" "length (pbuf s) = 1000" "willing (socks s (client_sd s))" "sd \<noteq> client_sd s"
    and "0 < k" "caching \<Longrightarrow> k \<le> 1000 \<and> pfiles s path = Some (c, m) \<and> pos = length c"
  shows "\<exists>s1 m'. object_loop sd caching path (int k) pos s = object_loop sd caching path (int k - 1000) (if caching then pos + k else pos) s1 \<and>
    same_but s s1 \<and> plocked s1 = plocked s \<and>
    pfiles s1 = (if caching then (pfiles s)(path \<mapsto> (c @ take k (pending (socks s sd)), m')) else pfiles s) \<and>
    sent (socks s1 (client_sd s)) = sent (socks s (client_sd s)) @ take 1000 (pending (socks s sd)) \<and>
    willing (socks s1 (client_sd s)) \<and> rxq (socks s1 (client_sd s)) = rxq (socks s (client_sd s)) \<and>
    pending (socks s1 sd) = drop 1000 (pending (socks s sd)) \<and> healthy (socks s1 sd) \<and> sent (socks s1 sd) = sent (socks s sd)"
proof -
  let ?A = "take 1000 (pending (socks s sd))"
  obtain cc where r: "dataReceiver sd (int 1000) s = ret (put_conn sd cc s\<lparr>pbuf := ?A @ drop 1000 (pbuf s)\<rparr>)"
    "pending cc = drop 1000 (pending (socks s sd))" "healthy cc" "sent cc = sent (socks s sd)"
    using dataReceiver_total [OF assms(1,2)] assms(3) by auto
  let ?s1 = "put_conn sd cc s\<lparr>pbuf := ?A\<rparr>"
  have r1: "dataReceiver sd 1000 s = ret ?s1" using r(1) assms(3) by simp
  have b1: "length (pbuf ?s1) = 1000" "pfiles ?s1 = pfiles s" using assms(2) by (simp_all add: put_conn_def)
  obtain m' where d: "(if caching then px_data_in path pos (int k) ?s1 else ret (pos, ?s1)) =
    ret (if caching then pos + k else pos, ?s1\<lparr>pfiles := if caching then (pfiles s)(path \<mapsto> (c @ take k (pending (socks s sd)), m')) else pfiles s\<rparr>)"
  proof (cases caching)
    case False
    then show ?thesis using that b1(2) by (simp add: put_conn_def)
  next
    case True
    with assms(7) have t: "k \<le> length (pbuf ?s1)" "pfiles ?s1 path = Some (c, m)" "pos = length c" using b1 by simp_all
    have "take k (pbuf ?s1) = take k (pending (socks s sd))" using True assms(7) by (simp add: put_conn_def min_def)
    with data_in_end [OF t] True that b1(2) show ?thesis by auto
  qed
  let ?s2 = "?s1\<lparr>pfiles := if caching then (pfiles s)(path \<mapsto> (c @ take k (pending (socks s sd)), m')) else pfiles s\<rparr>"
  have w: "willing (socks ?s2 (client_sd ?s2))" "1000 \<le> length (pbuf ?s2)" using assms(4,5) b1 by (simp_all add: put_conn_def)
  obtain c2 where s2: "dataSender (client_sd ?s2) 1000 ?s2 = ret (put_conn (client_sd ?s2) c2 ?s2)"
    "sent c2 = sent (socks ?s2 (client_sd ?s2)) @ take 1000 (pbuf ?s2)" "willing c2" "rxq c2 = rxq (socks ?s2 (client_sd ?s2))"
    using dataSender_total [OF w] by auto
  have "object_loop sd caching path (int k) pos s =
      object_loop sd caching path (int k - 1000) (if caching then pos + k else pos) (put_conn (client_sd ?s2) c2 ?s2)"
    unfolding object_loop.simps [of sd caching path "int k" pos s] r1 andthen_simps d prod.case s2(1) using assms(6) by simp
  then show ?thesis using s2(2-4) r(2-4) assms(2,3,5)
    by (intro exI [of _ "put_conn (client_sd ?s2) c2 ?s2"] exI [of _ m']) (simp add: put_conn_def same_but_def)
qed

text \<open>What the cache keeps of an object of which at most 2000 bytes come behind the header's segments.\<close>

definition stored :: "byte list \<Rightarrow> byte list \<Rightarrow> byte list" where
  "stored lead body = (if length body \<le> 1000 then lead @ body else lead @ take (length body - 1000) body @ drop 1000 body)"

text \<open>The blocks before the last one; the file then holds \<open>c\<close> and the last block has \<open>k\<close> bytes.\<close>

lemma object_loop_stored:
  assumes "healthy (socks s sd)" "pending (socks s sd) = body @ later" "length body \<le> 2000" "length (pbuf s) = 1000"
    and "willing (socks s (client_sd s))" "sd \<noteq> client_sd s" "pfiles s path = Some (lead, m)"
  shows "\<exists>s2 c m k. object_loop sd True path (int (length body) - 1000) (length lead) s = ret (int k - 1000, length c, s2) \<and>
    same_but s s2 \<and> pfiles s2 = (pfiles s)(path \<mapsto> (c, m)) \<and> healthy (socks s2 sd) \<and> k \<le> 1000 \<and> k \<le> length (pending (socks s2 sd)) \<and>
    c @ take k (pending (socks s2 sd)) = stored lead body \<and>
    sent (socks s2 (client_sd s)) @ take k (pending (socks s2 sd)) = sent (socks s (client_sd s)) @ body \<and>
    willing (socks s2 (client_sd s)) \<and> rxq (socks s2 (client_sd s)) = rxq (socks s (client_sd s)) \<and> sent (socks s2 sd) = sent (socks s sd)"
proof (cases "length body \<le> 1000")
  case True
  then have "object_loop sd True path (int (length body) - 1000) (length lead) s = ret (int (length body) - 1000, length lead, s)"
    by (subst object_loop.simps) simp
  moreover have "pfiles s = (pfiles s)(path \<mapsto> (lead, m))" using assms(7) by (simp add: fun_upd_idem)
  ultimately show ?thesis using True assms
    by (intro exI [of _ s] exI [of _ lead] exI [of _ m] exI [of _ "length body"]) (simp add: stored_def same_but_def)
next
  case False
  let ?k = "length body - 1000"
  have k: "int (length body) - 1000 = int ?k" and less: "\<not> length body \<le> ?k" using False by simp_all
  have p: "1000 \<le> length (pending (socks s sd))" "0 < ?k" "?k \<le> 1000 \<and> pfiles s path = Some (lead, m) \<and> length lead = length lead"
    using False assms(2,3,7) by simp_all
  from object_block [OF assms(1) p(1) assms(4-6) p(2), of True path lead m "length lead"] p(3) obtain s2 m' where
    s2: "object_loop sd True path (int ?k) (length lead) s = object_loop sd True path (int ?k - 1000) (length lead + ?k) s2"
    "same_but s s2" "pfiles s2 = (pfiles s)(path \<mapsto> (lead @ take ?k (body @ later), m'))"
    "sent (socks s2 (client_sd s)) = sent (socks s (client_sd s)) @ take 1000 (body @ later)"
    "willing (socks s2 (client_sd s))" "rxq (socks s2 (client_sd s)) = rxq (socks s (client_sd s))"
    "pending (socks s2 sd) = drop 1000 (body @ later)" "healthy (socks s2 sd)" "sent (socks s2 sd) = sent (socks s sd)"
    unfolding assms(2) by auto
  have "object_loop sd True path (int ?k - 1000) (length lead + ?k) s2 = ret (int ?k - 1000, length (lead @ take ?k body), s2)"
    using assms(3) False less by (subst object_loop.simps) (simp add: min_def)
  moreover have "take ?k (drop 1000 (body @ later)) = drop 1000 body" "take 1000 (body @ later) = take 1000 body" "take ?k (body @ later) = take ?k body"
    using False by simp_all
  moreover have "?k \<le> length (drop 1000 (body @ later))" by simp
  ultimately show ?thesis unfolding k s2(1) using s2(2-9) assms(3) False
    by (intro exI [of _ s2] exI [of _ "lead @ take ?k body"] exI [of _ m'] exI [of _ ?k]) (simp add: stored_def)
qed

lemma object_back_stored:
  assumes "willing (socks s (client_sd s))" "\<not> plocked s" "pfiles s path = None" "pbuf s = lead @ r" "length (pbuf s) = 1000"
    and "healthy (socks s sd)" "pending (socks s sd) = body @ later" "length body \<le> 2000" "lead @ body \<noteq> []" "sd \<noteq> client_sd s" "object_date msg = ret t"
  shows "\<exists>s'. object_back sd msg (int (length lead)) True path (int (length (lead @ body))) s = ret s' \<and> \<not> plocked s' \<and> same_but s s' \<and>
    pfiles s' = (pfiles s)(path \<mapsto> (stored lead body, t)) \<and>
    sent (socks s' (client_sd s)) = sent (socks s (client_sd s)) @ lead @ body \<and>
    willing (socks s' (client_sd s)) \<and> rxq (socks s' (client_sd s)) = rxq (socks s (client_sd s)) \<and> sent (socks s' sd) = sent (socks s sd)"
proof -
  have pos: "0 < int (length (lead @ body))" using assms(9) by (simp only: of_nat_0_less_iff length_greater_0_conv) simp
  have sub: "int (length (lead @ body)) - int (length lead) - 1000 = int (length body) - 1000" by simp
  obtain s1 m where s1: "object_back sd msg (int (length lead)) True path (int (length (lead @ body))) s =
      andthen (object_loop sd True path (int (length body) - 1000) (length lead) s1) (\<lambda>(count, pos, s). last_block sd msg path (count + 1000) pos s)"
    "same_but s s1" "pfiles s1 = (pfiles s)(path \<mapsto> (lead, m))" "willing (socks s1 (client_sd s))"
    "sent (socks s1 (client_sd s)) = sent (socks s (client_sd s)) @ lead" "rxq (socks s1 (client_sd s)) = rxq (socks s (client_sd s))"
    "\<forall>i. i \<noteq> client_sd s \<longrightarrow> socks s1 i = socks s i"
    using object_start [OF assms(1-4), of sd msg "int (length (lead @ body))"] unfolding sub if_P [OF pos] by blast
  have sd: "socks s1 sd = socks s sd" using s1(7) assms(10) by simp
  have cl: "client_sd s1 = client_sd s" "length (pbuf s1) = 1000" using s1(2) assms(5) by (simp_all add: same_but_def)
  have pre: "healthy (socks s1 sd)" "pending (socks s1 sd) = body @ later" "willing (socks s1 (client_sd s1))" "sd \<noteq> client_sd s1"
    "pfiles s1 path = Some (lead, m)" using assms(6,7,10) sd cl(1) s1(3,4) by simp_all
  obtain s2 c m2 k where s2: "object_loop sd True path (int (length body) - 1000) (length lead) s1 = ret (int k - 1000, length c, s2)"
    "same_but s1 s2" "pfiles s2 = (pfiles s1)(path \<mapsto> (c, m2))" "healthy (socks s2 sd)" "k \<le> 1000" "k \<le> length (pending (socks s2 sd))"
    "c @ take k (pending (socks s2 sd)) = stored lead body"
    "sent (socks s2 (client_sd s)) @ take k (pending (socks s2 sd)) = sent (socks s1 (client_sd s)) @ body"
    "willing (socks s2 (client_sd s))" "rxq (socks s2 (client_sd s)) = rxq (socks s1 (client_sd s))" "sent (socks s2 sd) = sent (socks s1 sd)"
    using object_loop_stored [OF pre(1,2) assms(8) cl(2) pre(3-5)] unfolding cl(1) by blast
  have cl2: "client_sd s2 = client_sd s" "length (pbuf s2) = 1000" using s2(2) cl by (simp_all add: same_but_def)
  have pre2: "k \<le> length (pbuf s2)" "willing (socks s2 (client_sd s2))" "sd \<noteq> client_sd s2" "pfiles s2 path = Some (c, m2)"
    using assms(10) s2(3,5,9) cl2 by simp_all
  obtain s' where s': "last_block sd msg path (int k) (length c) s2 = ret s'" "\<not> plocked s'" "same_but s2 s'"
    "pfiles s' = (pfiles s2)(path \<mapsto> (c @ take k (pending (socks s2 sd)), t))"
    "sent (socks s' (client_sd s)) = sent (socks s2 (client_sd s)) @ take k (pending (socks s2 sd))"
    "willing (socks s' (client_sd s))" "rxq (socks s' (client_sd s)) = rxq (socks s2 (client_sd s))" "sent (socks s' sd) = sent (socks s2 sd)"
    using last_block_total [OF s2(4,6) pre2 assms(11)] unfolding cl2(1) by blast
  have "pfiles s' = (pfiles s)(path \<mapsto> (stored lead body, t))" "sent (socks s' (client_sd s)) = sent (socks s (client_sd s)) @ lead @ body"
    "rxq (socks s' (client_sd s)) = rxq (socks s (client_sd s))" "sent (socks s' sd) = sent (socks s sd)"
    using s'(4-8) s2(3,7,8,10,11) s1(3,5,6) sd by simp_all
  moreover have "object_back sd msg (int (length lead)) True path (int (length (lead @ body))) s = ret s'" unfolding s1(1) s2(1) using s'(1) by simp
  moreover have "same_but s s'" using s1(2) s2(2) s'(3) by (blast intro: same_but_trans)
  ultimately show ?thesis using s'(2,6) by blast
qed

section \<open>An object that is not cached\<close>

lemma object_loop_relayed:
  assumes "healthy (socks s sd)" "pending (socks s sd) = body @ later" "length (pbuf s) = 1000"
    and "willing (socks s (client_sd s))" "sd \<noteq> client_sd s"
  shows "\<exists>s2 k. object_loop sd False path (int (length body) - 1000) pos s = ret (int k - 1000, pos, s2) \<and>
    same_but s s2 \<and> plocked s2 = plocked s \<and> pfiles s2 = pfiles s \<and> healthy (socks s2 sd) \<and> k \<le> 1000 \<and> k \<le> length (pending (socks s2 sd)) \<and>
    sent (socks s2 (client_sd s)) @ take k (pending (socks s2 sd)) = sent (socks s (client_sd s)) @ body \<and>
    willing (socks s2 (client_sd s)) \<and> rxq (socks s2 (client_sd s)) = rxq (socks s (client_sd s)) \<and> sent (socks s2 sd) = sent (socks s sd)"
  using assms
proof (induction "length body" arbitrary: body s rule: less_induct)
  case less
  show ?case
  proof (cases "length body \<le> 1000")
    case True
    then have "object_loop sd False path (int (length body) - 1000) pos s = ret (int (length body) - 1000, pos, s)"
      by (subst object_loop.simps) simp
    then show ?thesis using True less.prems by (intro exI [of _ s] exI [of _ "length body"]) (simp add: same_but_def)
  next
    case False
    let ?k = "length body - 1000" and ?b = "drop 1000 body"
    have p: "1000 \<le> length (pending (socks s sd))" "0 < ?k" using False less.prems(2) by simp_all
    have k: "int (length body) - 1000 = int ?k" "int ?k - 1000 = int (length ?b) - 1000" "length ?b < length body" using False by simp_all
    from object_block [OF less.prems(1) p(1) less.prems(3-5) p(2), of False path _ _ pos] obtain s1 where
      s1: "object_loop sd False path (int ?k) pos s = object_loop sd False path (int ?k - 1000) pos s1"
      "same_but s s1" "plocked s1 = plocked s" "pfiles s1 = pfiles s"
      "sent (socks s1 (client_sd s)) = sent (socks s (client_sd s)) @ take 1000 body"
      "willing (socks s1 (client_sd s))" "rxq (socks s1 (client_sd s)) = rxq (socks s (client_sd s))"
      "pending (socks s1 sd) = ?b @ later" "healthy (socks s1 sd)" "sent (socks s1 sd) = sent (socks s sd)"
      using False less.prems(2) by auto
    have c: "client_sd s1 = client_sd s" "length (pbuf s1) = 1000" using s1(2) less.prems(3) by (simp_all add: same_but_def)
    have w: "willing (socks s1 (client_sd s1))" "sd \<noteq> client_sd s1" using s1(6) c(1) less.prems(5) by simp_all
    from less.hyps [OF k(3) s1(9,8) c(2) w] obtain s2 j where
      s2: "object_loop sd False path (int (length ?b) - 1000) pos s1 = ret (int j - 1000, pos, s2)"
      "same_but s1 s2" "plocked s2 = plocked s1" "pfiles s2 = pfiles s1" "healthy (socks s2 sd)" "j \<le> 1000" "j \<le> length (pending (socks s2 sd))"
      "sent (socks s2 (client_sd s)) @ take j (pending (socks s2 sd)) = sent (socks s1 (client_sd s)) @ ?b"
      "willing (socks s2 (client_sd s))" "rxq (socks s2 (client_sd s)) = rxq (socks s1 (client_sd s))" "sent (socks s2 sd) = sent (socks s1 sd)"
      unfolding c(1) by blast
    have "object_loop sd False path (int (length body) - 1000) pos s = ret (int j - 1000, pos, s2)" unfolding k(1) s1(1) k(2) by (rule s2(1))
    moreover have "sent (socks s2 (client_sd s)) @ take j (pending (socks s2 sd)) = sent (socks s (client_sd s)) @ body" unfolding s2(8) s1(5) by simp
    ultimately show ?thesis using s2(3-7,9-11) s1(3,4,7,10) same_but_trans [OF s1(2) s2(2)] by (intro exI [of _ s2] exI [of _ j]) simp
  qed
qed

lemma object_back_relayed:
  assumes "willing (socks s (client_sd s))" "pbuf s = lead @ r" "length (pbuf s) = 1000"
    and "healthy (socks s sd)" "pending (socks s sd) = body @ later" "sd \<noteq> client_sd s"
  shows "\<exists>s'. object_back sd msg (int (length lead)) False path (int (length (lead @ body))) s = ret s' \<and> plocked s' = plocked s \<and>
    same_but s s' \<and> pfiles s' = pfiles s \<and> sent (socks s' (client_sd s)) = sent (socks s (client_sd s)) @ lead @ body \<and>
    willing (socks s' (client_sd s)) \<and> rxq (socks s' (client_sd s)) = rxq (socks s (client_sd s)) \<and> sent (socks s' sd) = sent (socks s sd)"
proof -
  have le: "length lead \<le> length (pbuf s)" using assms(2) by simp
  obtain c where c: "dataSender (client_sd s) (int (length lead)) s = ret (put_conn (client_sd s) c s)" "sent c = sent (socks s (client_sd s)) @ lead"
    "willing c" "rxq c = rxq (socks s (client_sd s))"
    using dataSender_total [OF assms(1) le] assms(2) by auto
  let ?s1 = "put_conn (client_sd s) c s"
  show ?thesis
  proof (cases "lead @ body = []")
    case True
    then show ?thesis unfolding object_back_def c(1) using c(2-4) assms(6)
      by (intro exI [of _ ?s1]) (simp add: put_conn_def same_but_def)
  next
    case False
    then have pos: "0 < int (length (lead @ body))" by (simp only: of_nat_0_less_iff length_greater_0_conv) simp
    have sub: "int (length (lead @ body)) - int (length lead) - 1000 = int (length body) - 1000" by simp
    have pre: "healthy (socks ?s1 sd)" "pending (socks ?s1 sd) = body @ later" "length (pbuf ?s1) = 1000" "willing (socks ?s1 (client_sd ?s1))"
      "sd \<noteq> client_sd ?s1" using assms c(3) by (simp_all add: put_conn_def)
    obtain s2 k where s2: "object_loop sd False path (int (length body) - 1000) 0 ?s1 = ret (int k - 1000, 0, s2)"
      "same_but ?s1 s2" "plocked s2 = plocked s" "pfiles s2 = pfiles s" "healthy (socks s2 sd)" "k \<le> 1000" "k \<le> length (pending (socks s2 sd))"
      "sent (socks s2 (client_sd s)) @ take k (pending (socks s2 sd)) = sent c @ body"
      "willing (socks s2 (client_sd s))" "rxq (socks s2 (client_sd s)) = rxq c" "sent (socks s2 sd) = sent (socks s sd)"
      using object_loop_relayed [OF pre, of path 0] assms(6) by (auto simp: put_conn_def)
    have cl: "client_sd s2 = client_sd s" "length (pbuf s2) = 1000" using s2(2) assms(3) by (simp_all add: same_but_def put_conn_def)
    obtain d where d: "dataReceiver sd (int k) s2 = ret (put_conn sd d s2\<lparr>pbuf := take k (pending (socks s2 sd)) @ drop k (pbuf s2)\<rparr>)"
      "sent d = sent (socks s2 sd)"
      using dataReceiver_total [OF s2(5,7)] s2(6) cl(2) by fastforce
    let ?s3 = "put_conn sd d s2\<lparr>pbuf := take k (pending (socks s2 sd)) @ drop k (pbuf s2)\<rparr>"
    have w: "willing (socks ?s3 (client_sd s))" "k \<le> length (pbuf ?s3)" using s2(7,9) assms(6) by (simp_all add: put_conn_def)
    obtain e where e: "dataSender (client_sd s) (int k) ?s3 = ret (put_conn (client_sd s) e ?s3)"
      "sent e = sent (socks ?s3 (client_sd s)) @ take k (pbuf ?s3)" "willing e" "rxq e = rxq (socks ?s3 (client_sd s))"
      using dataSender_total [OF w] by blast
    have cl3: "client_sd ?s3 = client_sd s" using cl(1) by (simp add: put_conn_def)
    have "object_back sd msg (int (length lead)) False path (int (length (lead @ body))) s = ret (put_conn (client_sd s) e ?s3)"
      unfolding object_back_def c(1) andthen_simps if_False prod.case if_P [OF pos] sub s2(1) Let_def diff_add_cancel d(1) cl3 by (rule e(1))
    moreover have "sent e = sent (socks s (client_sd s)) @ lead @ body"
      using e(2) s2(7,8) c(2) assms(6) by (simp add: put_conn_def)
    ultimately show ?thesis using e(3,4) d(2) s2(2-4,6,7,10,11) c(4) assms(3,6) cl
      by (intro exI [of _ "put_conn (client_sd s) e ?s3"]) (simp add: put_conn_def same_but_def)
  qed
qed

end
