(* ===== verification/ProxyService.thy ===== *)
theory ProxyService
  imports ProxyBack
begin

text \<open>
  The proxy's answers end to end: what one pass of its service loop does to the sockets and the cache when the object
  is fetched, when it is in the cache, and when nothing is cached, and the objects that break it.
\<close>

section \<open>What the two sides send\<close>

abbreviation LM_item :: string where "LM_item \<equiv> ''Last-Modified: ''"
abbreviation Date_item :: string where "Date_item \<equiv> ''Date: ''"
abbreviation CL_item :: string where "CL_item \<equiv> ''Content-Length: ''"

lemma reply_items:
  "no_cr LM_item" "no_cr Date_item" "no_cr CL_item" "LM_item \<noteq> []" "Date_item \<noteq> []" "CL_item \<noteq> []"
  by (simp_all add: no_cr_def)

text \<open>The time an answer gives its object, and an answer that the proxy keeps: a success with the length and the time of
  the object.\<close>

definition object_time :: "string list \<Rightarrow> string option" where
  "object_time ls = (case field ls LM_item of None \<Rightarrow> field ls Date_item | Some d \<Rightarrow> Some d)"

definition sized :: "string list \<Rightarrow> int \<Rightarrow> bool" where
  "sized ls n \<longleftrightarrow> (\<exists>v. field ls CL_item = Some v \<and> v \<noteq> [] \<and> length v < 10 \<and> atoi v = n)"

definition dated :: "string list \<Rightarrow> int \<Rightarrow> bool" where
  "dated ls t \<longleftrightarrow> (\<exists>d. object_time ls = Some d \<and> d \<noteq> [] \<and> length d < 50 \<and> http_time d = Some t)"

definition success :: "string \<Rightarrow> string list \<Rightarrow> bool" where
  "success first ls \<longleftrightarrow> text_ok first ls \<and> isItem (header first ls) (''200 OK'' @ CRLF)"

lemma into_field:
  assumes "no_cr item" "item \<noteq> []" "header_ok first ls" "field ls item = Some v" "v \<noteq> []" "length v < n"
  shows "into n (header first ls) (CRLF @ item) CRLF old = ret (Some v)"
  unfolding into_def getValue_header [OF assms(1-3)] using assms(4-6) by simp

lemma object_date_header:
  assumes "header_ok first ls" "dated ls t"
  shows "object_date (header first ls) = ret t"
proof -
  note i = isItem_header [OF reply_items(1,4) assms(1)] isItem_header [OF reply_items(2,5) assms(1)]
  from assms(2) obtain d where d: "object_time ls = Some d" "d \<noteq> []" "length d < 50" "http_time d = Some t" by (auto simp: dated_def)
  have "(if field ls LM_item \<noteq> None then into 50 (header first ls) (CRLF @ LM_item) CRLF (Some [])
      else if field ls Date_item \<noteq> None then into 50 (header first ls) (CRLF @ Date_item) CRLF (Some []) else halt (Exit 0)) = ret (Some d)"
    using d(1-3) into_field [OF reply_items(1,4) assms(1) _ d(2,3)] into_field [OF reply_items(2,5) assms(1) _ d(2,3)]
    by (auto simp: object_time_def split: option.splits)
  then show ?thesis unfolding object_date_def i using d(4) by (simp add: need_def)
qed

lemma reply_code: "(- 1 = (200 :: int)) = False" "((3 :: int) = 1) = False"
  by simp_all

lemma reply_two: "((2 :: int) = 1) = False"
  by simp

text \<open>The header file of an object.\<close>

abbreviation header_file :: "string \<Rightarrow> string" where
  "header_file n \<equiv> ''header/'' @ n @ ''.tmp''"

abbreviation object_file :: "string \<Rightarrow> string" where
  "object_file n \<equiv> ''cache/'' @ n"

text \<open>A browser's request on a connection: its header arrives and \<open>q\<close> is what follows.\<close>

definition asks :: "string \<Rightarrow> string \<Rightarrow> string list \<Rightarrow> rx list \<Rightarrow> rx list \<Rightarrow> bool" where
  "asks url version ls rx q \<longleftrightarrow> request_ok url version ls \<and> fields_ok ls \<and> text_ok (get_line url version) ls \<and> checkExtension url \<and>
     (\<exists>lead. length lead \<le> 1000 \<and> arrives (header (get_line url version) ls) lead rx q)"

lemma request_received:
  assumes "asks url version ls (rxq (socks s sd)) q" "length (pbuf s) = 1000"
  shows "\<exists>(lead :: byte list) buf. msgReceiver m sd s = ret (int (length lead), header (get_line url version) ls,
     put_conn sd (socks s sd\<lparr>rxq := q\<rparr>) s\<lparr>pbuf := buf\<rparr>) \<and> length buf = 1000"
proof -
  from assms(1) obtain lead where l: "length lead \<le> 1000" "text_ok (get_line url version) ls"
    "arrives (header (get_line url version) ls) lead (rxq (socks s sd)) q" by (auto simp: asks_def)
  from msgReceiver_header [OF l(2,3)] l(1) assms(2) obtain r where r: "msgReceiver m sd s = ret (int (length lead), header (get_line url version) ls,
    put_conn sd (socks s sd\<lparr>rxq := q\<rparr>) s\<lparr>pbuf := lead @ r\<rparr>)" "length lead + length r = length (pbuf s)" by fastforce
  moreover have "length (lead @ r) = 1000" using r(2) assms(2) by simp
  ultimately show ?thesis by blast
qed

section \<open>An object that is not in the cache\<close>

lemma header_in_new:
  assumes "\<not> plocked s" "file_c rt = Some n" "pfiles s (header_file n) = None" "msg \<noteq> []"
  shows "header_in msg rt s = ret (s\<lparr>pfiles := (pfiles s)(header_file n \<mapsto> (str_bytes msg, clock s))\<rparr>)"
proof -
  have "open_create (header_file n) (s\<lparr>plocked := True\<rparr>) = s\<lparr>plocked := True, pfiles := (pfiles s)(header_file n \<mapsto> ([], clock s))\<rparr>"
    using assms(3) by (simp add: open_create_def)
  moreover have "s\<lparr>pfiles := f, plocked := False\<rparr> = s\<lparr>pfiles := f\<rparr>" for f using assms(1) by (cases s) simp
  ultimately show ?thesis using assms(1,2,4)
    by (simp add: header_in_def lock_def header_path_def need_def Let_def unlock_def px_write_file_def)
qed

text \<open>The proxy's answer up to the object: the header has gone to the header file and to the browser.\<close>

lemma backToBrowser_object:
  assumes "header_ok first ls" "sized ls k" "willing (socks s (client_sd s))" "\<not> plocked s" "pfiles s (header_file n) = None" "file_c rt = Some n"
  shows "\<exists>c. backToBrowser 3 sd rt \<lparr>rp_cache = True, object = True, rp_status = - 1\<rparr> (header first ls) leading s =
      object_back sd (header first ls) leading True (object_file n) k
        (put_conn (client_sd s) c (s\<lparr>pfiles := (pfiles s)(header_file n \<mapsto> (str_bytes (header first ls), clock s))\<rparr>)) \<and>
    sent c = sent (socks s (client_sd s)) @ str_bytes (header first ls) \<and> willing c \<and> rxq c = rxq (socks s (client_sd s))"
proof -
  let ?h = "header first ls" and ?s1 = "s\<lparr>pfiles := (pfiles s)(header_file n \<mapsto> (str_bytes (header first ls), clock s))\<rparr>"
  have ne: "?h \<noteq> []" using field_lines_start [of ls] by (auto simp: header_def)
  note h = header_in_new [OF assms(4,6,5) ne]
  have cl: "client_sd ?s1 = client_sd s" by simp
  have "willing (socks ?s1 (client_sd s))" using assms(3) by simp
  from msgSender_total [OF this, of ?h] obtain c where
    m: "msgSender (client_sd s) ?h ?s1 = ret (put_conn (client_sd s) c ?s1)" "sent c = sent (socks s (client_sd s)) @ str_bytes ?h"
      "willing c" "rxq c = rxq (socks s (client_sd s))" by auto
  from assms(2) obtain v where v: "field ls CL_item = Some v" "v \<noteq> []" "length v < 10" "atoi v = k" by (auto simp: sized_def)
  have i: "isItem ?h (CRLF @ CL_item)" using v(1) isItem_header [OF reply_items(3,6) assms(1)] by simp
  note g = into_field [OF reply_items(3,6) assms(1) v(1-3), of None]
  have "backToBrowser 3 sd rt \<lparr>rp_cache = True, object = True, rp_status = - 1\<rparr> ?h leading s =
      object_back sd ?h leading True (object_file n) k (put_conn (client_sd s) c ?s1)"
    unfolding backToBrowser_def response.simps h m(1) andthen_simps
    using i by (simp only: cl h m(1) g need_def assms(6) cache_path_def v(4) andthen_simps option.case if_True not_True_eq_False if_False
      prod.case reply_code simp_thms)
  with m(2-4) show ?thesis by blast
qed

text \<open>A server's answer: an object of which at most 1000 bytes come with the header and at most 2000 behind it.\<close>

definition answers :: "string \<Rightarrow> string list \<Rightarrow> byte list \<Rightarrow> byte list \<Rightarrow> int \<Rightarrow> conn \<Rightarrow> bool" where
  "answers first ls lead body t c \<longleftrightarrow> success first ls \<and> sized ls (int (length (lead @ body))) \<and> dated ls t \<and>
     length lead \<le> 1000 \<and> length body \<le> 2000 \<and>
     (\<exists>later q. arrives (header first ls) lead (rxq c) q \<and> healthy (c\<lparr>rxq := q\<rparr>) \<and> rx_bytes q = body @ later)"

text \<open>A request for an object that is not cached up to the object that comes back.\<close>

lemma miss_start:
  assumes "asks url version ls (rxq (socks s (client_sd s))) q" "cache_name crypt url = ret n"
    and "field ls ''Host: '' = Some h" "host_ok h" "DNS getaddrinfo 3 select (client_index s) h ''80'' (tables s) = ret (sd, ts)" "sd \<noteq> - 1" "sd \<noteq> client_sd s"
    and "pfiles s (object_file n) = None" "pfiles s (header_file n) = None" "\<not> plocked s" "length (pbuf s) = 1000"
    and "willing (socks s (client_sd s))" "willing (socks s sd)" "answers first rls lead body t (socks s sd)"
  shows "\<exists>s4 w later. proxy_request crypt getaddrinfo select 3 s =
      andthen (object_back sd (header first rls) (int (length lead)) True (object_file n) (int (length (lead @ body))) s4) (\<lambda>s. ret (True, s)) \<and>
    same_but (s\<lparr>tables := ts\<rparr>) s4 \<and> \<not> plocked s4 \<and> pbuf s4 = lead @ w \<and>
    pfiles s4 = (pfiles s)(header_file n \<mapsto> (str_bytes (header first rls), clock s)) \<and>
    sent (socks s4 (client_sd s)) = sent (socks s (client_sd s)) @ str_bytes (header first rls) \<and>
    willing (socks s4 (client_sd s)) \<and> rxq (socks s4 (client_sd s)) = q \<and>
    healthy (socks s4 sd) \<and> pending (socks s4 sd) = body @ later \<and>
    sent (socks s4 sd) = sent (socks s sd) @ str_bytes (header (get_line url version) ls)"
proof -
  let ?h = "header (get_line url version) ls" and ?H = "header first rls"
  from assms(1) have a: "request_ok url version ls" "fields_ok ls" "checkExtension url" by (simp_all add: asks_def)
  have ok: "header_ok (get_line url version) ls" using a(1) by (simp add: request_ok_def)
  from request_received [OF assms(1,11), of 3] obtain ld :: "byte list" and buf where m1:
    "msgReceiver 3 (client_sd s) s = ret (int (length ld), ?h, put_conn (client_sd s) (socks s (client_sd s)\<lparr>rxq := q\<rparr>) s\<lparr>pbuf := buf\<rparr>)" "length buf = 1000"
    by blast
  let ?s0 = "put_conn (client_sd s) (socks s (client_sd s)\<lparr>rxq := q\<rparr>) s\<lparr>pbuf := buf\<rparr>"
  let ?s1 = "?s0\<lparr>tables := ts\<rparr>"
  have s0: "pfiles ?s0 = pfiles s" "client_index ?s0 = client_index s" "tables ?s0 = tables s" by (simp_all add: put_conn_def)
  have s1: "pfiles ?s1 = pfiles s" "client_sd ?s1 = client_sd s" "socks ?s1 sd = socks s sd" using assms(7) by (simp_all add: put_conn_def)
  from parseRequest_decides [OF a assms(2), of "pfiles s"] assms(8) obtain r where r:
    "parseRequest crypt (pfiles s) ?h 3 = ret r" "answer_of r = Forward 0" "extension r" "file_c r = Some n" by (auto simp: decision_def cache_path_def)
  have mo: "toServer r" "modified r = 0" using r(2) by (auto simp: answer_of_def split: if_splits)
  have f: "forwardToServer (DNS getaddrinfo 3 select (client_index s)) 3 r ?h (tables s) = ret (Some (sd, ?h), ts)"
    using host_port_header [OF ok assms(3,4)] assms(5,6) mo(2) by (simp add: forwardToServer_def revalidate_def)
  have "willing (socks ?s1 sd)" using assms(13) s1(3) by simp
  from msgSender_total [OF this, of ?h] obtain c where
    m2: "msgSender sd ?h ?s1 = ret (put_conn sd c ?s1)" "sent c = sent (socks s sd) @ str_bytes ?h" "rxq c = rxq (socks s sd)" unfolding s1(3) by blast
  let ?s2 = "put_conn sd c ?s1"
  from assms(14) obtain later q' where o: "success first rls" "sized rls (int (length (lead @ body)))"
    "length lead \<le> 1000" "arrives ?H lead (rxq (socks s sd)) q'" "healthy (socks s sd\<lparr>rxq := q'\<rparr>)" "rx_bytes q' = body @ later"
    unfolding answers_def by blast
  have s2: "socks ?s2 sd = c" "length (pbuf ?s2) = 1000" using m1(2) by (simp_all add: put_conn_def)
  have tx: "text_ok first rls" "header_ok first rls" using o(1) by (simp_all add: success_def text_ok_def)
  have "arrives ?H lead (rxq (socks ?s2 sd)) q'" "length lead \<le> length (pbuf ?s2)" "8 \<le> length (pbuf ?s2)" using o(3,4) s2 m2(3) by simp_all
  from msgReceiver_header [OF tx(1) this, of 3] obtain w where m3:
    "msgReceiver 3 sd ?s2 = ret (int (length lead), ?H, put_conn sd (c\<lparr>rxq := q'\<rparr>) ?s2\<lparr>pbuf := lead @ w\<rparr>)" "length lead + length w = 1000" unfolding s2 by blast
  let ?s3 = "put_conn sd (c\<lparr>rxq := q'\<rparr>) ?s2\<lparr>pbuf := lead @ w\<rparr>"
  have p: "parseResponse ?H r 3 = ret \<lparr>rp_cache = True, object = True, rp_status = - 1\<rparr>" using mo(1) r(3) o(1) by (simp add: parseResponse_def success_def)
  have "willing (socks ?s3 (client_sd ?s3))" "\<not> plocked ?s3" "pfiles ?s3 (header_file n) = None"
    using assms(7,9,10,12) by (simp_all add: put_conn_def willing_def)
  from backToBrowser_object [OF tx(2) o(2) this r(4), of sd "int (length lead)"] obtain e where
    b: "backToBrowser 3 sd r \<lparr>rp_cache = True, object = True, rp_status = - 1\<rparr> ?H (int (length lead)) ?s3 =
      object_back sd ?H (int (length lead)) True (object_file n) (int (length (lead @ body)))
        (put_conn (client_sd ?s3) e (?s3\<lparr>pfiles := (pfiles ?s3)(header_file n \<mapsto> (str_bytes ?H, clock ?s3))\<rparr>))"
    "sent e = sent (socks ?s3 (client_sd ?s3)) @ str_bytes ?H" "willing e" "rxq e = rxq (socks ?s3 (client_sd ?s3))" by blast
  let ?s4 = "put_conn (client_sd ?s3) e (?s3\<lparr>pfiles := (pfiles ?s3)(header_file n \<mapsto> (str_bytes ?H, clock ?s3))\<rparr>)"
  have run: "proxy_request crypt getaddrinfo select 3 s =
      andthen (object_back sd ?H (int (length lead)) True (object_file n) (int (length (lead @ body))) ?s4) (\<lambda>s. ret (True, s))"
    unfolding proxy_request_def m1(1) andthen_simps prod.case s0 r(1) f Let_def m2(1) option.case m3(1) p b(1) using mo(1) by simp
  show ?thesis
    by (intro exI [of _ ?s4] exI [of _ w] exI [of _ later] conjI run)
      (use assms(7,10,11) m2(2) m3(2) b(2-4) o(5,6) in \<open>simp_all add: put_conn_def same_but_def healthy_def pending_def\<close>)
qed

lemma miss_request:
  assumes "asks url version ls (rxq (socks s (client_sd s))) q" "cache_name crypt url = ret n"
    and "field ls ''Host: '' = Some h" "host_ok h" "DNS getaddrinfo 3 select (client_index s) h ''80'' (tables s) = ret (sd, ts)" "sd \<noteq> - 1" "sd \<noteq> client_sd s"
    and "pfiles s (object_file n) = None" "pfiles s (header_file n) = None" "\<not> plocked s" "length (pbuf s) = 1000"
    and "willing (socks s (client_sd s))" "willing (socks s sd)" "answers first rls lead body t (socks s sd)" "lead @ body \<noteq> []"
  shows "\<exists>s'. proxy_request crypt getaddrinfo select 3 s = ret (True, s') \<and> \<not> plocked s' \<and> same_but (s\<lparr>tables := ts\<rparr>) s' \<and>
    pfiles s' = (pfiles s)(header_file n \<mapsto> (str_bytes (header first rls), clock s), object_file n \<mapsto> (stored lead body, t)) \<and>
    sent (socks s' (client_sd s)) = sent (socks s (client_sd s)) @ str_bytes (header first rls) @ lead @ body \<and>
    willing (socks s' (client_sd s)) \<and> rxq (socks s' (client_sd s)) = q \<and>
    sent (socks s' sd) = sent (socks s sd) @ str_bytes (header (get_line url version) ls)"
proof -
  from assms(14) have o: "header_ok first rls" "dated rls t" "length body \<le> 2000" by (auto simp: answers_def success_def text_ok_def)
  from miss_start [where s = s and getaddrinfo = getaddrinfo and select = select, OF assms(1-14)] obtain s4 w later where
    s4: "proxy_request crypt getaddrinfo select 3 s = andthen (object_back sd (header first rls) (int (length lead)) True (object_file n) (int (length (lead @ body))) s4)
      (\<lambda>s. ret (True, s))" "same_but (s\<lparr>tables := ts\<rparr>) s4" "\<not> plocked s4" "pbuf s4 = lead @ w"
    "pfiles s4 = (pfiles s)(header_file n \<mapsto> (str_bytes (header first rls), clock s))"
    "sent (socks s4 (client_sd s)) = sent (socks s (client_sd s)) @ str_bytes (header first rls)"
    "willing (socks s4 (client_sd s))" "rxq (socks s4 (client_sd s)) = q" "healthy (socks s4 sd)" "pending (socks s4 sd) = body @ later"
    "sent (socks s4 sd) = sent (socks s sd) @ str_bytes (header (get_line url version) ls)" by blast
  have c: "client_sd s4 = client_sd s" "length (pbuf s4) = 1000" using s4(2) assms(11) by (simp_all add: same_but_def)
  have pre: "willing (socks s4 (client_sd s4))" "pfiles s4 (object_file n) = None" "sd \<noteq> client_sd s4"
    using s4(5,7) c(1) assms(7,8) by simp_all
  from object_back_stored [OF pre(1) s4(3) pre(2) s4(4) c(2) s4(9,10) o(3) assms(15) pre(3) object_date_header [OF o(1,2)]] obtain s' where
    s': "object_back sd (header first rls) (int (length lead)) True (object_file n) (int (length (lead @ body))) s4 = ret s'" "\<not> plocked s'" "same_but s4 s'"
    "pfiles s' = (pfiles s4)(object_file n \<mapsto> (stored lead body, t))" "sent (socks s' (client_sd s)) = sent (socks s4 (client_sd s)) @ lead @ body"
    "willing (socks s' (client_sd s))" "rxq (socks s' (client_sd s)) = rxq (socks s4 (client_sd s))" "sent (socks s' sd) = sent (socks s4 sd)"
    unfolding c(1) by blast
  show ?thesis
    by (intro exI [of _ s'] conjI) (use s' s4 same_but_trans [OF s4(2) s'(3)] in simp_all)
qed

section \<open>An object that is in the cache\<close>

text \<open>The lines of a stored header when it is sent again, and that they fit into the arrays.\<close>

definition refreshed :: "string list \<Rightarrow> int \<Rightarrow> string list" where
  "refreshed ls now = (case field ls Date_item of None \<Rightarrow> ls | Some u \<Rightarrow> set_field ls Date_item (http_date now))"

definition refreshable :: "string \<Rightarrow> string list \<Rightarrow> int \<Rightarrow> bool" where
  "refreshable first ls now \<longleftrightarrow> field ls Date_item \<noteq> Some [] \<and> edit_fits first ls Date_item (http_date now)"

lemma msgGenerator_stored:
  assumes "text_ok first ls" "pfiles s path = Some (str_bytes (header first ls), m)" "length (header first ls) < HEADER_MAX"
    and "refreshable first ls (clock s)" "\<not> plocked s"
  shows "msgGenerator path 200 s = ret (header first (refreshed ls (clock s)), s)"
proof -
  let ?h = "header first ls"
  have ok: "header_ok first ls" and nul: "CHR 0x00 \<notin> set ?h" using assms(1) by (simp_all add: text_ok_def)
  have c: "cstring (str_bytes ?h @ [0]) = ?h" unfolding cstring_append [OF nul] by (simp add: cstring_def cstr_def)
  have e: "(if isItem ?h (CRLF @ Date_item) then modifyValue ?h (CRLF @ Date_item) CRLF (http_date (clock s)) else ret ?h) =
      ret (header first (refreshed ls (clock s)))"
    using isItem_header [OF reply_items(2,5) ok] modifyValue_header [OF reply_items(2,5) ok, of _ "http_date (clock s)"] assms(4)
    by (auto simp: refreshed_def refreshable_def edit_fits_def not_le not_less)
  have u: "unlock (s\<lparr>plocked := True\<rparr>) = s" using assms(5) by (cases s) (simp add: unlock_def)
  have l: "lock s = ret (s\<lparr>plocked := True\<rparr>)" using assms(5) by (simp add: lock_def)
  have f: "pfiles (s\<lparr>plocked := True\<rparr>) path = Some (str_bytes ?h, m)" "clock (s\<lparr>plocked := True\<rparr>) = clock s" using assms(2) by simp_all
  have n: "\<not> HEADER_MAX \<le> length (str_bytes ?h)" using assms(3) by simp
  show ?thesis unfolding msgGenerator_def l andthen_simps f option.case prod.case Let_def c e u using n by simp
qed

lemma cache_out_small:
  assumes "pfiles s (object_file n) = Some (obj, t)" "length obj < 1000" "\<not> plocked s" "willing (socks s (client_sd s))" "length (pbuf s) = 1000"
  shows "\<exists>s'. cache_out (Some n) s = ret s' \<and> \<not> plocked s' \<and> same_but s s' \<and> pfiles s' = pfiles s \<and>
    sent (socks s' (client_sd s)) = sent (socks s (client_sd s)) @ obj \<and> willing (socks s' (client_sd s)) \<and>
    rxq (socks s' (client_sd s)) = rxq (socks s (client_sd s)) \<and> (\<forall>i. i \<noteq> client_sd s \<longrightarrow> socks s' i = socks s i)"
proof (cases "obj = []")
  case True
  with assms show ?thesis
    by (intro exI [of _ "unlock (s\<lparr>plocked := True\<rparr>)"]) (simp add: cache_out_def need_def cache_path_def lock_def unlock_def same_but_def)
next
  case False
  let ?b = "obj @ 0 # drop (Suc (length obj)) (pbuf s)" and ?s0 = "s\<lparr>plocked := True\<rparr>"
  have loop: "out_loop obj (int (length obj) - 1000) 0 ?s0 = ret (int (length obj) - 1000, 0, ?s0)"
    using assms(2) by (subst out_loop.simps) simp
  have b: "px_data_out obj 0 (int (length obj)) (pbuf s) = ret ?b"
    using assms(2,5) by (simp add: px_data_out_def blit_def aset_def list_update_append Cons_nth_drop_Suc [symmetric])
  let ?s1 = "?s0\<lparr>pbuf := ?b\<rparr>"
  have lb: "length ?b = 1000" using assms(2,5) by simp
  have w: "willing (socks ?s1 (client_sd s))" "length obj \<le> length (pbuf ?s1)" using assms(2,4) lb by simp_all
  from dataSender_total [OF w] obtain c where c: "dataSender (client_sd s) (int (length obj)) ?s1 = ret (put_conn (client_sd s) c ?s1)"
    "sent c = sent (socks s (client_sd s)) @ obj" "willing c" "rxq c = rxq (socks s (client_sd s))" by auto
  have "cache_out (Some n) s = ret (unlock (put_conn (client_sd s) c ?s1))"
    using assms(1,3) False loop b c(1) by (simp add: cache_out_def need_def cache_path_def lock_def)
  then show ?thesis using c(2-4) lb assms(5) by (simp add: unlock_def put_conn_def same_but_def)
qed

lemma cache_out_large:
  assumes "pfiles s (object_file n) = Some (obj, t)" "1000 \<le> length obj" "\<not> plocked s" "length (pbuf s) = 1000"
  shows "cache_out (Some n) s = halt OutOfBounds"
proof -
  have d: "px_data_out obj 0 1000 (pbuf s) = halt OutOfBounds"
    using assms(2,4) by (simp add: px_data_out_def blit_def aset_def)
  have "obj \<noteq> []" using assms(2) by auto
  moreover have "out_loop obj (int (length obj) - 1000) 0 (s\<lparr>plocked := True\<rparr>) =
      (if length obj = 1000 then ret (0, 0, s\<lparr>plocked := True\<rparr>) else halt OutOfBounds)"
    using assms(2) d by (subst out_loop.simps) simp
  ultimately show ?thesis using assms(1,3) d by (simp add: cache_out_def need_def cache_path_def lock_def)
qed

text \<open>A request that is answered from the cache up to the object, and one that finds the mutex locked.\<close>

lemma from_cache:
  assumes "asks url version ls (rxq (socks s (client_sd s))) q" "cache_name crypt url = ret n" "length (pbuf s) = 1000"
    and "pfiles s (object_file n) = Some (obj, t)" "decision (Some t) (request_date ls) (no_cache ls) = FromCache"
  shows "\<exists>buf r ld. proxy_request crypt getaddrinfo select 3 s =
      andthen (forwardToBrowser r (put_conn (client_sd s) (socks s (client_sd s)\<lparr>rxq := q\<rparr>) s\<lparr>pbuf := buf\<rparr>)) (\<lambda>s. ret (True, s)) \<and>
    length buf = 1000 \<and> file_c r = Some n \<and> status r = 200 \<and> \<not> toServer r \<and>
    parseRequest crypt (pfiles s) (header (get_line url version) ls) 3 = ret r \<and>
    msgReceiver 3 (client_sd s) s = ret (ld, header (get_line url version) ls, put_conn (client_sd s) (socks s (client_sd s)\<lparr>rxq := q\<rparr>) s\<lparr>pbuf := buf\<rparr>)"
proof -
  let ?h = "header (get_line url version) ls"
  from assms(1) have a: "request_ok url version ls" "fields_ok ls" "checkExtension url" by (simp_all add: asks_def)
  from request_received [OF assms(1,3), of 3] obtain ld :: "byte list" and buf where m1:
    "msgReceiver 3 (client_sd s) s = ret (int (length ld), ?h, put_conn (client_sd s) (socks s (client_sd s)\<lparr>rxq := q\<rparr>) s\<lparr>pbuf := buf\<rparr>)" "length buf = 1000"
    by blast
  have s1: "pfiles (put_conn (client_sd s) (socks s (client_sd s)\<lparr>rxq := q\<rparr>) s\<lparr>pbuf := buf\<rparr>) = pfiles s" by (simp add: put_conn_def)
  from parseRequest_decides [OF a assms(2), of "pfiles s"] assms(4,5) obtain r where r:
    "parseRequest crypt (pfiles s) ?h 3 = ret r" "answer_of r = FromCache" "file_c r = Some n" by (auto simp: cache_path_def)
  have mo: "\<not> toServer r" "status r = 200" using r(2) by (auto simp: answer_of_def split: if_splits)
  have "proxy_request crypt getaddrinfo select 3 s =
      andthen (forwardToBrowser r (put_conn (client_sd s) (socks s (client_sd s)\<lparr>rxq := q\<rparr>) s\<lparr>pbuf := buf\<rparr>)) (\<lambda>s. ret (True, s))"
    unfolding proxy_request_def m1(1) andthen_simps prod.case s1(1) r(1) using mo(1) by simp
  with m1 r(1,3) mo show ?thesis by blast
qed

lemma locked_request:
  assumes "asks url version ls (rxq (socks s (client_sd s))) q" "cache_name crypt url = ret n" "length (pbuf s) = 1000"
    and "pfiles s (object_file n) = Some (obj, t)" "decision (Some t) (request_date ls) (no_cache ls) = FromCache" "plocked s"
  shows "\<exists>ld s2 r. msgReceiver 3 (client_sd s) s = ret (ld, header (get_line url version) ls, s2) \<and> plocked s2 \<and>
    parseRequest crypt (pfiles s2) (header (get_line url version) ls) 3 = ret r \<and> \<not> toServer r \<and>
    lock s2 = None \<and> forwardToBrowser r s2 = None \<and> proxy_request crypt getaddrinfo select 3 s = None"
proof -
  from from_cache [where s = s, OF assms(1-5), of getaddrinfo select] obtain buf r ld where r: "proxy_request crypt getaddrinfo select 3 s =
      andthen (forwardToBrowser r (put_conn (client_sd s) (socks s (client_sd s)\<lparr>rxq := q\<rparr>) s\<lparr>pbuf := buf\<rparr>)) (\<lambda>s. ret (True, s))"
    "file_c r = Some n" "status r = 200" "\<not> toServer r" "parseRequest crypt (pfiles s) (header (get_line url version) ls) 3 = ret r"
    "msgReceiver 3 (client_sd s) s = ret (ld, header (get_line url version) ls, put_conn (client_sd s) (socks s (client_sd s)\<lparr>rxq := q\<rparr>) s\<lparr>pbuf := buf\<rparr>)"
    by blast
  let ?s2 = "put_conn (client_sd s) (socks s (client_sd s)\<lparr>rxq := q\<rparr>) s\<lparr>pbuf := buf\<rparr>"
  have l: "plocked ?s2" "pfiles ?s2 = pfiles s" using assms(6) by (simp_all add: put_conn_def)
  then have n: "lock ?s2 = None" by (simp add: lock_def)
  then have f: "forwardToBrowser r ?s2 = None" by (simp add: forwardToBrowser_def header_path_def need_def r(2,3) msgGenerator_def)
  then have "proxy_request crypt getaddrinfo select 3 s = None" unfolding r(1) by simp
  with l r(4-6) n f show ?thesis by (intro exI [of _ ld] exI [of _ ?s2] exI [of _ r]) simp
qed

lemma hit_start:
  assumes "asks url version ls (rxq (socks s (client_sd s))) q" "cache_name crypt url = ret n" "length (pbuf s) = 1000"
    and "pfiles s (object_file n) = Some (obj, t)" "decision (Some t) (request_date ls) (no_cache ls) = FromCache"
    and "pfiles s (header_file n) = Some (str_bytes (header first rls), m)" "text_ok first rls" "length (header first rls) < HEADER_MAX"
    and "refreshable first rls (clock s)" "\<not> plocked s" "willing (socks s (client_sd s))"
  shows "\<exists>s2. proxy_request crypt getaddrinfo select 3 s = andthen (cache_out (Some n) s2) (\<lambda>s. ret (True, s)) \<and>
    same_but s s2 \<and> \<not> plocked s2 \<and> pfiles s2 = pfiles s \<and> length (pbuf s2) = 1000 \<and>
    sent (socks s2 (client_sd s)) = sent (socks s (client_sd s)) @ str_bytes (header first (refreshed rls (clock s))) \<and>
    willing (socks s2 (client_sd s)) \<and> rxq (socks s2 (client_sd s)) = q \<and> (\<forall>i. i \<noteq> client_sd s \<longrightarrow> socks s2 i = socks s i)"
proof -
  let ?H = "header first (refreshed rls (clock s))"
  from from_cache [where s = s, OF assms(1-5), of getaddrinfo select] obtain buf r where r: "proxy_request crypt getaddrinfo select 3 s =
      andthen (forwardToBrowser r (put_conn (client_sd s) (socks s (client_sd s)\<lparr>rxq := q\<rparr>) s\<lparr>pbuf := buf\<rparr>)) (\<lambda>s. ret (True, s))"
    "length buf = 1000" "file_c r = Some n" "status r = 200" by blast
  let ?s1 = "put_conn (client_sd s) (socks s (client_sd s)\<lparr>rxq := q\<rparr>) s\<lparr>pbuf := buf\<rparr>"
  have s1: "pfiles ?s1 = pfiles s" "client_sd ?s1 = client_sd s" "clock ?s1 = clock s" "plocked ?s1 = plocked s" by (simp_all add: put_conn_def)
  have g: "msgGenerator (header_file n) 200 ?s1 = ret (?H, ?s1)"
    using msgGenerator_stored [of first rls ?s1 "header_file n" m] assms(6-10) by (simp add: s1)
  have w: "willing (socks ?s1 (client_sd ?s1))" using assms(11) by (simp add: put_conn_def willing_def)
  from msgSender_total [OF w, of ?H] obtain c where
    m2: "msgSender (client_sd ?s1) ?H ?s1 = ret (put_conn (client_sd s) c ?s1)" "sent c = sent (socks s (client_sd s)) @ str_bytes ?H" "rxq c = q" "willing c"
    unfolding s1 by (auto simp: put_conn_def)
  have "forwardToBrowser r ?s1 = cache_out (Some n) (put_conn (client_sd s) c ?s1)"
    unfolding forwardToBrowser_def header_path_def need_def r(3) option.case andthen_simps r(4) g prod.case m2(1) by simp
  then show ?thesis unfolding r(1)
    by (intro exI [of _ "put_conn (client_sd s) c ?s1"]) (use m2(2-4) r(2) assms(3,10) in \<open>simp add: put_conn_def same_but_def\<close>)
qed

lemma hit_request:
  assumes "asks url version ls (rxq (socks s (client_sd s))) q" "cache_name crypt url = ret n" "length (pbuf s) = 1000"
    and "pfiles s (object_file n) = Some (obj, t)" "decision (Some t) (request_date ls) (no_cache ls) = FromCache"
    and "pfiles s (header_file n) = Some (str_bytes (header first rls), m)" "text_ok first rls" "length (header first rls) < HEADER_MAX"
    and "refreshable first rls (clock s)" "\<not> plocked s" "willing (socks s (client_sd s))" "length obj < 1000"
  shows "\<exists>s'. proxy_request crypt getaddrinfo select 3 s = ret (True, s') \<and> \<not> plocked s' \<and> same_but s s' \<and> pfiles s' = pfiles s \<and>
    sent (socks s' (client_sd s)) = sent (socks s (client_sd s)) @ str_bytes (header first (refreshed rls (clock s))) @ obj \<and>
    willing (socks s' (client_sd s)) \<and> rxq (socks s' (client_sd s)) = q \<and> (\<forall>i. i \<noteq> client_sd s \<longrightarrow> socks s' i = socks s i)"
proof -
  from hit_start [where s = s and getaddrinfo = getaddrinfo and select = select, OF assms(1-11)] obtain s2 where
    s2: "proxy_request crypt getaddrinfo select 3 s = andthen (cache_out (Some n) s2) (\<lambda>s. ret (True, s))" "same_but s s2" "\<not> plocked s2" "pfiles s2 = pfiles s"
    "length (pbuf s2) = 1000" "sent (socks s2 (client_sd s)) = sent (socks s (client_sd s)) @ str_bytes (header first (refreshed rls (clock s)))"
    "willing (socks s2 (client_sd s))" "rxq (socks s2 (client_sd s)) = q" "\<forall>i. i \<noteq> client_sd s \<longrightarrow> socks s2 i = socks s i" by blast
  have c: "client_sd s2 = client_sd s" using s2(2) by (simp add: same_but_def)
  have pre: "pfiles s2 (object_file n) = Some (obj, t)" "willing (socks s2 (client_sd s2))" using assms(4) s2(4,7) c by simp_all
  from cache_out_small [OF pre(1) assms(12) s2(3) pre(2) s2(5)] obtain s' where s': "cache_out (Some n) s2 = ret s'" "\<not> plocked s'" "same_but s2 s'"
    "pfiles s' = pfiles s2" "sent (socks s' (client_sd s)) = sent (socks s2 (client_sd s)) @ obj" "willing (socks s' (client_sd s))"
    "rxq (socks s' (client_sd s)) = rxq (socks s2 (client_sd s))" "\<forall>i. i \<noteq> client_sd s \<longrightarrow> socks s' i = socks s2 i" unfolding c by blast
  show ?thesis
    by (intro exI [of _ s'] conjI) (use s' s2 same_but_trans [OF s2(2) s'(3)] in simp_all)
qed

section \<open>A connection of a browser\<close>

lemma msgReceiver_closed:
  assumes "rxq (socks s sd) = []"
  shows "msgReceiver m sd s = ret (if m > 1 then - 2 else - 1, [], s)"
proof -
  have "put_conn sd (socks s sd) s = s" by (simp add: put_conn_def)
  moreover have "msg_loop [] (socks s sd) = ret (False, [], socks s sd)"
    using assms by (subst msg_loop.simps) (simp add: conn_recv_def HEADER_MAX_def cstring_def cstr_def isItem_def)
  ultimately show ?thesis by (simp add: msgReceiver_def cstring_def cstr_def)
qed

lemma proxy_service_closed:
  assumes "rxq (socks s (client_sd s)) = []" "px_client_close 3 (client_index s) (client_sd s) (tables s) = ret t"
  shows "proxy_service crypt getaddrinfo select 3 s = ret (s\<lparr>tables := t\<rparr>)"
  by (subst proxy_service.simps) (simp add: proxy_request_def msgReceiver_closed [OF assms(1)] assms(2))

lemma proxy_service_step: "proxy_request crypt getaddrinfo select m s = ret (True, s') \<Longrightarrow>
    proxy_service crypt getaddrinfo select m s = proxy_service crypt getaddrinfo select m s'"
  by (subst proxy_service.simps) simp

lemma fetched_then_served:
  assumes "asks url version ls (rxq (socks s (client_sd s))) q" "asks url version' ls' q []" "cache_name crypt url = ret n"
    and "field ls ''Host: '' = Some h" "host_ok h" "DNS getaddrinfo 3 select (client_index s) h ''80'' (tables s) = ret (sd, ts)" "sd \<noteq> - 1" "sd \<noteq> client_sd s"
    and "pfiles s (object_file n) = None" "pfiles s (header_file n) = None" "\<not> plocked s" "length (pbuf s) = 1000"
    and "willing (socks s (client_sd s))" "willing (socks s sd)" "answers first rls lead body t (socks s sd)" "lead @ body \<noteq> []"
    and "length (stored lead body) < 1000" "decision (Some t) (request_date ls') (no_cache ls') = FromCache" "refreshable first rls (clock s)"
    and "client_index s = int c" "c < clients_MAX" "sets_ok ts"
  shows "\<exists>s'. proxy_service crypt getaddrinfo select 3 s = ret s' \<and> \<not> plocked s' \<and> answers_to_come (tables s') = answers_to_come ts \<and>
    pfiles s' = (pfiles s)(header_file n \<mapsto> (str_bytes (header first rls), clock s), object_file n \<mapsto> (stored lead body, t)) \<and>
    sent (socks s' (client_sd s)) = sent (socks s (client_sd s)) @ str_bytes (header first rls) @ (lead @ body) @
      str_bytes (header first (refreshed rls (clock s))) @ stored lead body \<and>
    sent (socks s' sd) = sent (socks s sd) @ str_bytes (header (get_line url version) ls)"
proof -
  from miss_request [where s = s and getaddrinfo = getaddrinfo and select = select, OF assms(1,3-16)] obtain s1 where s1: "proxy_request crypt getaddrinfo select 3 s = ret (True, s1)" "\<not> plocked s1" "same_but (s\<lparr>tables := ts\<rparr>) s1"
    "pfiles s1 = (pfiles s)(header_file n \<mapsto> (str_bytes (header first rls), clock s), object_file n \<mapsto> (stored lead body, t))"
    "sent (socks s1 (client_sd s)) = sent (socks s (client_sd s)) @ str_bytes (header first rls) @ lead @ body"
    "willing (socks s1 (client_sd s))" "rxq (socks s1 (client_sd s)) = q"
    "sent (socks s1 sd) = sent (socks s sd) @ str_bytes (header (get_line url version) ls)" by blast
  have f: "client_sd s1 = client_sd s" "clock s1 = clock s" "length (pbuf s1) = 1000" using s1(3) assms(12) by (simp_all add: same_but_def)
  have h: "text_ok first rls" "length (header first rls) < HEADER_MAX" using assms(15) by (auto simp: answers_def success_def arrives_def)
  have "asks url version' ls' (rxq (socks s1 (client_sd s1))) []" "pfiles s1 (object_file n) = Some (stored lead body, t)"
    "pfiles s1 (header_file n) = Some (str_bytes (header first rls), clock s)" "refreshable first rls (clock s1)" "willing (socks s1 (client_sd s1))"
    using assms(2,19) s1(4,6,7) f by simp_all
  from hit_request [where s = s1, OF this(1) assms(3) f(3) this(2) assms(18) this(3) h this(4) s1(2) this(5) assms(17), of getaddrinfo select] obtain s2 where
    s2: "proxy_request crypt getaddrinfo select 3 s1 = ret (True, s2)" "\<not> plocked s2" "same_but s1 s2" "pfiles s2 = pfiles s1"
    "sent (socks s2 (client_sd s)) = sent (socks s1 (client_sd s)) @ str_bytes (header first (refreshed rls (clock s))) @ stored lead body"
    "rxq (socks s2 (client_sd s)) = []" "\<forall>i. i \<noteq> client_sd s \<longrightarrow> socks s2 i = socks s1 i" unfolding f by blast
  have g: "client_sd s2 = client_sd s" "client_index s2 = int c" "tables s2 = ts" using s1(3) s2(3) assms(20) by (simp_all add: same_but_def)
  obtain t' where t': "px_client_close 3 (int c) (client_sd s) ts = ret t'" "answers_to_come t' = answers_to_come ts"
    using client_close_total [OF assms(22,21)] by blast
  have "proxy_service crypt getaddrinfo select 3 s2 = ret (s2\<lparr>tables := t'\<rparr>)" using s2(6) t'(1) g by (simp add: proxy_service_closed)
  then have "proxy_service crypt getaddrinfo select 3 s = ret (s2\<lparr>tables := t'\<rparr>)" by (simp add: proxy_service_step [OF s1(1)] proxy_service_step [OF s2(1)])
  moreover have "sent (socks s2 sd) = sent (socks s sd) @ str_bytes (header (get_line url version) ls)" using s2(7) assms(8) s1(8) by simp
  ultimately show ?thesis using s2(2,4,5) s1(4,5) t'(2) by simp
qed

lemma stored_whole: "length (lead @ body) < 1000 \<Longrightarrow> stored lead body = lead @ body"
  by (simp add: stored_def)

lemma stored_short: "1000 < length body \<Longrightarrow> length body < 2000 \<Longrightarrow> length (stored lead body) < length (lead @ body)"
  by (simp add: stored_def)

text \<open>An object without bytes leaves the mutex locked.\<close>

lemma empty_object:
  assumes "asks url version ls (rxq (socks s (client_sd s))) q" "cache_name crypt url = ret n"
    and "field ls ''Host: '' = Some h" "host_ok h" "DNS getaddrinfo 3 select (client_index s) h ''80'' (tables s) = ret (sd, ts)" "sd \<noteq> - 1" "sd \<noteq> client_sd s"
    and "pfiles s (object_file n) = None" "pfiles s (header_file n) = None" "\<not> plocked s" "length (pbuf s) = 1000"
    and "willing (socks s (client_sd s))" "willing (socks s sd)" "answers first rls [] [] t (socks s sd)"
  shows "\<exists>s' m. proxy_request crypt getaddrinfo select 3 s = ret (True, s') \<and> plocked s' \<and> same_but (s\<lparr>tables := ts\<rparr>) s' \<and>
    pfiles s' (object_file n) = Some ([], m) \<and> rxq (socks s' (client_sd s)) = q \<and>
    sent (socks s' (client_sd s)) = sent (socks s (client_sd s)) @ str_bytes (header first rls)"
proof -
  from miss_start [where s = s and getaddrinfo = getaddrinfo and select = select, OF assms(1-14)] obtain s4 w where
    s4: "proxy_request crypt getaddrinfo select 3 s = andthen (object_back sd (header first rls) (int (length ([] :: byte list))) True (object_file n) 0 s4) (\<lambda>s. ret (True, s))"
    "same_but (s\<lparr>tables := ts\<rparr>) s4" "\<not> plocked s4" "pbuf s4 = [] @ w" "pfiles s4 = (pfiles s)(header_file n \<mapsto> (str_bytes (header first rls), clock s))"
    "sent (socks s4 (client_sd s)) = sent (socks s (client_sd s)) @ str_bytes (header first rls)"
    "willing (socks s4 (client_sd s))" "rxq (socks s4 (client_sd s)) = q" by auto
  have c: "client_sd s4 = client_sd s" using s4(2) by (simp add: same_but_def)
  have pre: "willing (socks s4 (client_sd s4))" "pfiles s4 (object_file n) = None" using s4(5,7) c assms(8) by simp_all
  from object_start [OF pre(1) s4(3) pre(2) s4(4), of sd "header first rls" 0] obtain s' m where
    s': "object_back sd (header first rls) (int (length ([] :: byte list))) True (object_file n) 0 s4 = ret s'" "plocked s'" "same_but s4 s'"
    "pfiles s' = (pfiles s4)(object_file n \<mapsto> ([], m))" "sent (socks s' (client_sd s)) = sent (socks s4 (client_sd s))"
    "rxq (socks s' (client_sd s)) = rxq (socks s4 (client_sd s))" unfolding c by auto
  show ?thesis
    by (intro exI [of _ s'] exI [of _ m] conjI) (use s' s4 same_but_trans [OF s4(2) s'(3)] in simp_all)
qed

text \<open>The inputs of the examples: a browser on descriptor 3 that asks twice and a server on descriptor 5.\<close>

definition sample_reply :: "string \<Rightarrow> string list" where
  "sample_reply n = [CL_item @ n, Date_item @ http_date 784111777]"

abbreviation sample_get :: string where
  "sample_get \<equiv> header (get_line ''/a.html'' ''HTTP/1.1'') [''Host: h'']"

definition sample_state :: "string list \<Rightarrow> byte list \<Rightarrow> pstate" where
  "sample_state rls body = \<lparr>socks = (\<lambda>i.
       if i = 3 then \<lparr>rxq = [RxData (str_bytes sample_get), RxData (str_bytes sample_get)], txq = [], sent = []\<rparr>
       else \<lparr>rxq = [RxData (str_bytes (header ''HTTP/1.1 200 OK'' rls)), RxData (body @ [0])], txq = [TxAccept 10], sent = []\<rparr>),
     client_sd = 3, client_index = int 2, tables = tables_init [(5, 0)], pfiles = Map.empty, pbuf = replicate 1000 0, plocked = False, clock = 784111777\<rparr>"

lemma sample_numbers: "atoi ''3'' = 3" "atoi ''1200'' = 1200" "atoi ''0'' = 0" "atoi ''2500'' = 2500"
  by code_simp+

lemma one_segment: "msg \<noteq> [] \<Longrightarrow> length msg < HEADER_MAX \<Longrightarrow> arrives msg [] (RxData (str_bytes msg) # q) q"
  unfolding arrives_def by (intro exI [of _ "[]"] exI [of _ "str_bytes msg"]) (auto simp: str_bytes_def)

lemma sample_asks: "asks ''/a.html'' ''HTTP/1.1'' [''Host: h''] (RxData (str_bytes sample_get) # q) q"
proof -
  have "length sample_get < HEADER_MAX" "sample_get \<noteq> []" by (simp_all add: header_def get_line_def HEADER_MAX_def)
  from one_segment [OF this(2,1)] show ?thesis unfolding asks_def
    by (simp add: request_ok_def header_ok_def no_cr_def get_line_def fields_ok_def starts_def text_ok_def header_def checkExtension_def isItem_def)
      (intro exI [of _ "[]"], simp)
qed

lemma sample_reply_fields:
  "field (sample_reply n) CL_item = Some n" "field (sample_reply n) LM_item = None" "field (sample_reply n) Date_item = Some (http_date 784111777)"
  by (simp_all add: sample_reply_def starts_def)

lemma sample_reply_ok:
  assumes "length n < 10" "list_all (\<lambda>c. c \<in> set ''0123456789'') n"
  shows "text_ok ''HTTP/1.1 200 OK'' (sample_reply n)" "length (header ''HTTP/1.1 200 OK'' (sample_reply n)) < HEADER_MAX"
    "refreshable ''HTTP/1.1 200 OK'' (sample_reply n) 784111777"
proof -
  have d: "set n \<subseteq> set ''0123456789''" using assms(2) by (auto simp: list_all_iff)
  then show "text_ok ''HTTP/1.1 200 OK'' (sample_reply n)"
    by (auto simp: text_ok_def header_ok_def no_cr_def sample_reply_def sample_date header_def)
  show "length (header ''HTTP/1.1 200 OK'' (sample_reply n)) < HEADER_MAX"
    using assms(1) by (simp add: header_def sample_reply_def sample_date HEADER_MAX_def)
  show "refreshable ''HTTP/1.1 200 OK'' (sample_reply n) 784111777"
    unfolding refreshable_def edit_fits_def sample_reply_fields sample_date using assms(1)
    by (simp add: after_field_def HEADER_MAX_def header_def sample_reply_def starts_def sample_date)
qed

lemma sample_state_simps:
  "client_sd (sample_state rls body) = 3" "client_index (sample_state rls body) = int 2" "tables (sample_state rls body) = tables_init [(5, 0)]" "pfiles (sample_state rls body) = Map.empty" "\<not> plocked (sample_state rls body)"
  "clock (sample_state rls body) = 784111777" "length (pbuf (sample_state rls body)) = 1000" "willing (socks (sample_state rls body) i)"
  "sent (socks (sample_state rls body) i) = []"
  "rxq (socks (sample_state rls body) 3) = [RxData (str_bytes sample_get), RxData (str_bytes sample_get)]"
  "rxq (socks (sample_state rls body) 5) = [RxData (str_bytes (header ''HTTP/1.1 200 OK'' rls)), RxData (body @ [0])]"
  by (simp_all add: sample_state_def willing_def)

abbreviation sample_dns :: "string \<Rightarrow> string \<Rightarrow> (32 word \<times> 16 word) list option" where
  "sample_dns \<equiv> \<lambda>d p. Some [(1, 80)]"

abbreviation sample_select :: "int \<Rightarrow> int \<times> bool" where
  "sample_select \<equiv> \<lambda>sd. (0, False)"

lemma sample_connects:
  assumes "1 < m"
  obtains ts where "DNS sample_dns m sample_select (int 2) ''h'' ''80'' (tables_init [(5, 0)]) = ret (5, ts)" "sets_ok ts"
proof -
  have c: "2 < clients_MAX" by (simp add: clients_MAX_def)
  have a: "answers_to_come (tables_init [(5, 0)]) = [(5, 0)]" by (simp add: tables_init_def)
  have "sample_dns ''h'' ''80'' = Some [(1, 80)]" "(5 :: int) \<noteq> - 1" "(0 :: int) \<noteq> - 1" by simp_all
  from DNS_first [where getaddrinfo = sample_dns and domain = "''h''" and prt = "''80''" and select = sample_select,
      OF sets_ok_init c fresh_init(1) [OF c] fresh_init(2) assms this(1) a this(2,3)] that show ?thesis by blast
qed

lemma sample_plain:
  "request_date [''Host: h''] = None" "\<not> no_cache [''Host: h'']" "decision (Some t) (request_date [''Host: h'']) (no_cache [''Host: h'']) = FromCache"
  "field [''Host: h''] ''Host: '' = Some ''h''" "host_ok ''h''"
  by (simp_all add: starts_def request_date_def no_cache_def decision_def host_ok_def)

lemma sample_answers:
  assumes "n \<noteq> []" "length n < 10" "list_all (\<lambda>c. c \<in> set ''0123456789'') n" "atoi n = int (length body)" "length body \<le> 2000"
  shows "answers ''HTTP/1.1 200 OK'' (sample_reply n) [] body 784111777 (socks (sample_state (sample_reply n) body) 5)"
proof -
  let ?h = "header ''HTTP/1.1 200 OK'' (sample_reply n)"
  note t = sample_reply_ok [OF assms(2,3)]
  have i: "isItem ?h (''200 OK'' @ CRLF)" by (simp add: isItem_def header_def sample_reply_def)
  have ne: "?h \<noteq> []" by (simp add: header_def)
  have "http_time (http_date 784111777) = Some 784111777" by (simp add: http_time_date)
  then have dt: "dated (sample_reply n) 784111777" by (simp add: dated_def object_time_def sample_reply_fields) (simp add: sample_date)
  have "sized (sample_reply n) (int (length body))" using assms(1,2,4) by (simp add: sized_def sample_reply_fields)
  with t(1) i dt assms(5) one_segment [OF ne t(2)] show ?thesis
    unfolding answers_def by (intro conjI exI [of _ "[0]"] exI [of _ "[RxData (body @ [0])]"]) (simp_all add: success_def sample_state_simps healthy_def)
qed

section \<open>The second milestone\<close>

lemma relayed_request:
  assumes "text_ok first ls" "arrives (header first ls) ld (rxq (socks s (client_sd s))) q" "length ld \<le> 1000"
    and "field ls ''Host: '' = Some h" "host_ok h" "DNS getaddrinfo 2 select (client_index s) h ''80'' (tables s) = ret (sd, ts)" "sd \<noteq> - 1" "sd \<noteq> client_sd s" "length (pbuf s) = 1000"
    and "willing (socks s (client_sd s))" "willing (socks s sd)"
    and "text_ok rfirst rls" "arrives (header rfirst rls) lead (rxq (socks s sd)) q'" "length lead \<le> 1000"
    and "healthy (socks s sd\<lparr>rxq := q'\<rparr>)" "rx_bytes q' = body @ later" "sized rls (int (length (lead @ body)))"
  shows "\<exists>s'. proxy_request crypt getaddrinfo select 2 s = ret (True, s') \<and> same_but (s\<lparr>tables := ts\<rparr>) s' \<and> plocked s' = plocked s \<and> pfiles s' = pfiles s \<and>
    sent (socks s' (client_sd s)) = sent (socks s (client_sd s)) @ str_bytes (header rfirst rls) @ lead @ body \<and>
    willing (socks s' (client_sd s)) \<and> rxq (socks s' (client_sd s)) = q \<and>
    sent (socks s' sd) = sent (socks s sd) @ str_bytes (header first ls)"
proof -
  let ?h = "header first ls" and ?H = "header rfirst rls" and ?cl = "client_sd s"
    and ?r = "\<lparr>toServer = True, extension = False, status = - 1, modified = 0, lTime = None, file_c = None\<rparr>"
    and ?rp = "\<lparr>rp_cache = False, object = True, rp_status = - 1\<rparr>"
  have ok: "header_ok first ls" and rok: "header_ok rfirst rls" using assms(1,12) by (simp_all add: text_ok_def)
  obtain w where m1: "msgReceiver 2 ?cl s = ret (int (length ld), ?h, put_conn ?cl (socks s ?cl\<lparr>rxq := q\<rparr>) s\<lparr>pbuf := ld @ w\<rparr>)"
    "length ld + length w = 1000" using msgReceiver_header [OF assms(1,2), of 2] assms(3,9) by auto
  let ?s0 = "put_conn ?cl (socks s ?cl\<lparr>rxq := q\<rparr>) s\<lparr>pbuf := ld @ w\<rparr>"
  let ?s1 = "?s0\<lparr>tables := ts\<rparr>"
  have s0: "pfiles ?s0 = pfiles s" "client_index ?s0 = client_index s" "tables ?s0 = tables s" by (simp_all add: put_conn_def)
  have s1: "socks ?s1 sd = socks s sd" "pfiles ?s1 = pfiles s" using assms(8) by (simp_all add: put_conn_def)
  have f: "forwardToServer (DNS getaddrinfo 2 select (client_index s)) 2 ?r ?h (tables s) = ret (Some (sd, ?h), ts)"
    using host_port_header [OF ok assms(4,5)] assms(6,7) by (simp add: forwardToServer_def revalidate_def)
  have "willing (socks ?s1 sd)" using assms(11) s1(1) by simp
  from msgSender_total [OF this, of ?h] obtain c where
    m2: "msgSender sd ?h ?s1 = ret (put_conn sd c ?s1)" "sent c = sent (socks s sd) @ str_bytes ?h" "rxq c = rxq (socks s sd)" unfolding s1 by blast
  let ?s2 = "put_conn sd c ?s1"
  have s2: "socks ?s2 sd = c" "length (pbuf ?s2) = 1000" using m1(2) by (simp_all add: put_conn_def)
  have "arrives ?H lead (rxq (socks ?s2 sd)) q'" "length lead \<le> length (pbuf ?s2)" "8 \<le> length (pbuf ?s2)" using assms(13,14) s2 m2(3) by simp_all
  from msgReceiver_header [OF assms(12) this, of 2] obtain v where m3:
    "msgReceiver 2 sd ?s2 = ret (int (length lead), ?H, put_conn sd (c\<lparr>rxq := q'\<rparr>) ?s2\<lparr>pbuf := lead @ v\<rparr>)" "length lead + length v = 1000" unfolding s2 by blast
  let ?s3 = "put_conn sd (c\<lparr>rxq := q'\<rparr>) ?s2\<lparr>pbuf := lead @ v\<rparr>"
  have cl3: "client_sd ?s3 = ?cl" by (simp add: put_conn_def)
  have "willing (socks ?s3 ?cl)" using assms(8,10) by (simp add: put_conn_def willing_def)
  then have w3: "willing (socks ?s3 (client_sd ?s3))" unfolding cl3 .
  from msgSender_total [OF w3, of ?H] obtain e where m4: "msgSender (client_sd ?s3) ?H ?s3 = ret (put_conn ?cl e ?s3)"
    "sent e = sent (socks s ?cl) @ str_bytes ?H" "willing e" "rxq e = q" unfolding cl3 using assms(8) by (auto simp: put_conn_def)
  let ?s4 = "put_conn ?cl e ?s3"
  have pre: "willing (socks ?s4 (client_sd ?s4))" "pbuf ?s4 = lead @ v" "length (pbuf ?s4) = 1000" "healthy (socks ?s4 sd)"
    "pending (socks ?s4 sd) = body @ later" "sd \<noteq> client_sd ?s4"
    using m4(3) m3(2) assms(8,15,16) by (simp_all add: put_conn_def healthy_def pending_def)
  obtain s' where s': "object_back sd ?H (int (length lead)) False [] (int (length (lead @ body))) ?s4 = ret s'"
    "plocked s' = plocked s" "same_but (s\<lparr>tables := ts\<rparr>) s'" "pfiles s' = pfiles s" "sent (socks s' ?cl) = sent e @ lead @ body"
    "willing (socks s' ?cl)" "rxq (socks s' ?cl) = q" "sent (socks s' sd) = sent c"
    using object_back_relayed [OF pre, of ?H "[]"] assms(8,9) m3(2) m4(4) by (auto simp: put_conn_def same_but_def)
  have i: "isItem ?H (CRLF @ CL_item)" using assms(17) isItem_header [OF reply_items(3,6) rok] by (auto simp: sized_def)
  from assms(17) obtain z where z: "field rls CL_item = Some z" "z \<noteq> []" "length z < 10" "atoi z = int (length (lead @ body))" by (auto simp: sized_def)
  note g = into_field [OF reply_items(3,6) rok z(1-3), of None]
  have b: "backToBrowser 2 sd ?r ?rp ?H (int (length lead)) ?s3 = ret s'"
    unfolding backToBrowser_def response.simps using i
    by (simp only: m4(1) g need_def z(4) s'(1) andthen_simps option.case if_True if_False not_True_eq_False prod.case reply_code reply_two simp_thms)
  have p: "parseRequest crypt (pfiles s) ?h 2 = ret ?r" "parseResponse ?H ?r 2 = ret ?rp" by (simp_all add: parseRequest_def parseResponse_def)
  have "proxy_request crypt getaddrinfo select 2 s = ret (True, s')"
    unfolding proxy_request_def m1(1) andthen_simps prod.case s0 p(1) f Let_def m2(1) option.case m3(1) p(2) b by simp
  with s'(2-8) m2(2) m4(2) show ?thesis by (intro exI [of _ s']) simp
qed

section \<open>Properties\<close>

text \<open>C5: An object is fetched once: the browser asks for it twice on a connection and gets header and object twice, the
  second time with the present date; one connection to the server is opened and the server is asked once, and the cache holds the
  object, its time and its header.\<close>

theorem object_fetched_once:
  assumes "asks url version ls (rxq (socks s (client_sd s))) q" "asks url version' ls' q []" "cache_name crypt url = ret n"
    and "field ls ''Host: '' = Some h" "host_ok h" "getaddrinfo h ''80'' = Some ((a, p) # as)" "answers_to_come (tables s) = (sd, r) # cs"
    and "sd \<noteq> - 1" "r \<noteq> - 1" "sd \<noteq> client_sd s"
    and "client_index s = int c" "c < clients_MAX" "sets_ok (tables s)" "fresh (tables s) c" "countable_slots (tables s)"
    and "pfiles s (object_file n) = None" "pfiles s (header_file n) = None" "\<not> plocked s" "length (pbuf s) = 1000"
    and "willing (socks s (client_sd s))" "willing (socks s sd)" "answers first rls lead body t (socks s sd)"
    and "lead @ body \<noteq> []" "length (lead @ body) < 1000" "decision (Some t) (request_date ls') (no_cache ls') = FromCache" "refreshable first rls (clock s)"
  shows "\<exists>s'. proxy_service crypt getaddrinfo select 3 s = ret s' \<and> \<not> plocked s' \<and> answers_to_come (tables s') = cs \<and>
    pfiles s' = (pfiles s)(header_file n \<mapsto> (str_bytes (header first rls), clock s), object_file n \<mapsto> (lead @ body, t)) \<and>
    sent (socks s' (client_sd s)) = sent (socks s (client_sd s)) @ str_bytes (header first rls) @ (lead @ body) @
      str_bytes (header first (refreshed rls (clock s))) @ (lead @ body) \<and>
    sent (socks s' sd) = sent (socks s sd) @ str_bytes (header (get_line url version) ls)"
proof -
  have m: "(1 :: int) < 3" by simp
  from DNS_first [where getaddrinfo = getaddrinfo and select = select, OF assms(13,12,14,15) m assms(6-9)] obtain ts where
    ts: "DNS getaddrinfo 3 select (client_index s) h ''80'' (tables s) = ret (sd, ts)" "sets_ok ts" "answers_to_come ts = cs" using assms(11) by auto
  have "length (stored lead body) < 1000" using assms(24) stored_whole by simp
  from fetched_then_served [where s = s and getaddrinfo = getaddrinfo and select = select, OF assms(1-5) ts(1) assms(8,10,16-23) this assms(25,26,11,12) ts(2)]
  show ?thesis unfolding stored_whole [OF assms(24)] ts(3) by blast
qed

theorem object_fetched_once_witness:
  "\<exists>s'. proxy_service sample_crypt sample_dns sample_select 3 (sample_state (sample_reply ''3'') [1, 2, 3]) = ret s' \<and>
    sent (socks s' 5) = str_bytes sample_get \<and>
    pfiles s' (object_file (replicate 22 CHR ''x'')) = Some ([1, 2, 3], 784111777)"
proof -
  let ?s = "sample_state (sample_reply ''3'') [1, 2, 3]"
  have a: "answers ''HTTP/1.1 200 OK'' (sample_reply ''3'') [] [1, 2, 3] 784111777 (socks ?s 5)"
    using sample_answers [of "''3''" "[1, 2, 3]"] sample_numbers by simp
  have c: "2 < clients_MAX" and g: "sample_dns ''h'' ''80'' = Some [(1, 80)]" by (simp_all add: clients_MAX_def)
  have t: "answers_to_come (tables ?s) = [(5, 0)]" "sets_ok (tables ?s)" "fresh (tables ?s) 2" "countable_slots (tables ?s)"
    unfolding sample_state_simps using fresh_init(1) [OF c] fresh_init(2) sets_ok_init by (simp_all add: tables_init_def)
  have "\<exists>s'. proxy_service sample_crypt sample_dns sample_select 3 ?s = ret s' \<and> \<not> plocked s' \<and> answers_to_come (tables s') = [] \<and>
    pfiles s' = (pfiles ?s)(header_file (replicate 22 CHR ''x'') \<mapsto> (str_bytes (header ''HTTP/1.1 200 OK'' (sample_reply ''3'')), clock ?s),
      object_file (replicate 22 CHR ''x'') \<mapsto> ([] @ [1, 2, 3], 784111777)) \<and>
    sent (socks s' (client_sd ?s)) = sent (socks ?s (client_sd ?s)) @ str_bytes (header ''HTTP/1.1 200 OK'' (sample_reply ''3'')) @ ([] @ [1, 2, 3]) @
      str_bytes (header ''HTTP/1.1 200 OK'' (refreshed (sample_reply ''3'') (clock ?s))) @ ([] @ [1, 2, 3]) \<and>
    sent (socks s' 5) = sent (socks ?s 5) @ str_bytes sample_get"
    by (rule object_fetched_once [OF _ sample_asks sample_name sample_plain(4,5) g t(1) _ _ _ _ c t(2-4) _ _ _ _ _ _ a _ _ sample_plain(3)])
      (use sample_reply_ok(3) [of "''3''"] in \<open>simp_all add: sample_state_simps sample_asks\<close>)
  then show ?thesis by (auto simp: sample_state_simps)
qed

text \<open>C27: In the second milestone the proxy passes on the header and an object of any length unchanged, in the blocks it
  comes in, and touches no file.\<close>

theorem milestone2_relays:
  assumes "text_ok first ls" "arrives (header first ls) ld (rxq (socks s (client_sd s))) q" "length ld \<le> 1000"
    and "field ls ''Host: '' = Some h" "host_ok h" "DNS getaddrinfo 2 select (client_index s) h ''80'' (tables s) = ret (sd, ts)" "sd \<noteq> - 1" "sd \<noteq> client_sd s" "length (pbuf s) = 1000"
    and "willing (socks s (client_sd s))" "willing (socks s sd)"
    and "text_ok rfirst rls" "arrives (header rfirst rls) lead (rxq (socks s sd)) q'" "length lead \<le> 1000"
    and "healthy (socks s sd\<lparr>rxq := q'\<rparr>)" "rx_bytes q' = body @ later" "sized rls (int (length (lead @ body)))"
  shows "\<exists>s'. proxy_request crypt getaddrinfo select 2 s = ret (True, s') \<and> pfiles s' = pfiles s \<and> rxq (socks s' (client_sd s)) = q \<and>
    sent (socks s' (client_sd s)) = sent (socks s (client_sd s)) @ str_bytes (header rfirst rls) @ lead @ body \<and>
    sent (socks s' sd) = sent (socks s sd) @ str_bytes (header first ls)"
  using relayed_request [where s = s and getaddrinfo = getaddrinfo and select = select, OF assms] by blast

theorem milestone2_relays_witness:
  "\<exists>s'. proxy_request sample_crypt sample_dns sample_select 2 (sample_state (sample_reply ''2500'') (replicate 2500 7)) = ret (True, s') \<and>
    sent (socks s' 3) = str_bytes (header ''HTTP/1.1 200 OK'' (sample_reply ''2500'')) @ replicate 2500 7"
proof -
  let ?s = "sample_state (sample_reply ''2500'') (replicate 2500 7)" and ?H = "header ''HTTP/1.1 200 OK'' (sample_reply ''2500'')"
  obtain ts where ts: "DNS sample_dns 2 sample_select (client_index ?s) ''h'' ''80'' (tables ?s) = ret (5, ts)"
    using sample_connects [of 2] unfolding sample_state_simps by auto
  have t: "text_ok (get_line ''/a.html'' ''HTTP/1.1'') [''Host: h'']" using sample_asks by (simp add: asks_def)
  have a: "arrives sample_get [] (rxq (socks ?s (client_sd ?s))) [RxData (str_bytes sample_get)]"
    unfolding sample_state_simps by (rule one_segment) (simp_all add: header_def get_line_def HEADER_MAX_def)
  have b: "arrives ?H [] (rxq (socks ?s 5)) [RxData (replicate 2500 7 @ [0])]"
    unfolding sample_state_simps by (rule one_segment) (use sample_reply_ok(2) [of "''2500''"] in \<open>simp_all add: header_def\<close>)
  have z: "sized (sample_reply ''2500'') (int (length ([] @ replicate 2500 (7 :: byte))))"
    using sample_numbers(4) by (simp add: sized_def sample_reply_fields)
  have "\<exists>s'. proxy_request sample_crypt sample_dns sample_select 2 ?s = ret (True, s') \<and> pfiles s' = pfiles ?s \<and> rxq (socks s' (client_sd ?s)) = [RxData (str_bytes sample_get)] \<and>
    sent (socks s' (client_sd ?s)) = sent (socks ?s (client_sd ?s)) @ str_bytes ?H @ [] @ replicate 2500 7 \<and>
    sent (socks s' 5) = sent (socks ?s 5) @ str_bytes sample_get"
    by (rule milestone2_relays [OF t a _ sample_plain(4,5) ts _ _ _ _ _ _ b _ _ _ z, where later = "[0]"])
      (use sample_reply_ok(1) [of "''2500''"] in \<open>simp_all add: sample_state_simps healthy_def\<close>)
  then show ?thesis by (auto simp: sample_state_simps)
qed

text \<open>A cached object of 1000 bytes or more cannot be sent: the string is ended behind the array it is read into.\<close>

theorem large_cached_object_overruns:
  assumes "asks url version ls (rxq (socks s (client_sd s))) q" "cache_name crypt url = ret n" "length (pbuf s) = 1000"
    and "pfiles s (object_file n) = Some (obj, t)" "decision (Some t) (request_date ls) (no_cache ls) = FromCache"
    and "pfiles s (header_file n) = Some (str_bytes (header first rls), m)" "text_ok first rls" "length (header first rls) < HEADER_MAX"
    and "refreshable first rls (clock s)" "\<not> plocked s" "willing (socks s (client_sd s))" "1000 \<le> length obj"
  shows "proxy_request crypt getaddrinfo select 3 s = halt OutOfBounds"
proof -
  from hit_start [where s = s and getaddrinfo = getaddrinfo and select = select, OF assms(1-11)] obtain s2 where s2: "proxy_request crypt getaddrinfo select 3 s = andthen (cache_out (Some n) s2) (\<lambda>s. ret (True, s))"
    "pfiles s2 = pfiles s" "\<not> plocked s2" "length (pbuf s2) = 1000" by blast
  have "pfiles s2 (object_file n) = Some (obj, t)" using s2(2) assms(4) by simp
  from cache_out_large [OF this assms(12) s2(3,4)] show ?thesis unfolding s2(1) by simp
qed

theorem large_cached_object_overruns_witness:
  "proxy_request sample_crypt sample_dns sample_select 3 ((sample_state (sample_reply ''3'') [])\<lparr>pfiles :=
     [object_file (replicate 22 CHR ''x'') \<mapsto> (replicate 1000 1, 784111777),
      header_file (replicate 22 CHR ''x'') \<mapsto> (str_bytes (header ''HTTP/1.1 200 OK'' (sample_reply ''3'')), 784111777)]\<rparr>) = halt OutOfBounds"
  using sample_reply_ok [of "''3''"]
  by (intro large_cached_object_overruns [where n = "replicate 22 CHR ''x''" and obj = "replicate 1000 1" and t = 784111777 and m = 784111777 and
      first = "''HTTP/1.1 200 OK''" and rls = "sample_reply ''3''" and url = "''/a.html''" and version = "''HTTP/1.1''" and ls = "[''Host: h'']" and
      q = "[RxData (str_bytes sample_get)]"])
    (simp_all add: sample_name sample_state_simps sample_asks sample_plain decision_def)

text \<open>C39: An object of which between 1001 and 1999 bytes follow the segments of the header reaches the browser whole, but the cache keeps it
  without the bytes between its first \<open>length body - 1000\<close> and the end of the first block. The next request for it gets the shorter object
  behind a header with the full length when fewer than 1000 bytes were kept, and otherwise the service writes behind its buffer.\<close>

theorem large_object_kept_short:
  assumes "asks url version ls (rxq (socks s (client_sd s))) q" "asks url version' ls' q []" "cache_name crypt url = ret n"
    and "field ls ''Host: '' = Some h" "host_ok h" "DNS getaddrinfo 3 select (client_index s) h ''80'' (tables s) = ret (sd, ts)" "sd \<noteq> - 1" "sd \<noteq> client_sd s"
    and "pfiles s (object_file n) = None" "pfiles s (header_file n) = None" "\<not> plocked s" "length (pbuf s) = 1000"
    and "willing (socks s (client_sd s))" "willing (socks s sd)" "answers first rls lead body t (socks s sd)"
    and "1000 < length body" "length body < 2000"
    and "decision (Some t) (request_date ls') (no_cache ls') = FromCache" "refreshable first rls (clock s)"
    and "client_index s = int c" "c < clients_MAX" "sets_ok ts"
  shows "\<exists>s1 short. short = lead @ take (length body - 1000) body @ drop 1000 body \<and> length short < length (lead @ body) \<and>
    proxy_request crypt getaddrinfo select 3 s = ret (True, s1) \<and>
    sent (socks s1 (client_sd s)) = sent (socks s (client_sd s)) @ str_bytes (header first rls) @ lead @ body \<and>
    pfiles s1 = (pfiles s)(header_file n \<mapsto> (str_bytes (header first rls), clock s), object_file n \<mapsto> (short, t)) \<and>
    (if length short < 1000
     then \<exists>s'. proxy_service crypt getaddrinfo select 3 s = ret s' \<and> pfiles s' = pfiles s1 \<and>
       sent (socks s' (client_sd s)) = sent (socks s1 (client_sd s)) @ str_bytes (header first (refreshed rls (clock s))) @ short
     else proxy_service crypt getaddrinfo select 3 s = halt OutOfBounds)"
proof -
  let ?short = "stored lead body"
  have e: "?short = lead @ take (length body - 1000) body @ drop 1000 body" using assms(16) by (simp add: stored_def)
  have ne: "lead @ body \<noteq> []" using assms(16) by auto
  from miss_request [where s = s and getaddrinfo = getaddrinfo and select = select, OF assms(1,3-15) ne] obtain s1 where
    s1: "proxy_request crypt getaddrinfo select 3 s = ret (True, s1)" "\<not> plocked s1" "same_but (s\<lparr>tables := ts\<rparr>) s1"
      "pfiles s1 = (pfiles s)(header_file n \<mapsto> (str_bytes (header first rls), clock s), object_file n \<mapsto> (?short, t))"
      "sent (socks s1 (client_sd s)) = sent (socks s (client_sd s)) @ str_bytes (header first rls) @ lead @ body"
      "willing (socks s1 (client_sd s))" "rxq (socks s1 (client_sd s)) = q" by blast
  have second: "if length ?short < 1000
     then \<exists>s'. proxy_service crypt getaddrinfo select 3 s = ret s' \<and> pfiles s' = pfiles s1 \<and>
       sent (socks s' (client_sd s)) = sent (socks s1 (client_sd s)) @ str_bytes (header first (refreshed rls (clock s))) @ ?short
     else proxy_service crypt getaddrinfo select 3 s = halt OutOfBounds"
  proof (cases "length ?short < 1000")
    case True
    from fetched_then_served [where s = s and getaddrinfo = getaddrinfo and select = select, OF assms(1-15) ne True assms(18-22)] True s1(4,5)
    show ?thesis by auto
  next
    case False
    have f: "client_sd s1 = client_sd s" "clock s1 = clock s" "length (pbuf s1) = 1000" using s1(3) assms(12) by (simp_all add: same_but_def)
    have h: "text_ok first rls" "length (header first rls) < HEADER_MAX" using assms(15) by (auto simp: answers_def success_def arrives_def)
    have "asks url version' ls' (rxq (socks s1 (client_sd s1))) []" "pfiles s1 (object_file n) = Some (?short, t)"
      "pfiles s1 (header_file n) = Some (str_bytes (header first rls), clock s)" "refreshable first rls (clock s1)" "willing (socks s1 (client_sd s1))" "1000 \<le> length ?short"
      using assms(2,19) s1(4,6,7) f False by simp_all
    from large_cached_object_overruns [where s = s1, OF this(1) assms(3) f(3) this(2) assms(18) this(3) h this(4) s1(2) this(5,6), of getaddrinfo select] False
    show ?thesis by (simp only: proxy_service_step [OF s1(1)] if_False) (subst proxy_service.simps, simp)
  qed
  show ?thesis
    by (intro exI [of _ s1] exI [of _ ?short] conjI e stored_short [OF assms(16,17)] s1(1,4,5) second)
qed

theorem large_object_kept_short_witness:
  "\<exists>s' short. proxy_service sample_crypt sample_dns sample_select 3 (sample_state (sample_reply ''1200'') (replicate 1200 7)) = ret s' \<and>
    short = replicate 400 7 \<and>
    pfiles s' (object_file (replicate 22 CHR ''x'')) = Some (short, 784111777) \<and>
    sent (socks s' 3) = str_bytes (header ''HTTP/1.1 200 OK'' (sample_reply ''1200'')) @ replicate 1200 7 @
      str_bytes (header ''HTTP/1.1 200 OK'' (refreshed (sample_reply ''1200'') 784111777)) @ short"
proof -
  let ?b = "replicate 1200 7 :: byte list"
  let ?s = "sample_state (sample_reply ''1200'') ?b"
  obtain ts where ts: "DNS sample_dns 3 sample_select (client_index ?s) ''h'' ''80'' (tables ?s) = ret (5, ts)" "sets_ok ts"
    using sample_connects [of 3] unfolding sample_state_simps by auto
  have a: "answers ''HTTP/1.1 200 OK'' (sample_reply ''1200'') [] ?b 784111777 (socks ?s 5)"
    using sample_answers [of "''1200''" ?b] sample_numbers by simp
  let ?short = "[] @ take (length ?b - 1000) ?b @ drop 1000 ?b" and ?H = "header ''HTTP/1.1 200 OK'' (sample_reply ''1200'')"
  have "\<exists>s1 short. short = ?short \<and> length short < length ([] @ ?b) \<and> proxy_request sample_crypt sample_dns sample_select 3 ?s = ret (True, s1) \<and>
    sent (socks s1 (client_sd ?s)) = sent (socks ?s (client_sd ?s)) @ str_bytes ?H @ [] @ ?b \<and>
    pfiles s1 = (pfiles ?s)(header_file (replicate 22 CHR ''x'') \<mapsto> (str_bytes ?H, clock ?s), object_file (replicate 22 CHR ''x'') \<mapsto> (short, 784111777)) \<and>
    (if length short < 1000
     then \<exists>s'. proxy_service sample_crypt sample_dns sample_select 3 ?s = ret s' \<and> pfiles s' = pfiles s1 \<and>
       sent (socks s' (client_sd ?s)) = sent (socks s1 (client_sd ?s)) @ str_bytes (header ''HTTP/1.1 200 OK'' (refreshed (sample_reply ''1200'') (clock ?s))) @ short
     else proxy_service sample_crypt sample_dns sample_select 3 ?s = halt OutOfBounds)"
    by (rule large_object_kept_short [where version = "''HTTP/1.1''", OF _ sample_asks sample_name sample_plain(4,5) ts(1) _ _ _ _ _ _ _ _ a _ _ sample_plain(3) _ _ _ ts(2), where c = 2])
      (use sample_reply_ok(3) [of "''1200''"] in \<open>simp_all add: sample_state_simps sample_asks clients_MAX_def\<close>)
  moreover have "?short = replicate 400 7" by (simp add: replicate_add [symmetric])
  ultimately show ?thesis unfolding sample_state_simps by (fastforce simp: replicate_add [symmetric])
qed

text \<open>C40: An empty object that is to be cached ends the service. The first request for it returns, with its header sent to the browser and an
  empty file in the cache, but with the mutex of the directory still locked; the header of the next request for the object is received, the
  decision is to answer from the cache, and the answer waits for the mutex that nobody will release, so the service never returns.\<close>

theorem empty_object_deadlocks:
  assumes "asks url version ls (rxq (socks s (client_sd s))) q" "asks url version' ls' q q'" "cache_name crypt url = ret n"
    and "field ls ''Host: '' = Some h" "host_ok h" "DNS getaddrinfo 3 select (client_index s) h ''80'' (tables s) = ret (sd, ts)" "sd \<noteq> - 1" "sd \<noteq> client_sd s"
    and "pfiles s (object_file n) = None" "pfiles s (header_file n) = None" "\<not> plocked s" "length (pbuf s) = 1000"
    and "willing (socks s (client_sd s))" "willing (socks s sd)" "answers first rls [] [] t (socks s sd)"
    and "request_date ls' = None" "\<not> no_cache ls'"
  shows "\<exists>s1 m ld s2 r. proxy_request crypt getaddrinfo select 3 s = ret (True, s1) \<and> plocked s1 \<and> pfiles s1 (object_file n) = Some ([], m) \<and>
    sent (socks s1 (client_sd s)) = sent (socks s (client_sd s)) @ str_bytes (header first rls) \<and>
    msgReceiver 3 (client_sd s) s1 = ret (ld, header (get_line url version') ls', s2) \<and> plocked s2 \<and>
    parseRequest crypt (pfiles s2) (header (get_line url version') ls') 3 = ret r \<and> \<not> toServer r \<and>
    lock s2 = None \<and> forwardToBrowser r s2 = None \<and>
    proxy_request crypt getaddrinfo select 3 s1 = None \<and> proxy_service crypt getaddrinfo select 3 s = None"
proof -
  from empty_object [where s = s and getaddrinfo = getaddrinfo and select = select, OF assms(1,3-15)] obtain s1 m where
    s1: "proxy_request crypt getaddrinfo select 3 s = ret (True, s1)" "plocked s1" "same_but (s\<lparr>tables := ts\<rparr>) s1"
      "pfiles s1 (object_file n) = Some ([], m)" "rxq (socks s1 (client_sd s)) = q"
      "sent (socks s1 (client_sd s)) = sent (socks s (client_sd s)) @ str_bytes (header first rls)" by blast
  have c: "client_sd s1 = client_sd s" using s1(3) by (simp add: same_but_def)
  have "asks url version' ls' (rxq (socks s1 (client_sd s1))) q'" "length (pbuf s1) = 1000" "decision (Some m) (request_date ls') (no_cache ls') = FromCache"
    using assms(2,12,16,17) s1(3,5) by (simp_all add: same_but_def decision_def)
  from locked_request [where s = s1, OF this(1) assms(3) this(2) s1(4) this(3) s1(2), of getaddrinfo select] obtain ld s2 r where
    s2: "msgReceiver 3 (client_sd s) s1 = ret (ld, header (get_line url version') ls', s2)" "plocked s2"
      "parseRequest crypt (pfiles s2) (header (get_line url version') ls') 3 = ret r" "\<not> toServer r"
      "lock s2 = None" "forwardToBrowser r s2 = None" "proxy_request crypt getaddrinfo select 3 s1 = None" unfolding c by blast
  have "proxy_service crypt getaddrinfo select 3 s = None"
    by (subst proxy_service_step [OF s1(1)], subst proxy_service.simps) (simp add: s2(7))
  with s1(1,2,4,6) s2 show ?thesis by blast
qed

theorem empty_object_deadlocks_witness:
  "\<exists>s1. proxy_request sample_crypt sample_dns sample_select 3 (sample_state (sample_reply ''0'') []) = ret (True, s1) \<and> plocked s1 \<and>
    proxy_request sample_crypt sample_dns sample_select 3 s1 = None \<and>
    proxy_service sample_crypt sample_dns sample_select 3 (sample_state (sample_reply ''0'') []) = None"
proof -
  let ?s = "sample_state (sample_reply ''0'') []"
  obtain ts where ts: "DNS sample_dns 3 sample_select (client_index ?s) ''h'' ''80'' (tables ?s) = ret (5, ts)"
    using sample_connects [of 3] unfolding sample_state_simps by auto
  have a: "answers ''HTTP/1.1 200 OK'' (sample_reply ''0'') [] [] 784111777 (socks ?s 5)"
    using sample_answers [of "''0''" "[]"] sample_numbers by simp
  have rx: "asks ''/a.html'' ''HTTP/1.1'' [''Host: h''] (rxq (socks ?s (client_sd ?s))) [RxData (str_bytes sample_get)]"
    by (simp add: sample_state_simps sample_asks)
  from empty_object_deadlocks [where s = ?s and getaddrinfo = sample_dns and select = sample_select,
      OF rx sample_asks sample_name sample_plain(4,5) ts _ _ _ _ _ _ _ _ a sample_plain(1,2)]
  show ?thesis by (auto simp: sample_state_simps)
qed

end
