(* ===== verification/RingBuffer.thy ===== *)
theory RingBuffer
  imports CText
begin

text \<open>
  A producer and a consumer over a ring of ten cells (\<open>pthread_producer_consumer.c\<close> of the shell course). The queue is an interface
  (locale \<open>bounded_queue\<close>) that the ring implements; the two threads are a transition system over the critical sections of the mutex.
\<close>

section \<open>The ring\<close>

definition N :: nat where "N = 10"

record ring =
  head :: nat
  tail :: nat
  buffer :: "int list"

definition NEXT_SLOT :: "nat \<Rightarrow> nat" where
  "NEXT_SLOT X = (X + 1) mod N"

definition IS_FULL :: "ring \<Rightarrow> bool" where
  "IS_FULL s \<longleftrightarrow> NEXT_SLOT (tail s) = head s"

definition IS_EMPTY :: "ring \<Rightarrow> bool" where
  "IS_EMPTY s \<longleftrightarrow> tail s = head s"

definition insert_item :: "int \<Rightarrow> ring \<Rightarrow> ring" where
  "insert_item item s = s\<lparr>buffer := (buffer s)[tail s := item], tail := NEXT_SLOT (tail s)\<rparr>"

definition remove_item :: "ring \<Rightarrow> int \<times> ring" where
  "remove_item s = (buffer s ! head s, s\<lparr>head := NEXT_SLOT (head s)\<rparr>)"

section \<open>The drawing routine\<close>

definition PRODUCER_TURN :: nat where "PRODUCER_TURN = 0"
definition CONSUMER_TURN :: nat where "CONSUMER_TURN = 1"

definition print_char :: "int \<Rightarrow> string" where
  "print_char c = [char_of (nat (c mod 256))]"

definition drawn_cell :: "int \<Rightarrow> string" where
  "drawn_cell c = (if c = - 1 then ''[ ]'' else ''['' @ print_char c @ '']'')"

text \<open>The loop from \<open>head\<close> to \<open>tail\<close> ends only when it meets \<open>tail\<close>.\<close>

partial_function (option) slot_loop :: "nat \<Rightarrow> ring \<Rightarrow> nat \<Rightarrow> string \<Rightarrow> (nat \<times> string) option" where
  "slot_loop i s count buf =
     (if i \<noteq> tail s then slot_loop (NEXT_SLOT i) s (Suc count) (buf @ ''| '' @ print_char (buffer s ! i) @ '' '')
      else Some (count, buf))"

definition drawing :: "nat \<Rightarrow> int \<Rightarrow> ring \<Rightarrow> string run" where
  "drawing turn item s =
     (let last_produce = (if turn = PRODUCER_TURN then item else - 1); last_consume = (if turn = CONSUMER_TURN then item else - 1)
      in case slot_loop (head s) s 0 (drawn_cell last_consume @ ''<---'') of None \<Rightarrow> None
         | Some (count, buf) \<Rightarrow>
             ret (buf @ concat (replicate (N - 1 - count) ''|   '') @ ''|'' @ ''<---'' @ drawn_cell last_produce @ [CHR 0x0A]))"

section \<open>The threads\<close>

text \<open>A thread is outside of its critical section or in \<open>pthread_cond_wait\<close>. \<open>full_sig\<close> and \<open>empty_sig\<close> are signals that a waiting
  thread has not taken yet; a signal with nobody waiting is lost. \<open>produced\<close> and \<open>consumed\<close> record the items.\<close>

datatype thread_at = Outside | InWait

record prodcons =
  queue :: ring
  producer_at :: thread_at
  consumer_at :: thread_at
  full_sig :: bool
  empty_sig :: bool
  produced :: "int list"
  consumed :: "int list"
  screen :: "string list"

definition pc_init :: prodcons where
  "pc_init = \<lparr>queue = \<lparr>head = 0, tail = 0, buffer = replicate N 0\<rparr>, producer_at = Outside, consumer_at = Outside,
     full_sig = False, empty_sig = False, produced = [], consumed = [], screen = []\<rparr>"

text \<open>What a producer does once it does not wait any more; \<open>r\<close> is the random number.\<close>

definition produce :: "nat \<Rightarrow> prodcons \<Rightarrow> prodcons run" where
  "produce r s =
     (let s = (if IS_EMPTY (queue s) then s\<lparr>empty_sig := empty_sig s \<or> consumer_at s = InWait\<rparr> else s);
          item = int (r mod 26) + 65;
          q = insert_item item (queue s)
      in andthen (drawing PRODUCER_TURN item q) (\<lambda>text.
         ret (s\<lparr>queue := q, producer_at := Outside, produced := produced s @ [item], screen := screen s @ [text]\<rparr>)))"

definition producer :: "nat \<Rightarrow> prodcons \<Rightarrow> prodcons run" where
  "producer r s = (if IS_FULL (queue s) then ret (s\<lparr>producer_at := InWait\<rparr>) else produce r s)"

definition consume :: "prodcons \<Rightarrow> prodcons run" where
  "consume s =
     (let s = (if IS_FULL (queue s) then s\<lparr>full_sig := full_sig s \<or> producer_at s = InWait\<rparr> else s);
          (item, q) = remove_item (queue s)
      in andthen (drawing CONSUMER_TURN item q) (\<lambda>text.
         ret (s\<lparr>queue := q, consumer_at := Outside, consumed := consumed s @ [item], screen := screen s @ [text]\<rparr>)))"

definition consumer :: "prodcons \<Rightarrow> prodcons run" where
  "consumer s = (if IS_EMPTY (queue s) then ret (s\<lparr>consumer_at := InWait\<rparr>) else consume s)"

text \<open>A thread that waits goes on when it was signalled; \<open>spurious\<close> says whether it may also do so without a signal, as POSIX allows.
  The test is not repeated.\<close>

inductive pc_step :: "bool \<Rightarrow> prodcons \<Rightarrow> prodcons \<Rightarrow> bool" for spurious where
  produce: "producer_at s = Outside \<Longrightarrow> producer r s = ret s' \<Longrightarrow> pc_step spurious s s'"
| produce_woken: "producer_at s = InWait \<Longrightarrow> full_sig s \<or> spurious \<Longrightarrow> produce r (s\<lparr>full_sig := False\<rparr>) = ret s' \<Longrightarrow> pc_step spurious s s'"
| consume: "consumer_at s = Outside \<Longrightarrow> consumer s = ret s' \<Longrightarrow> pc_step spurious s s'"
| consume_woken: "consumer_at s = InWait \<Longrightarrow> empty_sig s \<or> spurious \<Longrightarrow> consume (s\<lparr>empty_sig := False\<rparr>) = ret s' \<Longrightarrow> pc_step spurious s s'"

section \<open>A bounded queue\<close>

text \<open>What the threads need of the buffer between them.\<close>

locale bounded_queue =
  fixes ok :: "'q \<Rightarrow> bool"
    and items :: "'q \<Rightarrow> 'x list"
    and cap :: nat
    and is_full :: "'q \<Rightarrow> bool"
    and is_empty :: "'q \<Rightarrow> bool"
    and put :: "'x \<Rightarrow> 'q \<Rightarrow> 'q"
    and get :: "'q \<Rightarrow> 'x \<times> 'q"
  assumes bounded: "ok q \<Longrightarrow> length (items q) \<le> cap"
    and full_iff: "ok q \<Longrightarrow> is_full q \<longleftrightarrow> length (items q) = cap"
    and empty_iff: "ok q \<Longrightarrow> is_empty q \<longleftrightarrow> items q = []"
    and cap_pos: "0 < cap"
    and put_ok: "ok q \<Longrightarrow> \<not> is_full q \<Longrightarrow> ok (put x q) \<and> items (put x q) = items q @ [x]"
    and get_ok: "ok q \<Longrightarrow> \<not> is_empty q \<Longrightarrow> ok (snd (get q)) \<and> items q = fst (get q) # items (snd (get q))"
begin

lemma not_both: "ok q \<Longrightarrow> \<not> (is_full q \<and> is_empty q)"
  using full_iff empty_iff cap_pos by fastforce

lemma put_not_empty: "ok q \<Longrightarrow> \<not> is_full q \<Longrightarrow> \<not> is_empty (put x q)"
  using put_ok empty_iff by fastforce

lemma get_not_full: "ok q \<Longrightarrow> \<not> is_empty q \<Longrightarrow> \<not> is_full (snd (get q))"
  using get_ok [of q] bounded [of q] full_iff [of "snd (get q)"] by auto

lemma put_history: "ok q \<Longrightarrow> \<not> is_full q \<Longrightarrow> ps = cs @ items q \<Longrightarrow> ps @ [x] = cs @ items (put x q)"
  using put_ok by simp

lemma get_history: "ok q \<Longrightarrow> \<not> is_empty q \<Longrightarrow> ps = cs @ items q \<Longrightarrow> ps = (cs @ [fst (get q)]) @ items (snd (get q))"
  using get_ok by simp

end

section \<open>The ring is a bounded queue\<close>

definition ring_ok :: "ring \<Rightarrow> bool" where
  "ring_ok s \<longleftrightarrow> head s < N \<and> tail s < N \<and> length (buffer s) = N"

definition used :: "ring \<Rightarrow> nat" where
  "used s = (tail s + N - head s) mod N"

definition ring_items :: "ring \<Rightarrow> int list" where
  "ring_items s = map (\<lambda>k. buffer s ! ((head s + k) mod N)) [0..<used s]"

lemma mod_N: "x < 2 * N \<Longrightarrow> x mod N = (if x < N then x else x - N)"
  by (simp add: mod_if)

lemma next_slot: "x < N \<Longrightarrow> NEXT_SLOT x = (if x = 9 then 0 else Suc x)"
  by (auto simp: NEXT_SLOT_def N_def)

lemma used_cases: "ring_ok s \<Longrightarrow> used s = (if head s \<le> tail s then tail s - head s else tail s + N - head s)"
  by (auto simp: ring_ok_def used_def mod_N)

lemma used_bounded: "used s \<le> 9"
  using mod_less_divisor [of N "tail s + N - head s"] by (simp add: used_def N_def)

lemma used_full: "ring_ok s \<Longrightarrow> IS_FULL s \<longleftrightarrow> used s = 9"
  by (auto simp: used_cases IS_FULL_def next_slot ring_ok_def N_def)

lemma used_empty: "ring_ok s \<Longrightarrow> IS_EMPTY s \<longleftrightarrow> used s = 0"
  by (auto simp: used_cases IS_EMPTY_def ring_ok_def N_def)

lemma slot_cases: "ring_ok s \<Longrightarrow> k < N \<Longrightarrow> (head s + k) mod N = (if head s + k < N then head s + k else head s + k - N)"
  by (simp add: ring_ok_def mod_N)

lemma tail_used: "ring_ok s \<Longrightarrow> (head s + used s) mod N = tail s"
  using used_bounded [of s] by (subst slot_cases) (auto simp: used_cases ring_ok_def N_def split: if_splits)

lemma cells_apart: "ring_ok s \<Longrightarrow> k < used s \<Longrightarrow> (head s + k) mod N \<noteq> tail s"
  using used_bounded [of s] by (subst slot_cases) (auto simp: used_cases ring_ok_def N_def split: if_splits)

lemma insert_item_ok: "ring_ok s \<Longrightarrow> ring_ok (insert_item x s)"
  by (simp add: ring_ok_def insert_item_def NEXT_SLOT_def N_def)

lemma remove_item_ok: "ring_ok s \<Longrightarrow> ring_ok (snd (remove_item s))"
  by (simp add: ring_ok_def remove_item_def NEXT_SLOT_def N_def)

lemma used_insert: "ring_ok s \<Longrightarrow> \<not> IS_FULL s \<Longrightarrow> used (insert_item x s) = Suc (used s)"
  by (auto simp: used_cases insert_item_ok IS_FULL_def insert_item_def next_slot ring_ok_def N_def)

lemma used_remove: "ring_ok s \<Longrightarrow> \<not> IS_EMPTY s \<Longrightarrow> used s = Suc (used (snd (remove_item s)))"
  by (auto simp: used_cases remove_item_ok IS_EMPTY_def remove_item_def next_slot ring_ok_def N_def)

lemma insert_item_items:
  assumes "ring_ok s" "\<not> IS_FULL s"
  shows "ring_items (insert_item x s) = ring_items s @ [x]"
proof -
  have l: "length (buffer s) = N" "tail s < N" using assms(1) by (simp_all add: ring_ok_def)
  have "buffer (insert_item x s) ! ((head s + k) mod N) = buffer s ! ((head s + k) mod N)" if "k < used s" for k
    using cells_apart [OF assms(1) that] by (simp add: insert_item_def)
  moreover have "buffer (insert_item x s) ! ((head s + used s) mod N) = x"
    unfolding tail_used [OF assms(1)] using l by (simp add: insert_item_def)
  moreover have "head (insert_item x s) = head s" by (simp add: insert_item_def)
  ultimately show ?thesis unfolding ring_items_def used_insert [OF assms] by simp
qed

lemma remove_item_items:
  assumes "ring_ok s" "\<not> IS_EMPTY s"
  shows "ring_items s = fst (remove_item s) # ring_items (snd (remove_item s))"
proof -
  have "head s < N" using assms(1) by (simp add: ring_ok_def)
  moreover have "(NEXT_SLOT (head s) + k) mod N = (head s + Suc k) mod N" for k by (simp add: NEXT_SLOT_def mod_add_left_eq)
  ultimately show ?thesis
    unfolding ring_items_def used_remove [OF assms] upt_conv_Cons [OF zero_less_Suc] map_Suc_upt [symmetric]
    by (simp add: remove_item_def)
qed

lemma length_ring_items [simp]: "length (ring_items s) = used s"
  by (simp add: ring_items_def)

interpretation ring: bounded_queue ring_ok ring_items 9 IS_FULL IS_EMPTY insert_item remove_item
proof
  fix q :: "ring" and x
  assume ok: "ring_ok q"
  show "IS_EMPTY q \<longleftrightarrow> ring_items q = []" by (simp add: used_empty [OF ok] ring_items_def)
  show "IS_FULL q \<longleftrightarrow> length (ring_items q) = 9" "length (ring_items q) \<le> 9"
    using used_full [OF ok] used_bounded by auto
  show "\<not> IS_FULL q \<Longrightarrow> ring_ok (insert_item x q) \<and> ring_items (insert_item x q) = ring_items q @ [x]"
    using insert_item_ok insert_item_items ok by blast
  show "\<not> IS_EMPTY q \<Longrightarrow> ring_ok (snd (remove_item q)) \<and> ring_items q = fst (remove_item q) # ring_items (snd (remove_item q))"
    using remove_item_ok remove_item_items ok by blast
qed simp

section \<open>What is drawn\<close>

definition drawn_cells :: "int list \<Rightarrow> string" where
  "drawn_cells xs = concat (map (\<lambda>x. ''| '' @ print_char x @ '' '') xs)"

lemma slot_loop_ret:
  assumes "ring_ok s" "k \<le> used s"
  shows "slot_loop ((head s + k) mod N) s k buf = Some (used s, buf @ drawn_cells (drop k (ring_items s)))"
  using assms(2)
proof (induction k arbitrary: buf rule: inc_induct)
  case base
  show ?case by (subst slot_loop.simps) (simp add: tail_used [OF assms(1)] drawn_cells_def)
next
  case (step k)
  have "NEXT_SLOT ((head s + k) mod N) = (head s + Suc k) mod N" by (simp add: NEXT_SLOT_def mod_Suc_eq)
  moreover have "drop k (ring_items s) = buffer s ! ((head s + k) mod N) # drop (Suc k) (ring_items s)"
    using step.hyps by (simp add: ring_items_def Cons_nth_drop_Suc [symmetric])
  ultimately show ?case
    using step cells_apart [OF assms(1)] by (subst slot_loop.simps) (simp add: drawn_cells_def)
qed

lemma drawing_ret:
  assumes "ring_ok s"
  shows "drawing turn item s = ret (drawn_cell (if turn = CONSUMER_TURN then item else - 1) @ ''<---'' @ drawn_cells (ring_items s) @
    concat (replicate (9 - used s) ''|   '') @ ''|'' @ ''<---'' @ drawn_cell (if turn = PRODUCER_TURN then item else - 1) @ [CHR 0x0A])"
proof -
  have "head s mod N = head s" using assms by (simp add: ring_ok_def)
  then show ?thesis using slot_loop_ret [OF assms, of 0] by (simp add: drawing_def Let_def N_def)
qed

section \<open>The invariant of the threads\<close>

text \<open>A thread that waits has a pending signal exactly when it could go on.\<close>

definition history_ok :: "prodcons \<Rightarrow> bool" where
  "history_ok s \<longleftrightarrow> ring_ok (queue s) \<and> produced s = consumed s @ ring_items (queue s)"

definition producer_ok :: "prodcons \<Rightarrow> bool" where
  "producer_ok s \<longleftrightarrow> full_sig s = (producer_at s = InWait \<and> \<not> IS_FULL (queue s))"

definition consumer_ok :: "prodcons \<Rightarrow> bool" where
  "consumer_ok s \<longleftrightarrow> empty_sig s = (consumer_at s = InWait \<and> \<not> IS_EMPTY (queue s))"

definition pc_ok :: "prodcons \<Rightarrow> bool" where
  "pc_ok s \<longleftrightarrow> history_ok s \<and> producer_ok s \<and> consumer_ok s"

lemmas pc_ok_defs = pc_ok_def history_ok_def producer_ok_def consumer_ok_def

lemma pc_ok_init: "pc_ok pc_init"
  by (simp add: pc_ok_defs pc_init_def ring_ok_def ring_items_def used_def N_def)

lemma produce_ret:
  assumes "ring_ok (queue s)"
  shows "\<exists>text. produce r s = ret (s\<lparr>empty_sig := empty_sig s \<or> IS_EMPTY (queue s) \<and> consumer_at s = InWait,
    queue := insert_item (int (r mod 26) + 65) (queue s), producer_at := Outside, produced := produced s @ [int (r mod 26) + 65],
    screen := screen s @ [text]\<rparr>)"
  using drawing_ret [OF insert_item_ok [OF assms]] by (auto simp: produce_def Let_def)

lemma consume_ret:
  assumes "ring_ok (queue s)"
  shows "\<exists>text. consume s = ret (s\<lparr>full_sig := full_sig s \<or> IS_FULL (queue s) \<and> producer_at s = InWait,
    queue := snd (remove_item (queue s)), consumer_at := Outside, consumed := consumed s @ [fst (remove_item (queue s))],
    screen := screen s @ [text]\<rparr>)"
  using drawing_ret [OF remove_item_ok [OF assms]] by (auto simp: consume_def Let_def split: prod.splits)

text \<open>How far the threads have come: an item counts twice, entering a wait once.\<close>

definition progress :: "prodcons \<Rightarrow> nat" where
  "progress s = 2 * (length (produced s) + length (consumed s)) + (if producer_at s = InWait then 1 else 0) + (if consumer_at s = InWait then 1 else 0)"

lemma progress_signals [simp]: "progress (s\<lparr>full_sig := b\<rparr>) = progress s" "progress (s\<lparr>empty_sig := b\<rparr>) = progress s"
  by (simp_all add: progress_def)

lemma produce_ok:
  assumes "produce r s = ret s'" "history_ok s" "consumer_ok s" "\<not> full_sig s" "\<not> IS_FULL (queue s)"
  shows "pc_ok s' \<and> progress s < progress s'"
proof -
  have ok: "ring_ok (queue s)" and h: "produced s = consumed s @ ring_items (queue s)" using assms(2) by (simp_all add: history_ok_def)
  from produce_ret [OF ok, of r] assms(1) obtain d x where s': "s' = s\<lparr>empty_sig := empty_sig s \<or> IS_EMPTY (queue s) \<and> consumer_at s = InWait,
    queue := insert_item x (queue s), producer_at := Outside, produced := produced s @ [x], screen := screen s @ [d]\<rparr>" by auto
  show ?thesis
    using ring.put_ok [OF ok assms(5), of x] ring.put_history [OF ok assms(5) h, of x] ring.put_not_empty [OF ok assms(5), of x] assms(3,4)
    by (auto simp: s' pc_ok_defs progress_def)
qed

lemma consume_ok:
  assumes "consume s = ret s'" "history_ok s" "producer_ok s" "\<not> empty_sig s" "\<not> IS_EMPTY (queue s)"
  shows "pc_ok s' \<and> progress s < progress s'"
proof -
  have ok: "ring_ok (queue s)" and h: "produced s = consumed s @ ring_items (queue s)" using assms(2) by (simp_all add: history_ok_def)
  from consume_ret [OF ok] assms(1) obtain d where s': "s' = s\<lparr>full_sig := full_sig s \<or> IS_FULL (queue s) \<and> producer_at s = InWait,
    queue := snd (remove_item (queue s)), consumer_at := Outside, consumed := consumed s @ [fst (remove_item (queue s))],
    screen := screen s @ [d]\<rparr>" by auto
  show ?thesis
    using ring.get_ok [OF ok assms(5)] ring.get_history [OF ok assms(5) h] ring.get_not_full [OF ok assms(5)] assms(3,4)
    by (auto simp: s' pc_ok_defs progress_def)
qed

lemma pc_step_ok:
  assumes "pc_step False s s'" "pc_ok s"
  shows "pc_ok s' \<and> progress s < progress s'"
  using assms
proof cases
  case (produce r)
  show ?thesis
  proof (cases "IS_FULL (queue s)")
    case True
    with produce assms(2) show ?thesis by (auto simp: producer_def pc_ok_defs progress_def)
  next
    case False
    with produce assms(2) produce_ok [of r s s'] show ?thesis by (simp add: producer_def pc_ok_def producer_ok_def)
  qed
next
  case (produce_woken r)
  then have "\<not> IS_FULL (queue s)" using assms(2) by (simp add: pc_ok_defs)
  with produce_woken produce_ok [of r "s\<lparr>full_sig := False\<rparr>" s'] assms(2) show ?thesis
    by (simp add: history_ok_def consumer_ok_def pc_ok_def)
next
  case consume
  show ?thesis
  proof (cases "IS_EMPTY (queue s)")
    case True
    with consume assms(2) show ?thesis by (auto simp: consumer_def pc_ok_defs progress_def)
  next
    case False
    with consume assms(2) consume_ok [of s s'] show ?thesis by (simp add: consumer_def pc_ok_def consumer_ok_def)
  qed
next
  case consume_woken
  then have "\<not> IS_EMPTY (queue s)" using assms(2) by (simp add: pc_ok_defs)
  with consume_woken consume_ok [of "s\<lparr>empty_sig := False\<rparr>" s'] assms(2) show ?thesis
    by (simp add: history_ok_def producer_ok_def pc_ok_def)
qed

interpretation threads: invariant_system "pc_step False" pc_ok
  by unfold_locales (simp add: pc_step_ok)

definition pc_reach :: "bool \<Rightarrow> prodcons \<Rightarrow> bool" where
  "pc_reach spurious = (pc_step spurious)\<^sup>*\<^sup>* pc_init"

lemma pc_reach_ok: "pc_reach False s \<Longrightarrow> pc_ok s"
  unfolding pc_reach_def using threads.reach_inv pc_ok_init by blast

lemma pc_ok_can_step:
  assumes "pc_ok s"
  shows "\<exists>s'. pc_step False s s'"
proof -
  have ok: "ring_ok (queue s)" using assms by (simp add: pc_ok_defs)
  have p: "\<exists>s'. producer 0 s = ret s'" using produce_ret [OF ok] by (auto simp: producer_def)
  have c: "\<exists>s'. consumer s = ret s'" using consume_ret [OF ok] by (auto simp: consumer_def)
  show ?thesis
  proof (cases "producer_at s = Outside \<or> consumer_at s = Outside")
    case True
    with p c show ?thesis by (blast intro: pc_step.produce pc_step.consume)
  next
    case False
    then have w: "producer_at s = InWait" "consumer_at s = InWait" by (metis thread_at.exhaust)+
    from ring.not_both [OF ok] consider "\<not> IS_FULL (queue s)" | "\<not> IS_EMPTY (queue s)" by blast
    then show ?thesis
    proof cases
      case 1
      with w(1) assms have "full_sig s" by (simp add: pc_ok_defs)
      moreover have "\<exists>s'. produce 0 (s\<lparr>full_sig := False\<rparr>) = ret s'" using produce_ret [of "s\<lparr>full_sig := False\<rparr>"] ok by auto
      ultimately show ?thesis using w(1) by (blast intro: pc_step.produce_woken)
    next
      case 2
      with w(2) assms have "empty_sig s" by (simp add: pc_ok_defs)
      moreover have "\<exists>s'. consume (s\<lparr>empty_sig := False\<rparr>) = ret s'" using consume_ret [of "s\<lparr>empty_sig := False\<rparr>"] ok by auto
      ultimately show ?thesis using w(2) by (blast intro: pc_step.consume_woken)
    qed
  qed
qed

lemma pc_steps_progress: "(pc_step False ^^ n) pc_init s \<Longrightarrow> pc_ok s \<and> n \<le> progress s"
proof (induction n arbitrary: s)
  case 0
  then show ?case by (simp add: pc_ok_init)
next
  case (Suc n)
  then obtain s0 where s0: "(pc_step False ^^ n) pc_init s0" "pc_step False s0 s" by auto
  from Suc.IH [OF s0(1)] pc_step_ok [OF s0(2)] show ?case by auto
qed

section \<open>Properties\<close>

text \<open>C15: whatever the order in which the threads run, the consumer gets the items of the producer in their order, and those still to
  come are the used cells of the ring, at most nine. (A wait ends only with a signal.)\<close>

theorem items_in_order:
  assumes "pc_reach False s"
  shows "produced s = consumed s @ ring_items (queue s) \<and> length (ring_items (queue s)) \<le> 9"
  using pc_reach_ok [OF assms] ring.bounded [of "queue s"] by (simp add: pc_ok_defs)

theorem items_in_order_witness:
  "\<exists>s. pc_reach False s \<and> produced s = consumed s @ ring_items (queue s) \<and> consumed s = [70]"
proof -
  from produce_ret [of pc_init 5] obtain s1 where 1: "producer 5 pc_init = ret s1" "ring_ok (queue s1)" "produced s1 = [70]"
    "consumed s1 = []" "consumer_at s1 = Outside" "queue s1 = insert_item 70 (queue pc_init)"
    using pc_ok_init insert_item_ok [of "queue pc_init" 70]
    by (auto simp: producer_def pc_ok_defs IS_FULL_def pc_init_def NEXT_SLOT_def N_def)
  then have e: "\<not> IS_EMPTY (queue s1)" "fst (remove_item (queue s1)) = 70"
    by (simp_all add: IS_EMPTY_def remove_item_def insert_item_def pc_init_def NEXT_SLOT_def N_def)
  from consume_ret [OF 1(2)] e obtain s2 where 2: "consumer s1 = ret s2" "consumed s2 = [70]"
    using 1(4) by (auto simp: consumer_def)
  have "pc_step False pc_init s1" using 1(1) by (rule pc_step.produce [rotated]) (simp add: pc_init_def)
  moreover have "pc_step False s1 s2" using 2(1) 1(5) by (rule pc_step.consume [rotated])
  ultimately have "pc_reach False s2" unfolding pc_reach_def by (meson rtranclp.simps)
  with items_in_order [OF this] 2(2) show ?thesis by blast
qed

text \<open>C14: the threads never wait for each other for ever: some step is always possible, and a run of \<open>n\<close> steps has moved
  about \<open>n / 4\<close> items through the ring.\<close>

theorem threads_make_progress:
  assumes "(pc_step False ^^ n) pc_init s"
  shows "(\<exists>s'. pc_step False s s') \<and> n \<le> 4 * length (consumed s) + 20"
proof -
  from pc_steps_progress [OF assms] have ok: "pc_ok s" and n: "n \<le> progress s" by simp_all
  then have "length (produced s) \<le> length (consumed s) + 9"
    using ring.bounded [of "queue s"] by (simp add: pc_ok_defs)
  with n have "n \<le> 4 * length (consumed s) + 20" by (simp add: progress_def split: if_splits)
  with pc_ok_can_step [OF ok] show ?thesis by simp
qed

theorem threads_make_progress_witness:
  "pc_step False pc_init (pc_init\<lparr>consumer_at := InWait\<rparr>) \<and> (\<exists>s. pc_step False (pc_init\<lparr>consumer_at := InWait\<rparr>) s)"
proof -
  have s: "pc_step False pc_init (pc_init\<lparr>consumer_at := InWait\<rparr>)"
    by (rule pc_step.consume) (simp_all add: consumer_def IS_EMPTY_def pc_init_def)
  with threads_make_progress [of 1 "pc_init\<lparr>consumer_at := InWait\<rparr>"] show ?thesis by (simp only: relpowp_1)
qed

text \<open>when a wait may also end without a signal, as POSIX allows, the consumer takes an item that nobody has produced, because the test
  is not repeated.\<close>

theorem spurious_wakeup_takes_nothing:
  "\<exists>s. pc_reach True s \<and> produced s = [] \<and> consumed s = [0]"
proof -
  let ?w = "pc_init\<lparr>consumer_at := InWait\<rparr>"
  have "consumer pc_init = ret ?w" by (simp add: consumer_def IS_EMPTY_def pc_init_def)
  then have 1: "pc_step True pc_init ?w" by (rule pc_step.consume [rotated]) (simp add: pc_init_def)
  have "ring_ok (queue ?w)" using pc_ok_init by (simp add: pc_ok_defs)
  then obtain s where s: "consume (?w\<lparr>empty_sig := False\<rparr>) = ret s" "produced s = []" "consumed s = [0]"
    using consume_ret [of "?w\<lparr>empty_sig := False\<rparr>"] by (auto simp: pc_init_def remove_item_def N_def)
  then have "pc_step True ?w s" by (intro pc_step.consume_woken) simp_all
  with 1 have "pc_reach True s" unfolding pc_reach_def by (meson rtranclp.simps)
  with s show ?thesis by blast
qed

end
