(* ===== verification/SharedCounter.thy ===== *)
theory SharedCounter
  imports CText
begin

text \<open>
  Threads that raise a shared counter to a bound under a mutex (\<open>pthread_mutex.c\<close> of the shell course). The main thread creates them one by
  one while those that exist already run; a critical section is one step.
\<close>

section \<open>State and steps\<close>

text \<open>A thread: the updates it made (\<open>i\<close>), and whether it is still in its loop. \<open>said\<close> are the messages printed under the mutex; those
  at the start and the end of a thread are printed outside of it and left out.\<close>

record counter =
  shared :: int
  max_value :: int
  threads :: "(int \<times> bool) list"
  said :: "string list"

definition say_shared :: "nat \<Rightarrow> int \<Rightarrow> string" where
  "say_shared number v = ''Thread '' @ show_int (int number) @ '': shared = '' @ show_int v @ ''.'' @ [CHR 0x0A]"

text \<open>One round of the loop of thread \<open>number\<close>. The two counters are \<open>int\<close>s, and raising one of them can overflow.\<close>

definition do_your_job :: "nat \<Rightarrow> counter \<Rightarrow> counter run" where
  "do_your_job number s =
     (let i = fst (threads s ! number) in
      if shared s < max_value s then
        andthen (cint (shared s + 1)) (\<lambda>v.
        andthen (cint (i + 1)) (\<lambda>i.
        ret (s\<lparr>shared := v, threads := (threads s)[number := (i, True)], said := said s @ [say_shared number v]\<rparr>)))
      else ret (s\<lparr>threads := (threads s)[number := (i, False)]\<rparr>))"

definition create_thread :: "counter \<Rightarrow> counter" where
  "create_thread s = s\<lparr>threads := threads s @ [(0, True)]\<rparr>"

inductive counter_step :: "nat \<Rightarrow> counter \<Rightarrow> counter \<Rightarrow> bool" for thread_num where
  create: "length (threads s) < thread_num \<Longrightarrow> counter_step thread_num s (create_thread s)"
| turn: "number < length (threads s) \<Longrightarrow> snd (threads s ! number) \<Longrightarrow> do_your_job number s = ret s' \<Longrightarrow> counter_step thread_num s s'"

inductive_cases counter_stepE: "counter_step thread_num s s'"
inductive_simps counter_step_iff: "counter_step thread_num s s'"

definition counter_init :: "int \<Rightarrow> counter" where
  "counter_init mx = \<lparr>shared = 0, max_value = mx, threads = [], said = []\<rparr>"

text \<open>The arguments of \<open>main\<close>; \<open>malloc\<close> is taken to succeed.\<close>

definition counter_main :: "string list \<Rightarrow> (counter \<times> nat) run" where
  "counter_main argv =
     (if length argv \<noteq> 3 then halt (Exit 1)
      else if atoi (argv ! 1) < 0 then halt (Exit 1)
      else if atoi (argv ! 2) < 0 then halt (Exit 1)
      else ret (counter_init (atoi (argv ! 1)), nat (atoi (argv ! 2))))"

section \<open>Accounting\<close>

text \<open>Steps so far: one for every thread created, every update and every thread that has left.\<close>

definition stopped :: "counter \<Rightarrow> nat" where
  "stopped s = length (filter (\<lambda>t. \<not> snd t) (threads s))"

definition counter_ok :: "int \<Rightarrow> nat \<Rightarrow> nat \<Rightarrow> counter \<Rightarrow> bool" where
  "counter_ok mx tn n s \<longleftrightarrow> max_value s = mx \<and> mx \<le> int_max \<and> shared s = sum_list (map fst (threads s)) \<and> 0 \<le> shared s \<and> shared s \<le> mx \<and>
     list_all (\<lambda>t. 0 \<le> fst t) (threads s) \<and>
     length (threads s) \<le> tn \<and> int n = int (length (threads s)) + shared s + int (stopped s) \<and> (0 < stopped s \<longrightarrow> shared s = mx)"

lemma sum_fst_update:
  "k < length ts \<Longrightarrow> sum_list (map fst (ts[k := (x, b)])) = sum_list (map fst ts) + x - (fst (ts ! k) :: int)"
  by (induction ts arbitrary: k) (auto split: nat.splits)

lemma stopped_update:
  assumes "k < length ts" "snd (ts ! k)"
  shows "length (filter (\<lambda>t. \<not> snd t) (ts[k := (x, b)])) = length (filter (\<lambda>t. \<not> snd t) ts) + (if b then 0 else 1)"
  using assms by (simp add: upd_conv_take_nth_drop) (subst (3) id_take_nth_drop [OF assms(1)], simp)

lemma all_stopped: "length (filter P ts) = length ts \<longleftrightarrow> (\<forall>t \<in> set ts. P t)"
  by (metis filter_id_conv length_filter_less filter_True order_less_irrefl)

text \<open>The updates of one thread are at most those of all, so no round overflows: the counter is below a bound that is an \<open>int\<close>.\<close>

lemma part_le_sum: "list_all (\<lambda>t. 0 \<le> fst t) ts \<Longrightarrow> 0 \<le> sum_list (map fst ts) \<and> (k < length ts \<longrightarrow> fst (ts ! k) \<le> (sum_list (map fst ts) :: int))"
proof (induction ts arbitrary: k)
  case (Cons t ts)
  then have t: "0 \<le> fst t" "0 \<le> sum_list (map fst ts)" "\<And>j. j < length ts \<Longrightarrow> fst (ts ! j) \<le> sum_list (map fst ts)" by simp_all
  then have "fst (ts ! j) \<le> fst t + sum_list (map fst ts)" if "j < length ts" for j using t(3) [OF that] by linarith
  with t(1,2) show ?case by (cases k) auto
qed simp

lemma do_your_job_ok:
  assumes "counter_ok mx tn n s" "k < length (threads s)"
  shows "do_your_job k s = ret (if shared s < mx
     then s\<lparr>shared := shared s + 1, threads := (threads s)[k := (fst (threads s ! k) + 1, True)], said := said s @ [say_shared k (shared s + 1)]\<rparr>
     else s\<lparr>threads := (threads s)[k := (fst (threads s ! k), False)]\<rparr>)"
proof -
  have "0 \<le> fst (threads s ! k)" using assms by (simp add: counter_ok_def list_all_length)
  moreover have "fst (threads s ! k) \<le> shared s" using assms part_le_sum [of "threads s" k] by (simp add: counter_ok_def)
  ultimately show ?thesis using assms(1) by (simp add: do_your_job_def counter_ok_def)
qed

lemma counter_step_ok:
  assumes "counter_ok mx tn n s" "counter_step tn s s'"
  shows "counter_ok mx tn (Suc n) s'"
  using assms(2)
proof cases
  case create
  with assms(1) show ?thesis by (auto simp: counter_ok_def create_thread_def stopped_def)
next
  case (turn k)
  have "list_all (\<lambda>t. 0 \<le> fst t) ((threads s)[k := (fst (threads s ! k) + i, b)])" if "0 \<le> i" for i b
    using assms(1) that turn(1) by (auto simp: counter_ok_def list_all_length nth_list_update)
  from this [of 1 True] this [of 0 False] have "list_all (\<lambda>t. 0 \<le> fst t) ((threads s)[k := (fst (threads s ! k) + 1, True)])"
    "list_all (\<lambda>t. 0 \<le> fst t) ((threads s)[k := (fst (threads s ! k), False)])" by simp_all
  moreover have s': "s' = (if shared s < mx
     then s\<lparr>shared := shared s + 1, threads := (threads s)[k := (fst (threads s ! k) + 1, True)], said := said s @ [say_shared k (shared s + 1)]\<rparr>
     else s\<lparr>threads := (threads s)[k := (fst (threads s ! k), False)]\<rparr>)"
    using turn(3) do_your_job_ok [OF assms(1) turn(1)] by simp
  moreover have "stopped s' = stopped s + (if shared s < mx then 0 else 1)"
    using turn(1,2) by (simp add: s' stopped_def stopped_update del: filter_empty_conv)
  ultimately show ?thesis using assms(1) turn(1) by (auto simp: counter_ok_def sum_fst_update)
qed

lemma counter_steps_ok: "0 \<le> mx \<Longrightarrow> mx \<le> int_max \<Longrightarrow> (counter_step tn ^^ n) (counter_init mx) s \<Longrightarrow> counter_ok mx tn n s"
proof (induction n arbitrary: s)
  case 0
  then show ?case by (auto simp: counter_ok_def counter_init_def stopped_def)
next
  case (Suc n)
  then show ?case using counter_step_ok by (metis relpowp_Suc_E)
qed

text \<open>No step is possible exactly when every thread exists and has left.\<close>

lemma counter_stuck:
  assumes "counter_ok mx tn n s"
  shows "(\<nexists>s'. counter_step tn s s') \<longleftrightarrow> length (threads s) = tn \<and> stopped s = tn"
proof -
  have ex: "\<exists>s'. do_your_job k s = ret s'" if "k < length (threads s)" for k by (rule exI, rule do_your_job_ok [OF assms that])
  have "(\<nexists>s'. counter_step tn s s') \<longleftrightarrow> \<not> length (threads s) < tn \<and> (\<forall>t \<in> set (threads s). \<not> snd t)"
    unfolding all_set_conv_all_nth
  proof (intro iffI conjI notI allI impI; (elim exE conjE)?)
    show False if "\<nexists>s'. counter_step tn s s'" "length (threads s) < tn" using that counter_step.create by blast
    show False if "\<nexists>s'. counter_step tn s s'" "k < length (threads s)" "snd (threads s ! k)" for k
      using that ex [OF that(2)] counter_step.turn [of k s] by blast
    show False if "\<not> length (threads s) < tn" "\<forall>k < length (threads s). \<not> snd (threads s ! k)" "counter_step tn s s'" for s'
      using that(3) by cases (use that(1,2) in blast)+
  qed
  also have "(\<forall>t \<in> set (threads s). \<not> snd t) \<longleftrightarrow> stopped s = length (threads s)"
    by (simp add: stopped_def all_stopped)
  finally show ?thesis using assms by (auto simp: counter_ok_def)
qed

section \<open>Properties\<close>

text \<open>C17: whatever the order of the threads, no round overflows, the updates the threads report add up to the counter, and the counter
  never exceeds the bound, which is an \<open>int\<close> whatever was written on the command line; every run ends, after exactly one step for each
  update and two for each thread, with the counter at the bound.\<close>

theorem threads_count_to_max:
  assumes "counter_main argv = ret (s0, tn)" "(counter_step tn ^^ n) s0 s"
  shows "shared s = sum_list (map fst (threads s)) \<and> 0 \<le> shared s \<and> shared s \<le> atoi (argv ! 1) \<and> atoi (argv ! 1) \<le> int_max \<and>
    (\<forall>k < length (threads s). \<exists>s'. do_your_job k s = ret s') \<and> int n \<le> atoi (argv ! 1) + 2 * int tn \<and>
    ((\<nexists>s'. counter_step tn s s') \<longrightarrow> 0 < tn \<longrightarrow> shared s = atoi (argv ! 1) \<and> int n = atoi (argv ! 1) + 2 * int tn)"
proof -
  let ?mx = "atoi (argv ! 1)"
  have s0: "s0 = counter_init ?mx" "0 \<le> ?mx" using assms(1) by (auto simp: counter_main_def split: if_splits)
  then have ok: "counter_ok ?mx tn n s" using counter_steps_ok assms(2) atoi_range(2) by simp
  moreover have "stopped s \<le> length (threads s)" by (simp add: stopped_def)
  moreover have "\<exists>s'. do_your_job k s = ret s'" if "k < length (threads s)" for k by (rule exI, rule do_your_job_ok [OF ok that])
  ultimately show ?thesis using counter_stuck [OF ok] by (auto simp: counter_ok_def)
qed

text \<open>An argument that is no \<open>int\<close> is a negative number, and the program ends.\<close>

theorem threads_count_to_max_witness:
  "counter_main [''mutex'', ''3000000000'', ''1''] = halt (Exit 1) \<and>
   (\<exists>s. (counter_step 1 ^^ 3) (counter_init 1) s \<and> shared s = 1 \<and> shared s = sum_list (map fst (threads s)))"
proof -
  let ?argv = "[''mutex'', ''1'', ''1'']"
  let ?s1 = "create_thread (counter_init 1)"
  let ?s2 = "?s1\<lparr>shared := 1, threads := [(1, True)], said := [say_shared 0 1]\<rparr>"
  let ?s3 = "?s2\<lparr>threads := [(1, False)]\<rparr>"
  have a: "atoi ''1'' = 1" "atoi ''3000000000'' = - 1294967296"
    by (simp_all add: atoi_def scan_int_def starts_digit_def digit_val_def isspace_def long_to_int_def)
  have 1: "counter_step 1 (counter_init 1) ?s1" by (rule counter_step.create) (simp add: counter_init_def)
  have 2: "counter_step 1 ?s1 ?s2"
    by (rule counter_step.turn [of 0]) (simp_all add: counter_init_def create_thread_def do_your_job_def)
  have 3: "counter_step 1 ?s2 ?s3"
    by (rule counter_step.turn [of 0]) (simp_all add: counter_init_def create_thread_def do_your_job_def)
  have r: "(counter_step 1 ^^ 3) (counter_init 1) ?s3" using 1 2 3 by (auto simp: numeral_3_eq_3)
  have "counter_ok 1 1 3 ?s3" using counter_steps_ok [OF _ _ r] by simp
  then have "\<nexists>s'. counter_step 1 ?s3 s'"
    using counter_stuck [of 1 1 3 ?s3] by (simp add: counter_init_def create_thread_def stopped_def)
  moreover have "counter_main ?argv = ret (counter_init 1, 1)" by (simp add: counter_main_def a)
  moreover have "counter_main [''mutex'', ''3000000000'', ''1''] = halt (Exit 1)" by (simp add: counter_main_def a)
  ultimately show ?thesis using threads_count_to_max [of ?argv "counter_init 1" 1 3 ?s3] r by (auto simp: a)
qed

end
