(* ===== verification/FileRace.thy ===== *)
theory FileRace
  imports Prelude
begin

text \<open>
  Two processes that change a number in a file without a lock (\<open>race_condition.c\<close> of the shell course). After \<open>fork\<close> they share the open
  file, and with it the position that \<open>lseek\<close>, \<open>read\<close> and \<open>write\<close> use. Every system call is one step.
\<close>

section \<open>The file and the processes\<close>

text \<open>The content and the position in units of \<open>DATA_SIZE\<close>: every access is at a multiple of it.\<close>

record shared_file =
  cells :: "int list"
  offset :: nat

definition seek_start :: "shared_file \<Rightarrow> shared_file" where
  "seek_start f = f\<lparr>offset := 0\<rparr>"

text \<open>At the end of the file \<open>read\<close> returns 0.\<close>

definition read_cell :: "shared_file \<Rightarrow> (int \<times> shared_file) option" where
  "read_cell f = (if offset f < length (cells f) then Some (cells f ! offset f, f\<lparr>offset := offset f + 1\<rparr>) else None)"

definition write_cell :: "int \<Rightarrow> shared_file \<Rightarrow> shared_file" where
  "write_cell v f = f\<lparr>cells := take (offset f) (cells f) @ replicate (offset f - length (cells f)) 0 @ v # drop (Suc (offset f)) (cells f),
     offset := offset f + 1\<rparr>"

text \<open>Where a process is: in front of a system call, returned from its job, or gone with \<open>exit(1)\<close>.\<close>

datatype job_at = Seek1 | Read | Seek2 int | Write int | Done | Died

definition job_step :: "int \<Rightarrow> job_at \<Rightarrow> shared_file \<Rightarrow> job_at \<times> shared_file" where
  "job_step d at f = (case at of
     Seek1 \<Rightarrow> (Read, seek_start f)
   | Read \<Rightarrow> (case read_cell f of None \<Rightarrow> (Died, f) | Some (num, f) \<Rightarrow> (Seek2 (num + d), f))
   | Seek2 num \<Rightarrow> (Write num, seek_start f)
   | Write num \<Rightarrow> (Done, write_cell num f)
   | Done \<Rightarrow> (Done, f) | Died \<Rightarrow> (Died, f))"

definition do_parent_job :: "job_at \<Rightarrow> shared_file \<Rightarrow> job_at \<times> shared_file" where
  "do_parent_job = job_step 10"

definition do_child_job :: "job_at \<Rightarrow> shared_file \<Rightarrow> job_at \<times> shared_file" where
  "do_child_job = job_step (- 10)"

text \<open>The start of the jobs: 10 has been written.\<close>

type_synonym race = "job_at \<times> job_at \<times> shared_file"

definition race_init :: race where
  "race_init = (Seek1, Seek1, \<lparr>cells = [10], offset = 1\<rparr>)"

text \<open>A turn of the parent (\<open>True\<close>) or of the child, and a whole schedule.\<close>

fun race_turn :: "bool \<Rightarrow> race \<Rightarrow> race" where
  "race_turn True (p, c, f) = (case do_parent_job p f of (p, f) \<Rightarrow> (p, c, f))"
| "race_turn False (p, c, f) = (case do_child_job c f of (c, f) \<Rightarrow> (p, c, f))"

definition race_run :: "bool list \<Rightarrow> race \<Rightarrow> race" where
  "race_run turns s = fold race_turn turns s"

text \<open>What the parent prints behind \<open>wait\<close>.\<close>

fun final_value :: "race \<Rightarrow> int option" where
  "final_value (p, c, f) = (if p = Done \<and> (c = Done \<or> c = Died) then map_option fst (read_cell (seek_start f)) else None)"

section \<open>All outcomes\<close>

fun to_go :: "job_at \<Rightarrow> nat" where
  "to_go Seek1 = 4" | "to_go Read = 3" | "to_go (Seek2 num) = 2" | "to_go (Write num) = 1" | "to_go _ = 0"

fun race_left :: "race \<Rightarrow> nat" where
  "race_left (p, c, f) = to_go p + to_go c"

fun outcomes :: "nat \<Rightarrow> race \<Rightarrow> int option list" where
  "outcomes 0 s = [final_value s]"
| "outcomes (Suc n) (p, c, f) =
     (if to_go p = 0 then [] else outcomes n (race_turn True (p, c, f))) @ (if to_go c = 0 then [] else outcomes n (race_turn False (p, c, f))) @
     (if to_go p = 0 \<and> to_go c = 0 then [final_value (p, c, f)] else [])"

lemma final_left: "final_value s = Some v \<Longrightarrow> race_left s = 0"
  by (cases s) (auto split: if_splits)

lemma job_finished: "to_go p = 0 \<Longrightarrow> job_step d p f = (p, f)"
  by (cases p) (simp_all add: job_step_def)

lemma job_advances: "0 < to_go p \<Longrightarrow> to_go (fst (job_step d p f)) < to_go p"
  by (cases p) (auto simp: job_step_def split: option.splits)

lemma race_run_simps [simp]: "race_run [] s = s" "race_run (t # ts) s = race_run ts (race_turn t s)"
  by (simp_all add: race_run_def)

lemma run_outcomes:
  "race_left s \<le> n \<Longrightarrow> final_value (race_run turns s) = Some v \<Longrightarrow> Some v \<in> set (outcomes n s)"
proof (induction turns arbitrary: s n)
  case Nil
  obtain p c f where s: "s = (p, c, f)" by (cases s)
  with Nil final_left [of s] show ?case by (cases n) auto
next
  case (Cons t ts)
  obtain p c f where s: "s = (p, c, f)" by (cases s)
  show ?case
  proof (cases "race_turn t s = s")
    case True
    with Cons show ?thesis by simp
  next
    case False
    have q: "0 < to_go (if t then p else c)" using False job_finished [of p 10 f] job_finished [of c "- 10" f]
      by (cases t) (auto simp: s do_parent_job_def do_child_job_def intro!: gr0I)
    have l: "race_left (race_turn t s) < race_left s"
      using q job_advances [of p 10 f] job_advances [of c "- 10" f]
      by (cases t; cases "job_step 10 p f"; cases "job_step (- 10) c f") (auto simp: s do_parent_job_def do_child_job_def)
    with Cons.prems(1) obtain m where m: "n = Suc m" "race_left (race_turn t s) \<le> m" by (cases n) auto
    from Cons.IH [OF m(2)] Cons.prems(2) have "Some v \<in> set (outcomes m (race_turn t s))" by simp
    with q show ?thesis by (cases t) (auto simp: s m(1))
  qed
qed

lemma all_outcomes: "set (outcomes 8 race_init) \<subseteq> {None, Some 0, Some 10, Some 20}"
  by code_simp

section \<open>Properties\<close>

text \<open>C23: raising the number by 10 and lowering it by 10 can leave any of 0, 10 and 20, and nothing else, over all the orders of the system
  calls of the two processes.\<close>

theorem race_outcomes:
  "(\<exists>turns. final_value (race_run turns race_init) = Some v) \<longleftrightarrow> v \<in> {0, 10, 20}"
proof
  assume "\<exists>turns. final_value (race_run turns race_init) = Some v"
  then have "Some v \<in> set (outcomes 8 race_init)" using run_outcomes [of race_init 8] by (auto simp: race_init_def)
  with all_outcomes show "v \<in> {0, 10, 20}" by auto
next
  have "final_value (race_run [False, False, True, True, True, True, False, False] race_init) = Some 0"
    "final_value (race_run [True, True, True, True, False, False, False, False] race_init) = Some 10"
    "final_value (race_run [True, True, False, False, False, False, True, True] race_init) = Some 20" by code_simp+
  then show "v \<in> {0, 10, 20} \<Longrightarrow> \<exists>turns. final_value (race_run turns race_init) = Some v" by blast
qed

text \<open>The position of the file is shared as well: a process whose \<open>read\<close> follows that of the other one is at the end of the file and exits.\<close>

theorem shared_position_kills:
  "fst (race_run [True, False, False, True] race_init) = Died"
  by code_simp

end
