(* ===== verification/DiceGame.thy ===== *)
theory DiceGame
  imports CText
begin

text \<open>
  The dice game of the shell course (\<open>pthread_game.c\<close>): one thread reads the answers and hands them over under a mutex, the other throws the
  dice, waits for an answer until a time limit and keeps the score. Characters are their codes, as \<open>getchar\<close> returns them.
\<close>

section \<open>The dice\<close>

definition LIFE_INIT :: int where "LIFE_INIT = 3"
definition TIMEOUT_INIT :: int where "TIMEOUT_INIT = 8"
definition TIMEOUT_MIN :: int where "TIMEOUT_MIN = 2"
definition DICE_COUNT :: nat where "DICE_COUNT = 3"

definition IS_BIG :: "int \<Rightarrow> bool" where "IS_BIG x \<longleftrightarrow> x \<ge> 11"
definition IS_SMALL :: "int \<Rightarrow> bool" where "IS_SMALL x \<longleftrightarrow> x < 11"

text \<open>The loop that compares neighbours; it returns where it stops.\<close>

function same_loop :: "nat \<Rightarrow> int list \<Rightarrow> nat" where
  "same_loop i dice = (if i < DICE_COUNT - 1 then (if dice ! i \<noteq> dice ! (i + 1) then i else same_loop (i + 1) dice) else i)"
  by pat_completeness auto
termination by (relation "measure (\<lambda>(i, dice). DICE_COUNT - i)") auto

declare same_loop.simps [simp del]

definition all_the_same :: "int list \<Rightarrow> bool" where
  "all_the_same dice \<longleftrightarrow> \<not> same_loop 0 dice \<noteq> DICE_COUNT - 1"

definition throw_dice :: "(nat \<Rightarrow> nat) \<Rightarrow> int list" where
  "throw_dice rand = map (\<lambda>i. int (rand i) mod 6 + 1) [0..<DICE_COUNT]"

definition two_wide :: "int \<Rightarrow> string" where
  "two_wide i = replicate (2 - length (show_int i)) (CHR '' '') @ show_int i"

text \<open>The screen, behind what \<open>clear\<close> prints.\<close>

definition display :: "int list \<Rightarrow> int \<Rightarrow> int \<Rightarrow> int \<Rightarrow> string" where
  "display dice life point level =
     ''+---+---+---+'' @ [CHR 0x0A] @ concat (map (\<lambda>d. ''| '' @ show_int d @ '' '') dice) @ ''|'' @ [CHR 0x0A] @ ''+---+---+---+'' @ [CHR 0x0A] @
     ''[LIFE LEFT: '' @ show_int (life - 1) @ '']'' @ [CHR 0x09] @ ''[POINTS: '' @ two_wide point @ '']'' @ [CHR 0x09] @
     ''[LEVEL: '' @ two_wide (level + 1) @ '']'' @ [CHR 0x09] @ ''[B/S/N]? ''"

section \<open>The answer\<close>

text \<open>At the end of the input \<open>getchar\<close> returns -1, again and again.\<close>

partial_function (option) skip_line :: "string \<Rightarrow> string option" where
  "skip_line inp = (case inp of [] \<Rightarrow> skip_line [] | c # cs \<Rightarrow> if c = CHR 0x0A then Some cs else skip_line cs)"

text \<open>One round of the reading thread: the rest of the input and the new \<open>global_input\<close>, which the other thread is signalled. It holds the
  mutex from the first character on.\<close>

definition read_input :: "string \<Rightarrow> int \<Rightarrow> (string \<times> int) run" where
  "read_input inp global_input =
     (let c = (case inp of [] \<Rightarrow> - 1 | x # xs \<Rightarrow> int (of_char x :: nat)) in
      if c = 0 then halt (Exit 1)
      else if c \<noteq> 10 then (case skip_line (tl inp) of None \<Rightarrow> None | Some rest \<Rightarrow> ret (rest, c))
      else ret (tl inp, global_input))"

definition time_limit :: "int \<Rightarrow> int" where
  "time_limit level = (let timeout = TIMEOUT_INIT - level in if timeout < TIMEOUT_MIN then TIMEOUT_MIN else timeout)"

text \<open>What ends the wait: the time limit, or a return of \<open>pthread_cond_timedwait\<close> with the \<open>global_input\<close> of that moment. The result is the
  answer and the new \<open>global_input\<close>.\<close>

datatype waited = TimedOut | Signalled int

definition wait_for_input :: "int \<Rightarrow> waited \<Rightarrow> int \<times> int" where
  "wait_for_input global_input w =
     (let input = (if global_input = 0 then (case w of TimedOut \<Rightarrow> 0 | Signalled g \<Rightarrow> g) else global_input) in (input, 0))"

section \<open>The game\<close>

record game =
  life :: int
  point :: int
  level :: int

definition game_init :: game where
  "game_init = \<lparr>life = LIFE_INIT, point = 0, level = 0\<rparr>"

text \<open>The comparison of an answer with the dice.\<close>

definition judge :: "int list \<Rightarrow> int \<Rightarrow> bool" where
  "judge dice input =
     (if input \<noteq> 66 \<and> input \<noteq> 98 \<and> input \<noteq> 115 \<and> input \<noteq> 83 \<and> input \<noteq> 110 \<and> input \<noteq> 78 then False
      else
        let input = (if input = 66 then 98 else input);
            input = (if input = 83 then 115 else input);
            input = (if input = 78 then 110 else input);
            sum = sum_list dice
        in \<not> (IS_BIG sum \<and> input \<noteq> 98 \<or> IS_SMALL sum \<and> input \<noteq> 115 \<or> all_the_same dice \<and> input \<noteq> 110))"

text \<open>One round with its message. The counters stay far from the bounds of \<open>int\<close>: a round takes half a second.\<close>

definition game_round :: "int list \<Rightarrow> int \<Rightarrow> game \<Rightarrow> (string \<times> game) run" where
  "game_round dice input s =
     (let (msg, s) =
        (if input = 0 then (''TIMEOUT'', s\<lparr>life := life s - 1\<rparr>)
         else if \<not> judge dice input then (''WRONG'', s\<lparr>life := life s - 1\<rparr>)
         else (''CORRECT'', s\<lparr>point := point s + 1\<rparr>))
      in if life s = 0 then halt (Exit 0)
         else ret (msg, if point s > 0 \<and> point s mod 10 = 0 then s\<lparr>level := level s + 1\<rparr> else s))"

fun game_play :: "(int list \<times> int) list \<Rightarrow> game \<Rightarrow> game run" where
  "game_play [] s = ret s"
| "game_play ((dice, input) # rounds) s = andthen (game_round dice input s) (\<lambda>(msg, s). game_play rounds s)"

section \<open>The rules\<close>

text \<open>The answer that the introduction of the game asks for, and whether an answer gives it.\<close>

definition expected_answer :: "int list \<Rightarrow> char" where
  "expected_answer dice = (if \<exists>d. set dice = {d} then CHR ''n'' else if sum_list dice < 11 then CHR ''s'' else CHR ''b'')"

definition gives :: "int \<Rightarrow> char \<Rightarrow> bool" where
  "gives input c \<longleftrightarrow> input = int (of_char c :: nat) \<or> input = int (of_char c :: nat) - 32"

text \<open>What the program accepts: the expected answer, unless that is \<open>n\<close>.\<close>

definition right :: "int list \<times> int \<Rightarrow> bool" where
  "right r \<longleftrightarrow> expected_answer (fst r) \<noteq> CHR ''n'' \<and> gives (snd r) (expected_answer (fst r))"

lemma all_the_same_3: "length dice = 3 \<Longrightarrow> all_the_same dice \<longleftrightarrow> (\<exists>d. set dice = {d})"
  by (auto simp: all_the_same_def same_loop.simps DICE_COUNT_def length_Suc_conv numeral_3_eq_3 insert_eq_iff split: if_splits)

lemma judge_right:
  assumes "length dice = 3"
  shows "input \<noteq> 0 \<and> judge dice input \<longleftrightarrow> right (dice, input)"
  using all_the_same_3 [OF assms]
  by (auto simp: judge_def right_def gives_def expected_answer_def Let_def IS_BIG_def IS_SMALL_def)

definition rights :: "(int list \<times> int) list \<Rightarrow> nat" where
  "rights rounds = length (filter right rounds)"

definition wrongs :: "(int list \<times> int) list \<Rightarrow> nat" where
  "wrongs rounds = length (filter (\<lambda>r. \<not> right r) rounds)"

text \<open>The rounds after which the points are a positive multiple of ten.\<close>

definition level_ups :: "int \<Rightarrow> (int list \<times> int) list \<Rightarrow> nat" where
  "level_ups p rounds = length (filter (\<lambda>k. let q = p + int (rights (take k rounds)) in 0 < q \<and> q mod 10 = 0) [1..<Suc (length rounds)])"

lemma level_ups_Cons: "level_ups p (r # rounds) =
    (let q = p + (if right r then 1 else 0) in (if 0 < q \<and> q mod 10 = 0 then 1 else 0) + level_ups q rounds)"
proof -
  have u: "[1..<Suc (length (r # rounds))] = 1 # map Suc [1..<Suc (length rounds)]"
    using upt_conv_Cons [of 1 "Suc (Suc (length rounds))"] by (simp only: map_Suc_upt list.size add_0_right add_Suc_right)
  show ?thesis
    unfolding level_ups_def u by (simp add: rights_def Let_def comp_def filter_map algebra_simps)
qed

lemma game_play_score:
  assumes "list_all (\<lambda>r. length (fst r) = 3) rounds" "0 < life s"
  shows "game_play rounds s =
    (if life s \<le> int (wrongs rounds) then halt (Exit 0)
     else ret \<lparr>life = life s - int (wrongs rounds), point = point s + int (rights rounds),
       level = level s + int (level_ups (point s) rounds)\<rparr>)"
  using assms
proof (induction rounds arbitrary: s)
  case Nil
  then show ?case by (simp add: wrongs_def rights_def level_ups_def)
next
  case (Cons r rounds)
  obtain dice input where r: "r = (dice, input)" by (cases r)
  with Cons.prems have l: "length dice = 3" "list_all (\<lambda>r. length (fst r) = 3) rounds" by simp_all
  let ?up = "\<lambda>s. if point s > 0 \<and> point s mod 10 = 0 then s\<lparr>level := level s + 1\<rparr> else s"
  show ?case
  proof (cases "right r")
    case True
    with judge_right [OF l(1), of input] Cons.prems(2) have "game_round dice input s = ret (''CORRECT'', ?up (s\<lparr>point := point s + 1\<rparr>))"
      by (simp add: game_round_def r)
    then show ?thesis
      using Cons.IH [OF l(2), of "?up (s\<lparr>point := point s + 1\<rparr>)"] Cons.prems(2) True
      by (simp add: r level_ups_Cons wrongs_def rights_def Let_def add_ac)
  next
    case False
    with judge_right [OF l(1), of input] have "game_round dice input s =
        (if life s = 1 then halt (Exit 0) else ret (if input = 0 then ''TIMEOUT'' else ''WRONG'', ?up (s\<lparr>life := life s - 1\<rparr>)))"
      by (auto simp: game_round_def r)
    then show ?thesis
      using Cons.IH [OF l(2), of "?up (s\<lparr>life := life s - 1\<rparr>)"] Cons.prems(2) False
      by (auto simp: r level_ups_Cons wrongs_def rights_def Let_def)
  qed
qed

section \<open>Properties\<close>

text \<open>C24: the game ends with the third round that is not answered as the introduction asks; until then the points count the right answers.
  Three equal dice can never be answered, and the level rises with every round that leaves a positive multiple of ten points.\<close>

theorem game_score:
  assumes "list_all (\<lambda>r. length (fst r) = 3) rounds"
  shows "game_play rounds game_init =
    (if 3 \<le> wrongs rounds then halt (Exit 0)
     else ret \<lparr>life = 3 - int (wrongs rounds), point = int (rights rounds), level = int (level_ups 0 rounds)\<rparr>)"
  using game_play_score [OF assms, of game_init] by (auto simp: game_init_def LIFE_INIT_def)

theorem game_score_witness:
  "game_play [([4, 5, 6], 66), ([2, 2, 2], 110), ([1, 2, 3], 115)] game_init = ret \<lparr>life = 2, point = 2, level = 0\<rparr>"
  using game_score [of "[([4, 5, 6], 66), ([2, 2, 2], 110), ([1, 2, 3], 115)]"]
  by (simp add: wrongs_def rights_def right_def gives_def expected_answer_def level_ups_def Let_def)

text \<open>The introduction asks for \<open>n\<close> when the dice are the same, but then no answer is taken.\<close>

theorem no_answer_to_triple:
  assumes "length dice = 3" "set dice = {d}"
  shows "expected_answer dice = CHR ''n'' \<and> \<not> judge dice input"
proof -
  have "\<exists>d. set dice = {d}" using assms(2) by blast
  with judge_right [OF assms(1), of input] show ?thesis
    by (auto simp: expected_answer_def right_def judge_def)
qed

text \<open>A mistake raises the level when there are ten points.\<close>

theorem mistake_raises_level:
  assumes "0 < point s" "point s mod 10 = 0" "life s \<noteq> 1"
  shows "game_round dice 0 s = ret (''TIMEOUT'', s\<lparr>life := life s - 1, level := level s + 1\<rparr>)"
  using assms by (simp add: game_round_def)

text \<open>An empty line wakes the game without an answer, which counts as the end of the time.\<close>

theorem empty_line_times_out:
  "read_input (CHR 0x0A # rest) 0 = ret (rest, 0)" "wait_for_input 0 (Signalled 0) = wait_for_input 0 TimedOut"
  by (simp_all add: read_input_def wait_for_input_def)

text \<open>At the end of the input the reading thread never gives the mutex back: the test for it compares with 0 instead of -1.\<close>

theorem end_of_input_hangs: "read_input [] g = None"
proof -
  have "skip_line [] \<noteq> Some r" for r
  proof
    assume "skip_line [] = Some r"
    then have "[] \<noteq> ([] :: string)"
      by (rule skip_line.raw_induct [where P = "\<lambda>inp r. inp \<noteq> []", rotated]) (auto split: list.splits)
    then show False by simp
  qed
  then have "skip_line [] = None" by (metis not_None_eq)
  then show ?thesis by (simp add: read_input_def)
qed

end
