(* ===== verification/Chatroom.thy ===== *)
theory Chatroom
  imports CText
begin

text \<open>
  The chat program of the router course (\<open>chatroom.c\<close>): two people run it over two named pipes. \<open>select\<close> watches the descriptors, \<open>fgets\<close>
  reads through the buffers of stdio; the model keeps both apart.
\<close>

section \<open>Streams of stdio\<close>

text \<open>\<open>arriving\<close> are the pieces that the kernel will hand out, one for each \<open>read\<close>; \<open>closed\<close> says whether the end of the file follows or
  the reader has to wait there. \<open>buffered\<close> is what stdio has read already.\<close>

record instream =
  buffered :: string
  arriving :: "string list"
  closed :: bool

definition BUF_SIZE :: nat where "BUF_SIZE = 1024"

text \<open>The length of the line at the start of a text, with its newline.\<close>

fun line_end :: "string \<Rightarrow> nat option" where
  "line_end [] = None"
| "line_end (c # cs) = (if c = CHR 0x0A then Some 1 else map_option Suc (line_end cs))"

text \<open>\<open>fgets(buf, sz, f)\<close> reads until it has a line or \<open>sz - 1\<close> characters: the line, or \<open>NULL\<close> at the end of the file. It does not
  return when it has to wait.\<close>

function fgets_from :: "nat \<Rightarrow> instream \<Rightarrow> (string option \<times> instream) option" where
  "fgets_from sz f =
     (case line_end (take (sz - 1) (buffered f)) of
        Some n \<Rightarrow> Some (Some (take n (buffered f)), f\<lparr>buffered := drop n (buffered f)\<rparr>)
      | None \<Rightarrow>
          if sz - 1 \<le> length (buffered f) then Some (Some (take (sz - 1) (buffered f)), f\<lparr>buffered := drop (sz - 1) (buffered f)\<rparr>)
          else (case arriving f of
              p # ps \<Rightarrow> fgets_from sz (f\<lparr>buffered := buffered f @ p, arriving := ps\<rparr>)
            | [] \<Rightarrow> if \<not> closed f then None
                else if buffered f = [] then Some (None, f) else Some (Some (buffered f), f\<lparr>buffered := []\<rparr>)))"
  by pat_completeness auto
termination by (relation "measure (\<lambda>(sz, f). length (arriving f))") auto

declare fgets_from.simps [simp del]

text \<open>What \<open>select\<close> sees: whether a \<open>read\<close> would return. It does not know what stdio holds.\<close>

definition selectable :: "instream \<Rightarrow> bool" where
  "selectable f \<longleftrightarrow> arriving f \<noteq> [] \<or> closed f"

section \<open>Start\<close>

datatype pipe_role = Input | Output

text \<open>The two pipes in the order in which they are opened.\<close>

definition pipe_roles :: "string \<Rightarrow> pipe_role list" where
  "pipe_roles first_client = (if first_client = ''yes'' then [Input, Output] else [Output, Input])"

text \<open>What \<open>stat\<close> and \<open>fopen\<close> answer for a name.\<close>

record named_file =
  is_fifo :: bool
  may_open :: "pipe_role \<Rightarrow> bool"

definition waiting_text :: "pipe_role \<Rightarrow> string \<Rightarrow> string" where
  "waiting_text r name = ''Waiting for the '' @ (if r = Input then ''input'' else ''output'') @ '' pipe connection '' @ [CHR 0x22] @ name @ [CHR 0x22] @
     '' ... done.'' @ [CHR 0x0A]"

fun open_pipes :: "(string \<Rightarrow> named_file option) \<Rightarrow> string list \<Rightarrow> pipe_role list \<Rightarrow> string run" where
  "open_pipes stat (name # names) (r # rs) =
     (case stat name of None \<Rightarrow> halt (Exit 1)
      | Some file \<Rightarrow> if \<not> is_fifo file then halt (Exit 1) else if \<not> may_open file r then halt (Exit 1)
          else andthen (open_pipes stat names rs) (\<lambda>out. ret (waiting_text r name @ out)))"
| "open_pipes stat _ _ = ret []"

section \<open>The main loop\<close>

record chat =
  friend :: instream
  keyboard :: instream
  screen :: string
  sent :: string

text \<open>One round behind \<open>select\<close>; \<open>False\<close> when the loop is left. The round does not return when \<open>fgets\<close> has to wait for the rest of a line.\<close>

definition hear_friend :: "chat \<Rightarrow> (bool \<times> chat) run" where
  "hear_friend s =
     (case fgets_from BUF_SIZE (friend s) of None \<Rightarrow> None
      | Some (None, f) \<Rightarrow> ret (False, s\<lparr>friend := f, screen := screen s @ ''[Terminated by friend. Goodbye.]'' @ [CHR 0x0A]\<rparr>)
      | Some (Some buf, f) \<Rightarrow> ret (True, s\<lparr>friend := f, screen := screen s @ ''[From friend]$ '' @ buf\<rparr>))"

definition hear_keyboard :: "chat \<Rightarrow> (bool \<times> chat) run" where
  "hear_keyboard s =
     (case fgets_from BUF_SIZE (keyboard s) of None \<Rightarrow> None
      | Some (None, f) \<Rightarrow> ret (False, s\<lparr>keyboard := f, screen := screen s @ ''[Terminated by me. Goodbye.]'' @ [CHR 0x0A]\<rparr>)
      | Some (Some buf, f) \<Rightarrow> ret (True, s\<lparr>keyboard := f, sent := sent s @ buf\<rparr>))"

text \<open>Both descriptors are looked at as \<open>select\<close> left them. A round that nothing is there for waits in \<open>select\<close>.\<close>

definition chat_round :: "chat \<Rightarrow> (bool \<times> chat) run" where
  "chat_round s =
     (let from_friend = selectable (friend s); from_keyboard = selectable (keyboard s); s = s\<lparr>screen := screen s @ ''$ ''\<rparr>
      in if \<not> from_friend \<and> \<not> from_keyboard then None
         else andthen (if from_friend then hear_friend s else ret (True, s)) (\<lambda>(go_on, s).
              if \<not> go_on then ret (False, s)
              else if from_keyboard then hear_keyboard s else ret (True, s)))"

partial_function (option) chat_loop :: "chat \<Rightarrow> chat run" where
  "chat_loop s = (case chat_round s of None \<Rightarrow> None
     | Some (Inl e) \<Rightarrow> halt e
     | Some (Inr (go_on, s)) \<Rightarrow> if go_on then chat_loop s else ret s)"

definition chat_main :: "(string \<Rightarrow> named_file option) \<Rightarrow> instream \<Rightarrow> instream \<Rightarrow> string list \<Rightarrow> chat run" where
  "chat_main stat from_friend from_keyboard argv =
     (if length argv \<noteq> 4 \<or> argv ! 3 \<noteq> ''yes'' \<and> argv ! 3 \<noteq> ''no'' then halt (Exit 1)
      else andthen (open_pipes stat [argv ! 1, argv ! 2] (pipe_roles (argv ! 3))) (\<lambda>out.
           chat_loop \<lparr>friend = from_friend, keyboard = from_keyboard, screen = out @ ''[Program is ready.]'' @ [CHR 0x0A, CHR 0x0A], sent = []\<rparr>))"

section \<open>Lines\<close>

text \<open>A line that fits: it ends with its only newline.\<close>

definition whole_line :: "string \<Rightarrow> bool" where
  "whole_line l \<longleftrightarrow> (\<exists>t. l = t @ [CHR 0x0A] \<and> CHR 0x0A \<notin> set t) \<and> length l < BUF_SIZE"

lemma line_end_line: "CHR 0x0A \<notin> set t \<Longrightarrow> line_end (t @ CHR 0x0A # rest) = Some (Suc (length t))"
  by (induction t) auto

lemma fgets_whole_line:
  assumes "whole_line l" "buffered f = l @ rest"
  shows "fgets_from BUF_SIZE f = Some (Some l, f\<lparr>buffered := rest\<rparr>)"
proof -
  from assms(1) obtain t where t: "l = t @ [CHR 0x0A]" "CHR 0x0A \<notin> set t" "length l < BUF_SIZE" by (auto simp: whole_line_def)
  then have "take (BUF_SIZE - 1) (buffered f) = t @ CHR 0x0A # take (BUF_SIZE - 1 - length l) rest"
    using assms(2) by (simp add: take_Cons')
  then show ?thesis using t assms(2) by (subst fgets_from.simps) (simp add: line_end_line)
qed

lemma fgets_next_line:
  assumes "whole_line l" "buffered f = []" "arriving f = (l @ rest) # ps"
  shows "fgets_from BUF_SIZE f = Some (Some l, f\<lparr>buffered := rest, arriving := ps\<rparr>)"
  using fgets_whole_line [OF assms(1), of "f\<lparr>buffered := l @ rest, arriving := ps\<rparr>" rest] assms(2,3)
  by (subst fgets_from.simps) (simp add: BUF_SIZE_def)

lemma fgets_end: "buffered f = [] \<Longrightarrow> arriving f = [] \<Longrightarrow> closed f \<Longrightarrow> fgets_from BUF_SIZE f = Some (None, f)"
  by (subst fgets_from.simps) (simp add: BUF_SIZE_def)

definition idle :: "instream \<Rightarrow> bool" where
  "idle f \<longleftrightarrow> buffered f = [] \<and> arriving f = [] \<and> \<not> closed f"

definition shown :: "string list \<Rightarrow> string" where
  "shown ls = concat (map (\<lambda>l. ''$ [From friend]$ '' @ l) ls)"

lemma hear_line:
  assumes "whole_line l" "buffered (friend s) = []" "arriving (friend s) = (l @ rest) # ps"
  shows "hear_friend s = ret (True, s\<lparr>friend := (friend s)\<lparr>buffered := rest, arriving := ps\<rparr>, screen := screen s @ ''[From friend]$ '' @ l\<rparr>)"
  by (simp add: hear_friend_def fgets_next_line [OF assms])

lemma round_hears_line:
  assumes "whole_line l" "buffered (friend s) = []" "arriving (friend s) = (l @ rest) # ps" "idle (keyboard s)"
  shows "chat_round s = ret (True, s\<lparr>friend := (friend s)\<lparr>buffered := rest, arriving := ps\<rparr>, screen := screen s @ ''$ [From friend]$ '' @ l\<rparr>)"
  using hear_line [of l "s\<lparr>screen := screen s @ ''$ ''\<rparr>" rest ps] assms
  by (simp add: chat_round_def Let_def selectable_def idle_def)

section \<open>Properties\<close>

text \<open>lines that arrive one by one are shown in their order, and the program ends when the friend has closed the pipe.\<close>

theorem friend_is_heard:
  assumes "list_all whole_line ls" "friend s = \<lparr>buffered = [], arriving = ls, closed = True\<rparr>" "idle (keyboard s)"
  shows "chat_loop s = ret (s\<lparr>friend := \<lparr>buffered = [], arriving = [], closed = True\<rparr>,
    screen := screen s @ shown ls @ ''$ [Terminated by friend. Goodbye.]'' @ [CHR 0x0A]\<rparr>)"
  using assms
proof (induction ls arbitrary: s)
  case Nil
  have "fgets_from BUF_SIZE (friend s) = Some (None, friend s)" using Nil.prems by (intro fgets_end) simp_all
  with Nil.prems show ?case
    by (subst chat_loop.simps) (simp add: chat_round_def Let_def selectable_def idle_def hear_friend_def shown_def)
next
  case (Cons l ls)
  from Cons.prems have r: "chat_round s = ret (True, s\<lparr>friend := \<lparr>buffered = [], arriving = ls, closed = True\<rparr>, screen := screen s @ ''$ [From friend]$ '' @ l\<rparr>)"
    using round_hears_line [of l s "[]" ls] by simp
  show ?case
    using Cons.IH [of "s\<lparr>friend := \<lparr>buffered = [], arriving = ls, closed = True\<rparr>, screen := screen s @ ''$ [From friend]$ '' @ l\<rparr>"] Cons.prems
    by (subst chat_loop.simps) (simp add: r shown_def)
qed

definition hello :: string where
  "hello = ''hello'' @ [CHR 0x0A]"

lemma hello_line: "whole_line hello"
  by (auto simp: whole_line_def hello_def BUF_SIZE_def)

definition quiet_keyboard :: instream where
  "quiet_keyboard = \<lparr>buffered = [], arriving = [], closed = False\<rparr>"

theorem friend_is_heard_witness:
  "\<exists>s. chat_loop \<lparr>friend = \<lparr>buffered = [], arriving = [hello, hello], closed = True\<rparr>, keyboard = quiet_keyboard, screen = [], sent = []\<rparr> = ret s \<and>
    screen s = shown [hello, hello] @ ''$ [Terminated by friend. Goodbye.]'' @ [CHR 0x0A]"
  using friend_is_heard [of "[hello, hello]"
      "\<lparr>friend = \<lparr>buffered = [], arriving = [hello, hello], closed = True\<rparr>, keyboard = quiet_keyboard, screen = [], sent = []\<rparr>"]
  by (simp add: hello_line idle_def quiet_keyboard_def)

text \<open>two lines that arrive together: the first is shown, the second is read into the buffer of stdio and stays there; \<open>select\<close> waits as
  if nothing had come.\<close>

theorem second_line_waits:
  assumes "whole_line l1" "whole_line l2" "friend s = \<lparr>buffered = [], arriving = [l1 @ l2], closed = False\<rparr>" "idle (keyboard s)"
  shows "\<exists>s'. chat_round s = ret (True, s') \<and> screen s' = screen s @ ''$ [From friend]$ '' @ l1 \<and> buffered (friend s') = l2 \<and>
    chat_round s' = None"
proof -
  have "chat_round s = ret (True, s\<lparr>friend := \<lparr>buffered = l2, arriving = [], closed = False\<rparr>, screen := screen s @ ''$ [From friend]$ '' @ l1\<rparr>)"
    using round_hears_line [of l1 s l2 "[]"] assms by simp
  moreover have "chat_round (s\<lparr>friend := \<lparr>buffered = l2, arriving = [], closed = False\<rparr>, screen := screen s @ ''$ [From friend]$ '' @ l1\<rparr>) = None"
    using assms(4) by (simp add: chat_round_def Let_def selectable_def idle_def)
  ultimately show ?thesis by simp
qed

theorem second_line_waits_witness:
  "\<exists>s'. chat_round \<lparr>friend = \<lparr>buffered = [], arriving = [hello @ hello], closed = False\<rparr>, keyboard = quiet_keyboard, screen = [], sent = []\<rparr>
    = ret (True, s') \<and> chat_round s' = None"
  using second_line_waits [of hello hello
      "\<lparr>friend = \<lparr>buffered = [], arriving = [hello @ hello], closed = False\<rparr>, keyboard = quiet_keyboard, screen = [], sent = []\<rparr>"]
  by (auto simp: hello_line idle_def quiet_keyboard_def)

text \<open>The two clients open the pipes in the same order and for opposite directions, so that neither waits for the other for ever.\<close>

theorem roles_meet: "list_all2 (\<noteq>) (pipe_roles ''yes'') (pipe_roles ''no'')"
  by (simp add: pipe_roles_def)

end
