(* ===== verification/SharedStrtok.thy ===== *)
theory SharedStrtok
  imports CText "HOL-Library.Sublist"
begin

text \<open>
  Threads that cut a text into words, with \<open>strtok\<close> (\<open>pthread_strtok.c\<close> of the shell course) and with \<open>strtok_r\<close> (\<open>pthread_strtok_r.c\<close>). The
  programs differ in the pointer to the rest of the text: \<open>strtok\<close> has one for all threads, \<open>strtok_r\<close> one for each. A call is one step.
\<close>

section \<open>The threads\<close>

text \<open>A call: the first word of a text and what is behind it.\<close>

definition next_token :: "string \<Rightarrow> (string \<times> string) option" where
  "next_token s = (case dropWhile (\<lambda>c. c = CHR '' '') s of [] \<Rightarrow> None
     | t \<Rightarrow> Some (takeWhile (\<lambda>c. c \<noteq> CHR '' '') t, tl (dropWhile (\<lambda>c. c \<noteq> CHR '' '') t)))"

datatype cutter_at = First string | Later | Over

text \<open>A thread with the words it has printed; \<open>rest_of\<close> holds the rest under each pointer, and \<open>slot\<close> is the pointer a thread uses.\<close>

record cutters =
  cutter :: "(cutter_at \<times> string list) list"
  rest_of :: "nat \<Rightarrow> string"

text \<open>The first word is printed without a test: a text without words gives a null pointer.\<close>

definition thread_func :: "(nat \<Rightarrow> nat) \<Rightarrow> nat \<Rightarrow> cutters \<Rightarrow> cutters run" where
  "thread_func slot k s =
     andthen (aget (cutter s) (int k)) (\<lambda>(at, words).
     case at of
       First input \<Rightarrow> (case next_token input of None \<Rightarrow> halt NullDeref
         | Some (token, rest) \<Rightarrow> ret (s\<lparr>cutter := (cutter s)[k := (Later, words @ [token])], rest_of := (rest_of s)(slot k := rest)\<rparr>))
     | Later \<Rightarrow> (case next_token (rest_of s (slot k)) of None \<Rightarrow> ret (s\<lparr>cutter := (cutter s)[k := (Over, words)]\<rparr>)
         | Some (token, rest) \<Rightarrow> ret (s\<lparr>cutter := (cutter s)[k := (Later, words @ [token])], rest_of := (rest_of s)(slot k := rest)\<rparr>))
     | Over \<Rightarrow> ret s)"

definition strtok_thread :: "nat \<Rightarrow> cutters \<Rightarrow> cutters run" where
  "strtok_thread = thread_func (\<lambda>k. 0)"

definition strtok_r_thread :: "nat \<Rightarrow> cutters \<Rightarrow> cutters run" where
  "strtok_r_thread = thread_func (\<lambda>k. k)"

fun cut_run :: "(nat \<Rightarrow> cutters \<Rightarrow> cutters run) \<Rightarrow> nat list \<Rightarrow> cutters \<Rightarrow> cutters run" where
  "cut_run thread [] s = ret s"
| "cut_run thread (k # ks) s = andthen (thread k s) (cut_run thread ks)"

definition cut_start :: "string list \<Rightarrow> cutters" where
  "cut_start inputs = \<lparr>cutter = map (\<lambda>t. (First t, [])) inputs, rest_of = (\<lambda>k. [])\<rparr>"

definition thread_text :: "nat \<Rightarrow> string" where
  "thread_text i = ''Thread '' @ show_nat i @ '' says: Linux is a cool operating system '' @ show_nat i"

section \<open>Words\<close>

lemma space_tokens_word: "CHR '' '' \<notin> set w \<Longrightarrow> space_tokens cur (w @ s) = space_tokens (cur @ w) s"
  by (induction w arbitrary: cur) auto

lemma space_tokens_spaces: "space_tokens [] (dropWhile (\<lambda>c. c = CHR '' '') s) = space_tokens [] s"
  by (induction s) auto

lemma space_tokens_split:
  "cur \<noteq> [] \<Longrightarrow> space_tokens cur t = (cur @ takeWhile (\<lambda>c. c \<noteq> CHR '' '') t) # space_tokens [] (tl (dropWhile (\<lambda>c. c \<noteq> CHR '' '') t))"
  by (induction t arbitrary: cur) auto

lemma next_token_tokens:
  "space_tokens [] s = (case next_token s of None \<Rightarrow> [] | Some (token, rest) \<Rightarrow> token # space_tokens [] rest)"
proof (cases "dropWhile (\<lambda>c. c = CHR '' '') s")
  case Nil
  then show ?thesis using space_tokens_spaces [of s] by (simp add: next_token_def del: dropWhile_eq_Nil_conv)
next
  case (Cons c t)
  have "c \<noteq> CHR '' ''" using hd_dropWhile [of "\<lambda>c. c = CHR '' ''" s] Cons by auto
  then show ?thesis using space_tokens_spaces [of s] space_tokens_split [of "[c]" t] Cons by (simp add: next_token_def)
qed

section \<open>Threads with a pointer of their own\<close>

definition left_of :: "cutters \<Rightarrow> nat \<Rightarrow> string" where
  "left_of s k = (case fst (cutter s ! k) of First input \<Rightarrow> input | Later \<Rightarrow> rest_of s k | Over \<Rightarrow> [])"

definition cut_ok :: "string list \<Rightarrow> cutters \<Rightarrow> bool" where
  "cut_ok inputs s \<longleftrightarrow> length (cutter s) = length inputs \<and>
     (\<forall>k < length inputs. snd (cutter s ! k) @ space_tokens [] (left_of s k) = space_tokens [] (inputs ! k))"

lemma strtok_r_ok:
  assumes "strtok_r_thread k s = ret s'" "cut_ok inputs s"
  shows "cut_ok inputs s'"
proof -
  from assms(1) obtain at words where g: "aget (cutter s) (int k) = ret (at, words)"
    unfolding strtok_r_thread_def thread_func_def by (auto split: prod.splits)
  then have k: "k < length (cutter s)" "cutter s ! k = (at, words)" by (auto simp: aget_ret)
  consider "s' = s" | token rest where "next_token (left_of s k) = Some (token, rest)" "at \<noteq> Over"
      "s' = s\<lparr>cutter := (cutter s)[k := (Later, words @ [token])], rest_of := (rest_of s)(k := rest)\<rparr>"
    | "next_token (left_of s k) = None" "s' = s\<lparr>cutter := (cutter s)[k := (Over, words)]\<rparr>"
    using assms(1) g k
    by (auto simp: strtok_r_thread_def thread_func_def left_of_def split: cutter_at.splits option.splits)
  then show ?thesis
  proof cases
    case 1
    with assms(2) show ?thesis by simp
  next
    case 2
    with assms(2) k next_token_tokens [of "left_of s k"] show ?thesis
      by (auto simp: cut_ok_def left_of_def nth_list_update split: cutter_at.splits)
  next
    case 3
    with assms(2) k next_token_tokens [of "left_of s k"] show ?thesis
      by (auto simp: cut_ok_def left_of_def nth_list_update cong: cutter_at.case_cong)
  qed
qed

lemma cut_run_ok: "cut_run strtok_r_thread ks s = ret s' \<Longrightarrow> cut_ok inputs s \<Longrightarrow> cut_ok inputs s'"
  by (induction ks arbitrary: s) (auto intro: strtok_r_ok)

section \<open>Properties\<close>

text \<open>with \<open>strtok_r\<close> every thread prints words of its own text only, in their order, and all of them by the time it ends, whatever the
  order of the calls.\<close>

theorem own_words:
  assumes "cut_run strtok_r_thread ks (cut_start inputs) = ret s" "k < length inputs"
  shows "prefix (snd (cutter s ! k)) (space_tokens [] (inputs ! k)) \<and>
    (fst (cutter s ! k) = Over \<longrightarrow> snd (cutter s ! k) = space_tokens [] (inputs ! k))"
proof -
  have "cut_ok inputs (cut_start inputs)" by (simp add: cut_ok_def cut_start_def left_of_def)
  then have "cut_ok inputs s" using cut_run_ok assms(1) by blast
  with assms(2) have e: "snd (cutter s ! k) @ space_tokens [] (left_of s k) = space_tokens [] (inputs ! k)" by (simp add: cut_ok_def)
  moreover have "fst (cutter s ! k) = Over \<Longrightarrow> left_of s k = []" by (simp add: left_of_def)
  ultimately show ?thesis by (metis append_Nil2 prefixI space_tokens.simps(1))
qed

theorem own_words_witness:
  "\<exists>s. cut_run strtok_r_thread [0, 1, 0] (cut_start [''a b'', ''c d'']) = ret s \<and> prefix (snd (cutter s ! 0)) [''a'', ''b'']"
  using own_words [of "[0, 1, 0]" "[''a b'', ''c d'']" _ 0]
  by (simp add: cut_start_def strtok_r_thread_def thread_func_def next_token_def aget_def)

text \<open>With \<open>strtok\<close> the first thread of the program prints the number of the second one.\<close>

theorem words_of_another_thread:
  "\<exists>s. cut_run strtok_thread [0, 1, 0] (cut_start [thread_text 0, thread_text 1]) = ret s \<and>
    snd (cutter s ! 0) = [''Thread'', ''1''] \<and> take 2 (space_tokens [] (thread_text 0)) = [''Thread'', ''0'']"
proof -
  have "thread_text 0 = ''Thread 0 says: Linux is a cool operating system 0''" "thread_text 1 = ''Thread 1 says: Linux is a cool operating system 1''"
    by code_simp+
  then show ?thesis by (simp add: cut_start_def strtok_thread_def thread_func_def next_token_def aget_def)
qed

end
