(* ===== verification/PartitionTable.thy ===== *)
theory PartitionTable
  imports Fat32
begin

text \<open>
  The reader of the partition table of a disk image (\<open>read_part.c\<close> of the shell course): four packed structures behind the boot code.
\<close>

section \<open>The table\<close>

definition PTABLE_START :: nat where "PTABLE_START = 446"

record ptable =
  flag :: byte
  chs_start_addr :: "byte list"
  ptype :: byte
  chs_end_addr :: "byte list"
  lba_start_addr :: "32 word"
  size_in_sector :: "32 word"

definition ptable_of :: "byte list \<Rightarrow> ptable" where
  "ptable_of bs = \<lparr>flag = of_le (cut 0 1 bs), chs_start_addr = cut 1 3 bs, ptype = of_le (cut 4 1 bs), chs_end_addr = cut 5 3 bs,
     lba_start_addr = of_le (cut 8 4 bs), size_in_sector = of_le (cut 12 4 bs)\<rparr>"

definition ptable_size :: nat where "ptable_size = 16"

section \<open>The report\<close>

definition hex_digit :: "nat \<Rightarrow> char" where
  "hex_digit d = (if d < 10 then char_of (48 + d) else char_of (87 + d))"

text \<open>\<open>%02x\<close> of a byte.\<close>

definition show_hex2 :: "byte \<Rightarrow> string" where
  "show_hex2 b = [hex_digit (unat b div 16), hex_digit (unat b mod 16)]"

definition partition_text :: "nat \<Rightarrow> ptable \<Rightarrow> string" where
  "partition_text i p =
     ''Partition table #'' @ show_int (int i + 1) @ [CHR 0x0A] @ ''------------------'' @ [CHR 0x0A] @
     ''Bootable'' @ [CHR 0x09] @ (if flag p = 0x80 then ''Yes'' else ''No'') @ [CHR 0x0A] @
     ''LBA start addr'' @ [CHR 0x09] @ show_int (uint (lba_start_addr p)) @ [CHR 0x0A] @
     ''type'' @ [CHR 0x09, CHR 0x09] @ ''0x'' @ show_hex2 (ptype p) @ [CHR 0x0A] @
     ''size'' @ [CHR 0x09, CHR 0x09] @ show_int (uint (size_in_sector p)) @ [CHR 0x0A] @ [CHR 0x0A]"

text \<open>What \<open>fopen\<close> finds under a name is a parameter. An image that is too short leaves bytes of the buffer that nobody wrote, which are then
  printed.\<close>

definition read_part :: "(string \<Rightarrow> byte list option) \<Rightarrow> string list \<Rightarrow> string run" where
  "read_part images argv =
     (if length argv \<noteq> 2 then halt (Exit 1)
      else case images (argv ! 1) of None \<Rightarrow> halt (Exit 1)
      | Some img \<Rightarrow>
          let buf = cut PTABLE_START (4 * ptable_size) img
          in if length buf < 4 * ptable_size then halt Uninitialised
             else ret (concat (map (\<lambda>i. partition_text i (ptable_of (cut (i * ptable_size) ptable_size buf))) [0..<4])))"

section \<open>Writing a table\<close>

text \<open>The bytes of an entry, as a partitioning program stores them.\<close>

definition ptable_bytes :: "ptable \<Rightarrow> byte list" where
  "ptable_bytes p = flag p # chs_start_addr p @ ptype p # chs_end_addr p @ le32 (lba_start_addr p) @ le32 (size_in_sector p)"

definition ptable_ok :: "ptable \<Rightarrow> bool" where
  "ptable_ok p \<longleftrightarrow> length (chs_start_addr p) = 3 \<and> length (chs_end_addr p) = 3"

lemma base_256:
  fixes x :: int
  assumes "x < 4294967296" "0 \<le> x"
  shows "x mod 256 + 256 * (x div 256 mod 256 + 256 * (x div 65536 mod 256 + 256 * (x div 16777216 mod 256))) = x"
proof -
  have "x div 16777216 mod 256 = x div 16777216" using assms by simp
  moreover have "x div 65536 mod 256 + 256 * (x div 16777216) = x div 65536"
    using mod_mult_div_eq [of "x div 65536" 256] by (simp flip: zdiv_zmult2_eq)
  moreover have "x div 256 mod 256 + 256 * (x div 65536) = x div 256"
    using mod_mult_div_eq [of "x div 256" 256] by (simp flip: zdiv_zmult2_eq)
  ultimately show ?thesis by (simp only: mod_mult_div_eq)
qed

lemma of_le_le32 [simp]: "of_le (le32 w) = w"
proof -
  have b: "uint (ucast (drop_bit n w) :: byte) = uint w div 2 ^ n mod 256" for n
  proof -
    have "uint (drop_bit n w) = uint w div 2 ^ n" using uint_bounded [of w] by (simp only: unsigned_drop_bit_eq) (simp add: drop_bit_eq_div take_bit_int_eq_self)
    then show ?thesis by (simp only: unsigned_ucast_eq) (simp add: take_bit_eq_mod)
  qed
  have c: "uint (ucast w :: byte) = uint w mod 256" by (simp only: unsigned_ucast_eq) (simp add: take_bit_eq_mod)
  have "le_value (le32 w) = uint w mod 256 + 256 * (uint w div 2 ^ 8 mod 256 + 256 * (uint w div 2 ^ 16 mod 256 + 256 * (uint w div 2 ^ 24 mod 256)))"
    by (simp only: le32_def be32_def rev.simps append.simps le_value_simps b c mult_zero_right add_0_right)
  also have "\<dots> = uint w" using base_256 [OF _ uint_ge_0] uint_bounded [of w] by simp
  finally have "le_value (le32 w) = uint w" .
  moreover have "uint (of_le (le32 w) :: 32 word) = le_value (le32 w)" by (rule uint_of_le) simp
  ultimately show ?thesis by (simp add: word_uint_eq_iff)
qed

lemma of_le_byte [simp]: "of_le [b] = (b :: byte)"
  by (simp add: of_le_def word_rcat_def)

lemma length_ptable_bytes: "ptable_ok p \<Longrightarrow> length (ptable_bytes p) = ptable_size"
  by (simp add: ptable_ok_def ptable_bytes_def ptable_size_def)

lemma ptable_of_bytes: "ptable_ok p \<Longrightarrow> ptable_of (ptable_bytes p) = p"
  by (cases p) (simp add: ptable_ok_def ptable_of_def ptable_bytes_def cut_def)

lemma cut_blocks:
  assumes "\<forall>b \<in> set bs. length b = n" "i < length bs"
  shows "cut (i * n) n (concat bs) = bs ! i"
  using assms
proof (induction bs arbitrary: i)
  case (Cons b bs)
  then show ?case by (cases i) (simp_all add: cut_def)
qed simp

text \<open>the report shows the entries of the table that was written behind 446 bytes of boot code, whatever comes after it.\<close>

theorem partitions_reported:
  assumes "images name = Some (boot @ concat (map ptable_bytes ps) @ rest)" "length boot = PTABLE_START" "length ps = 4" "list_all ptable_ok ps"
  shows "read_part images [prog, name] = ret (concat (map (\<lambda>i. partition_text i (ps ! i)) [0..<4]))"
proof -
  let ?t = "concat (map ptable_bytes ps)"
  have b: "\<forall>b \<in> set (map ptable_bytes ps). length b = ptable_size"
    using assms(4) length_ptable_bytes by (auto simp: list_all_iff)
  have "length ?t = 4 * ptable_size"
    using assms(3) b by (simp add: length_concat comp_def sum_list_triv cong: map_cong)
  then have buf: "cut PTABLE_START (4 * ptable_size) (boot @ ?t @ rest) = ?t" using assms(2) by (simp add: cut_def)
  have "ptable_of (cut (i * ptable_size) ptable_size ?t) = ps ! i" if "i < 4" for i
    using cut_blocks [OF b, of i] that assms(3,4) ptable_of_bytes by (simp add: list_all_length)
  then have "map (\<lambda>i. partition_text i (ptable_of (cut (i * ptable_size) ptable_size ?t))) [0..<4] =
      map (\<lambda>i. partition_text i (ps ! i)) [0..<4]" by (intro map_cong) simp_all
  with buf \<open>length ?t = 4 * ptable_size\<close> assms(1) show ?thesis by (simp add: read_part_def del: map_eq_conv)
qed

definition sample_partition :: ptable where
  "sample_partition = \<lparr>flag = 0x80, chs_start_addr = [32, 33, 0], ptype = 0x83, chs_end_addr = [254, 255, 255], lba_start_addr = 2048, size_in_sector = 409600\<rparr>"

theorem partitions_reported_witness:
  "read_part [''disk'' \<mapsto> replicate PTABLE_START 0 @ concat (map ptable_bytes (replicate 4 sample_partition)) @ [0x55, 0xAA]] [''read_part'', ''disk''] =
    ret (concat (map (\<lambda>i. partition_text i (replicate 4 sample_partition ! i)) [0..<4]))"
  using partitions_reported [of "[''disk'' \<mapsto> replicate PTABLE_START 0 @ concat (map ptable_bytes (replicate 4 sample_partition)) @ [0x55, 0xAA]]" "''disk''"
      "replicate PTABLE_START 0" "replicate 4 sample_partition" "[0x55, 0xAA]" "''read_part''"]
  by (simp add: list_all_length ptable_ok_def sample_partition_def del: replicate_Suc map_replicate)

end
