(* ===== verification/Spec2Isabelle.thy ===== *)
theory Spec2Isabelle
  imports RouterAgent Milestone2 RouterCount Fat32 Pool FtpClientSpec ShellSpec ShellJobs ProxyService ProxyServers
    RingBuffer SharedCounter FileRace DiceGame Chatroom SharedStrtok PartitionTable
begin

text \<open>
  A model in Isabelle/HOL of the C programs of the repository, with the theorems that make them correct and those
  that show where they are not. The programs are independent of each other: a distance-vector router with the
  agent that drives it (\<^verbatim>\<open>router/router.c\<close>, its earlier version \<^verbatim>\<open>router/mile2.c\<close>, \<^verbatim>\<open>router/agent.c\<close>, \<^verbatim>\<open>router/common.h\<close>), a file transfer server
  and client (\<^verbatim>\<open>ftp/\<close>), the beginnings of a reader of FAT32 devices (\<^verbatim>\<open>FAT32_recovery/recovery.c\<close>), a shell with pipes and job control (\<^verbatim>\<open>shell/osShell.c\<close>) and a caching web proxy
  (\<^verbatim>\<open>proxy server/myproxy.c\<close>); of the samples handed out with the courses, those with a logic of their own (threads
  and processes that share state, a game, a chat program, a partition table). The servers share one idiom, a main thread that hands
  connections to client threads through a table of slots.

  \<^bold>\<open>How C is read.\<close> A function of the code is a function that returns a \<open>run\<close> (theory Prelude): \<open>None\<close> when
  the code does not return, \<open>Inl\<close> a fault (an \<open>exit\<close>, an access outside an array, a null pointer, memory nobody
  wrote, signed overflow), \<open>Inr\<close> the result. Arrays are lists that are read and written through \<open>aget\<close>, \<open>aset\<close>,
  \<open>blit\<close> and \<open>slice\<close>, which fault outside their bounds. Global variables and thread arguments are records that
  are passed along. Messages to the terminal are left out unless a program's purpose is to print
  them. What the kernel answers (which files open, how many bytes a call moves, what \<open>fork\<close> returns) is an
  argument or part of the state; names of parameters say what they stand for.

  \<^bold>\<open>Theories.\<close>
  \<^item> Prelude: outcomes, arrays, C integers, byte order, and the locale \<open>invariant_system\<close> for transition
    systems. CText: C strings, decimal numbers, \<open>scanf\<close>, \<open>inet_addr\<close>, \<open>strtok\<close>.
  \<^item> Streams: a socket is the schedule of segments the kernel delivers and accepts; the receive and send
    loops that all programs share are proved once in locales over any stream and interpreted on the sockets.
    Wire: an interface of encodings with a fixed length.
  \<^item> RipMsg, DistanceVector, RouterNet, RouterConf: message header, tables, handlers and configuration files of
    the router. RouterExchange proves what handlers keep of the sockets and tables, RouterSpec states the
    properties, RouterAgent adds the agent. The Bellman-Ford row is the specification of \<open>recompute\<close>.
  \<^item> RouterLinks, RouterConverge, RouterSettle: routers together. A network holds the state of every router and the rows in
    flight, in order, on every link; a step serves the oldest row of a link or makes a router announce. The
    specification is the cost of the cheapest walk. An invariant over the network (every row on its way is no better than the
    next one, every cost is that of a walk, the own row solves the Bellman equation of the stored rows) gives that
    serving ends within \<open>10000 * N * N * (N + 1)\<close> steps and the rows in flight, and that the tables
    then are cheapest and lead packets there. It holds for links that stay as configured. RouterCount: what happens after links have gone, in the
    smallest case: two routers count a lost destination up to 10000. RouterFiles: the two configuration files as text
    establish the start of the network.
  \<^item> Milestone2: the version of the router before the final one (\<^verbatim>\<open>router/mile2.c\<close>), as far as its functions differ, and a
    simulation: for every message but the request for the printed table both versions send the same and keep the same distances.
  \<^item> Pool: the slots of the three servers as a step relation over critical sections, with exclusion and
    wake-up proved for every interleaving and interpreted at the sizes of the servers.
  \<^item> FtpMsg, FtpServer, FtpService, FtpSpec: the server thread, one function per request, and its properties
    against the files of the server. FtpClient, FtpClientSpec: the client's state machine and the two
    programs run against each other.
  \<^item> ShellSyntax: tokenizer and syntax check, proved equal to a grammar. ShellExec: argument vectors and
    descriptor tables of the children. ShellSpec: whole pipelines. ShellJobs: the job table as a list, which
    running a line appends to and \<open>fg\<close> rotates or shortens, and the main loop as steps between outcomes, a fault being the last one:
    the table is never checked for room.
  \<^item> Fat32: the boot sector and the positions of tables and clusters on a device, for \<open>unsigned long\<close> of any width.
  \<^item> ProxyText: editing of header strings, related to headers as lists of lines by the locale \<open>header_fields\<close>.
    HttpDate: the calendar and the date format. ProxyCache: the decisions on requests and responses and
    the header sent to a server. ProxySpec: their properties against an abstract cache.
  \<^item> ProxyIO: a client thread with its sockets, buffer, mutex and the files of the cache, up to the service loop.
    ProxyBack: how headers and objects move through it, block by block. ProxyService: whole requests that miss or
    hit the cache, and connections. ProxyServers: the slots of server connections as a transition system with an
    invariant over every history; a client keeps one connection only.
  \<^item> Samples. RingBuffer: producer and consumer; the ring implements the locale \<open>bounded_queue\<close>, and over every order of the threads nothing
    is lost, reordered or waited for without end. SharedCounter: threads under a mutex, with the exact length of every run. FileRace: two processes
    without a lock, with all the outcomes. DiceGame: the score of a game against its rules. Chatroom: \<open>select\<close> and the buffers of stdio.
    SharedStrtok: \<open>strtok\<close> and \<open>strtok_r\<close> in threads. PartitionTable: the report on a disk image.

  \<^bold>\<open>Bounds and termination.\<close> Loops over arrays and lists are structural. Loops that wait for a peer
  (\<open>recv_loop\<close>, \<open>send_loop\<close>, \<open>service_loop\<close>, \<open>auth_loop\<close>, \<open>fsm_loop\<close>, \<open>proxy_service\<close>) are partial functions, so that not returning
  is a value, and the theorems say when they return; a truncated announcement is proved to make the
  router hang. No fuel is used. Array sizes are those of the code; \<open>int\<close> arithmetic on values that come from
  other hosts is checked with \<open>cint\<close>, and the wire integers are 32-bit words. The numbers that \<open>atoi\<close> and \<open>%d\<close> read are \<open>int\<close>s:
  \<open>long_to_int\<close> converts what is larger as the GNU C library does on 64-bit machines (the C standard leaves it open), and the
  theorems on configuration files ask for numbers that are \<open>int\<close>s.

  \<^bold>\<open>Not modelled.\<close> Socket setup and address printing; the printing of the router's tables to the terminal;
  signals and the program that \<open>execvp\<close> starts; the functions of \<^verbatim>\<open>FAT32_recovery/recovery.c\<close> that
  use names declared nowhere (\<open>printable_filename\<close>, \<open>search_delete\<close>), which is why it does not compile; the samples that
  show a single call; the Java projects. \<open>crypt_r\<close>, \<open>getaddrinfo\<close> and
  \<open>select\<close> of the proxy are parameters. The client threads of the proxy share the cache and its mutex; the
  theorems on requests follow one thread while no other runs, and the flag of the mutex shows where it would wait.
\<close>

end
